(* ===== verification/Prelude.thy ===== *)
theory Prelude
  imports Main "HOL-Library.Word"
begin

text \<open>
  Shared vocabulary of the development.

  \<^item> Machine words: \<open>u8\<close>, \<open>u16\<close>, \<open>u32\<close>, \<open>u64\<close> name the unsigned C types. Components
    that work bit by bit (page-table entries, protocol headers, flag sets) use them directly.
  \<^item> Sizes and addresses (\<open>size_t\<close>, \<open>uintptr_t\<close>) that are only added, subtracted and compared
    are natural numbers below \<open>2 ^ 64\<close>; the operations \<open>add64\<close>, \<open>sub64\<close>, \<open>mul64\<close> write
    the wrap-around of the C type out, and \<open>ALIGN_UP\<close>, \<open>ALIGN_DOWN\<close> are the macros of
    \<^verbatim>\<open>kernel/include/kernel/types.h\<close> on them.
  \<^item> The collection \<open>arith64\<close>, and the generic list lemmas the components share.
\<close>

unbundle bit_operations_syntax

type_synonym u8 = "8 word"
type_synonym u16 = "16 word"
type_synonym u32 = "32 word"
type_synonym u64 = "64 word"

named_theorems arith64 \<open>wrap-around arithmetic without wrap\<close>

section \<open>64-bit sizes and addresses\<close>

definition add64 :: "nat \<Rightarrow> nat \<Rightarrow> nat" where
  "add64 a b = (a + b) mod 2 ^ 64"

definition sub64 :: "nat \<Rightarrow> nat \<Rightarrow> nat" where
  "sub64 a b = (a + (2 ^ 64 - b mod 2 ^ 64)) mod 2 ^ 64"

definition mul64 :: "nat \<Rightarrow> nat \<Rightarrow> nat" where
  "mul64 a b = (a * b) mod 2 ^ 64"

definition PAGE_SIZE :: nat where
  "PAGE_SIZE = 4096"

text \<open>
  The macros mask with \<open>~(align - 1)\<close>; for the power-of-two alignments of the code that
  subtracts the remainder (\<open>ALIGN_UP_word\<close>, \<open>ALIGN_DOWN_word\<close> below).
\<close>

definition ALIGN_UP :: "nat \<Rightarrow> nat \<Rightarrow> nat" where
  "ALIGN_UP x a = (let y = add64 x (a - 1) in y - y mod a)"

definition ALIGN_DOWN :: "nat \<Rightarrow> nat \<Rightarrow> nat" where
  "ALIGN_DOWN x a = x - x mod a"

lemma PAGE_SIZE_pos [simp]: "0 < PAGE_SIZE" "PAGE_SIZE \<noteq> 0"
  by (simp_all add: PAGE_SIZE_def)

lemma add64_less [simp]: "add64 a b < 18446744073709551616"
  by (simp add: add64_def)

lemma add64_eq [arith64]: "a + b < 2 ^ 64 \<Longrightarrow> add64 a b = a + b"
  by (simp add: add64_def)

lemma sub64_eq [arith64]: "b \<le> a \<Longrightarrow> a < 2 ^ 64 \<Longrightarrow> sub64 a b = a - b"
proof -
  assume ab: "b \<le> a" and a: "a < 2 ^ 64"
  then have "a + (2 ^ 64 - b mod 2 ^ 64) = (a - b) + 2 ^ 64"
    by simp
  with a show ?thesis
    by (simp add: sub64_def)
qed

lemma mul64_eq [arith64]: "a * b < 2 ^ 64 \<Longrightarrow> mul64 a b = a * b"
  by (simp add: mul64_def)

text \<open>The bound as an opaque number, for invariants that linear arithmetic works on.\<close>

definition W64 :: nat where
  "W64 = 2 ^ 64"

lemma W64_pos [simp]: "0 < W64" "64 < W64" "PAGE_SIZE < W64"
  by (simp_all add: W64_def PAGE_SIZE_def)

lemma add64_W64: "a + b < W64 \<Longrightarrow> add64 a b = a + b"
  by (simp only: W64_def add64_eq)

lemma sub64_W64: "b \<le> a \<Longrightarrow> a < W64 \<Longrightarrow> sub64 a b = a - b"
  by (simp only: W64_def sub64_eq)

lemma mul64_W64: "a * b < W64 \<Longrightarrow> mul64 a b = a * b"
  by (simp only: W64_def mul64_eq)

lemma unat_add64: "unat (x + y :: u64) = add64 (unat x) (unat y)"
  by (simp add: add64_def unat_word_ariths)

lemma unat_sub64: "unat (x - y :: u64) = sub64 (unat x) (unat y)"
proof -
  have xb: "unat x < 2 ^ 64" and yb: "unat y < 2 ^ 64"
    using unsigned_less [of x] unsigned_less [of y] by simp_all
  have "int (unat (x - y)) = (int (unat x) - int (unat y)) mod 2 ^ 64"
    by (simp add: uint_word_ariths)
  also have "\<dots> = (int (unat x) - int (unat y) + 2 ^ 64) mod 2 ^ 64"
    by simp
  also have "\<dots> = int (sub64 (unat x) (unat y))"
    using xb yb by (simp add: sub64_def of_nat_mod of_nat_diff algebra_simps)
  finally show ?thesis
    by (simp only: of_nat_eq_iff)
qed

lemma unat_mul64: "unat (x * y :: u64) = mul64 (unat x) (unat y)"
  by (simp add: mul64_def unat_word_ariths)

lemma word_and_not_mask: "(x :: 'a::len word) AND NOT (mask k) = x - (x AND mask k)"
proof -
  have "(x AND mask k) + (x AND NOT (mask k)) = (x AND mask k) OR (x AND NOT (mask k))"
    by (rule disjunctive_add_eq_or) (simp add: bit_eq_iff bit_simps)
  also have "\<dots> = x"
    by (simp add: bit_eq_iff bit_simps) blast
  finally show ?thesis
    by (metis add_diff_cancel_left')
qed

lemma unat_and_not_mask:
  "unat ((x :: u64) AND NOT (mask k)) = unat x - unat x mod 2 ^ k"
proof -
  have le: "x AND mask k \<le> x"
    by (rule word_and_le2)
  have "unat (x AND NOT (mask k)) = unat x - unat (x AND mask k)"
    by (simp add: word_and_not_mask unat_sub [OF le])
  moreover have "unat (x AND mask k) = unat x mod 2 ^ k"
    by (simp add: unsigned_take_bit_eq flip: take_bit_eq_mask take_bit_eq_mod)
  ultimately show ?thesis
    by simp
qed

lemma ALIGN_DOWN_word: "unat ((x :: u64) AND NOT (mask k)) = ALIGN_DOWN (unat x) (2 ^ k)"
  by (simp add: unat_and_not_mask ALIGN_DOWN_def)

lemma unat_mask64: "k \<le> 64 \<Longrightarrow> unat (mask k :: u64) = 2 ^ k - 1"
proof -
  assume "k \<le> 64"
  then have "uint (mask k :: u64) = mask k"
    by (simp add: uint_mask_eq min_absorb2)
  then show ?thesis
    by (simp only: unat_eq_nat_uint nat_mask_eq) (simp only: mask_eq_exp_minus_1)
qed

lemma ALIGN_UP_word:
  "k < 64 \<Longrightarrow> unat (((x :: u64) + mask k) AND NOT (mask k)) = ALIGN_UP (unat x) (2 ^ k)"
  by (simp add: unat_and_not_mask ALIGN_UP_def unat_add64 unat_mask64 Let_def)

lemma ALIGN_DOWN_le: "ALIGN_DOWN x a \<le> x"
  by (simp add: ALIGN_DOWN_def)

lemma ALIGN_DOWN_dvd: "a dvd ALIGN_DOWN x a"
  by (simp add: ALIGN_DOWN_def dvd_minus_mod)

lemma ALIGN_UP_dvd: "a dvd ALIGN_UP x a"
  by (simp add: ALIGN_UP_def Let_def dvd_minus_mod)

lemma ALIGN_UP_eq:
  assumes "0 < a" and "x + a - 1 < 2 ^ 64"
  shows "ALIGN_UP x a = (x + a - 1) div a * a"
proof -
  have eq: "x + (a - 1) = x + a - 1"
    using assms(1) by simp
  have "add64 x (a - 1) = x + a - 1"
    by (simp only: add64_def eq mod_less [OF assms(2)])
  then show ?thesis
    by (simp only: ALIGN_UP_def Let_def minus_mod_eq_div_mult)
qed

lemma ALIGN_UP_bounds:
  assumes "0 < a" and "x + a \<le> W64"
  shows "x \<le> ALIGN_UP x a" and "ALIGN_UP x a < x + a"
proof -
  have b: "x + a - 1 < 2 ^ 64"
    using assms by (simp only: W64_def [symmetric])
  have "(x + a - 1) div a * a + (x + a - 1) mod a = x + a - 1"
    by simp
  moreover have "(x + a - 1) mod a < a"
    using assms(1) by simp
  ultimately have "x \<le> (x + a - 1) div a * a \<and> (x + a - 1) div a * a < x + a"
    using assms(1) by linarith
  then show "x \<le> ALIGN_UP x a" and "ALIGN_UP x a < x + a"
    by (simp_all only: ALIGN_UP_eq [OF assms(1) b])
qed

lemma dvd_apart:
  assumes "n dvd f" and "n dvd g" and "f \<noteq> (g::nat)"
  shows "f + n \<le> g \<or> g + n \<le> f"
proof -
  obtain i j where ij: "f = n * i" "g = n * j"
    using assms(1,2) by (elim dvdE)
  with assms(3) have "Suc i \<le> j \<or> Suc j \<le> i"
    by auto
  then have "n * Suc i \<le> n * j \<or> n * Suc j \<le> n * i"
    using mult_le_mono2 by blast
  with ij show ?thesis
    by (simp add: add.commute)
qed

end
