(* ===== verification/Contracts.thy ===== *)
theory Contracts
  imports Prelude
begin

text \<open>
  The interfaces between the components, as locales: what a provider promises and what every
  client may conclude from the promise alone. Each provider's theory interprets its locale on
  the model of the code; the clients' proofs use the facts of the interpretation.

  \<^item> \<open>linked_queue\<close>: a queue of nodes with insertion at the tail and removal of any node
    (\<^verbatim>\<open>list.h\<close>, the buffer cache's LRU list).
  \<^item> \<open>frame_allocator\<close> and \<open>run_allocator\<close>: page frames, one at a time and in contiguous runs
    (\<^verbatim>\<open>pmm.c\<close>, used by the heap, the page tables and shared memory).
\<close>

section \<open>Queues of linked nodes\<close>

locale linked_queue =
  fixes holds :: "'s \<Rightarrow> 'n list \<Rightarrow> bool"
    and node :: "'n \<Rightarrow> bool"
    and enq :: "'n \<Rightarrow> 's \<Rightarrow> 's"
    and unlink :: "'n \<Rightarrow> 's \<Rightarrow> 's"
  assumes holds_distinct: "holds s xs \<Longrightarrow> distinct xs"
    and enq_holds: "holds s xs \<Longrightarrow> node n \<Longrightarrow> n \<notin> set xs \<Longrightarrow> holds (enq n s) (xs @ [n])"
    and unlink_holds: "holds s xs \<Longrightarrow> n \<in> set xs \<Longrightarrow> holds (unlink n s) (remove1 n xs)"
begin

text \<open>Unlinking a node and queueing it again makes it the youngest and keeps the others' order.\<close>

lemma requeue_holds:
  assumes "holds s xs" and "n \<in> set xs" and "node n"
  shows "holds (enq n (unlink n s)) (remove1 n xs @ [n])"
proof -
  have "n \<notin> set (remove1 n xs)"
    using holds_distinct [OF assms(1)] by simp
  then show ?thesis
    using enq_holds unlink_holds assms by blast
qed

lemma enq_all_holds:
  "holds s xs \<Longrightarrow> distinct (xs @ ns) \<Longrightarrow> \<forall>n \<in> set ns. node n \<Longrightarrow> holds (fold enq ns s) (xs @ ns)"
proof (induction ns arbitrary: s xs)
  case Nil
  then show ?case by simp
next
  case (Cons n ns)
  then have "holds (enq n s) (xs @ [n])"
    by (intro enq_holds) auto
  then have "holds (fold enq ns (enq n s)) ((xs @ [n]) @ ns)"
    using Cons.prems by (intro Cons.IH) auto
  then show ?case
    by simp
qed

text \<open>Taking the nodes off from the front empties the queue: first in, first out.\<close>

lemma unlink_all_holds: "holds s xs \<Longrightarrow> holds (fold unlink xs s) []"
proof (induction xs arbitrary: s)
  case Nil
  then show ?case by simp
next
  case (Cons n ns)
  have "holds (unlink n s) ns"
    using unlink_holds [OF Cons.prems, of n] by simp
  then show ?case
    using Cons.IH by simp
qed

end

section \<open>Page frames\<close>

text \<open>
  \<open>owned s\<close> is the set of frame addresses in use; \<open>alloc\<close> returns 0 when it fails, and then
  changes nothing.
\<close>

locale frame_allocator =
  fixes inv :: "'s \<Rightarrow> bool"
    and owned :: "'s \<Rightarrow> nat set"
    and alloc :: "'s \<Rightarrow> nat \<times> 's"
    and release :: "nat \<Rightarrow> 's \<Rightarrow> 's"
  assumes alloc_cases: "inv s \<Longrightarrow> alloc s = (a, t) \<Longrightarrow>
      a = 0 \<and> t = s \<or> a \<noteq> 0 \<and> a \<notin> owned s \<and> owned t = insert a (owned s) \<and> inv t"
    and owned_aligned: "a \<in> owned s \<Longrightarrow> PAGE_SIZE dvd a"
    and owned_below: "inv s \<Longrightarrow> a \<in> owned s \<Longrightarrow> a + PAGE_SIZE \<le> 2 ^ 64"
    and release_owned: "inv s \<Longrightarrow> a \<in> owned s \<Longrightarrow> a \<noteq> 0 \<Longrightarrow>
      inv (release a s) \<and> owned (release a s) = owned s - {a}"
begin

lemma alloc_fresh:
  assumes "inv s" and "alloc s = (a, t)" and "a \<noteq> 0"
  shows "a \<notin> owned s" "owned t = insert a (owned s)" "inv t" "PAGE_SIZE dvd a"
    "a + PAGE_SIZE \<le> 2 ^ 64"
proof -
  show "a \<notin> owned s" and o: "owned t = insert a (owned s)" and i: "inv t"
    using alloc_cases [OF assms(1,2)] assms(3) by auto
  show "PAGE_SIZE dvd a" and "a + PAGE_SIZE \<le> 2 ^ 64"
    using owned_aligned [of a t] owned_below [OF i, of a] by (simp_all add: o)
qed

lemma alloc_inv: "inv s \<Longrightarrow> alloc s = (a, t) \<Longrightarrow> inv t"
  using alloc_cases by blast

lemma alloc_mono: "inv s \<Longrightarrow> alloc s = (a, t) \<Longrightarrow> owned s \<subseteq> owned t"
  using alloc_cases by blast

text \<open>Giving a frame straight back leaves the frames in use as they were.\<close>

lemma alloc_release:
  assumes "inv s" and "alloc s = (a, t)" and "a \<noteq> 0"
  shows "owned (release a t) = owned s" and "inv (release a t)"
  using alloc_fresh [OF assms] release_owned [of t a] assms(3) by auto

text \<open>Distinct frames do not overlap.\<close>

lemma frames_disjoint:
  assumes "a \<in> owned s" and "b \<in> owned s" and "a \<noteq> b"
  shows "{a..<a + PAGE_SIZE} \<inter> {b..<b + PAGE_SIZE} = {}"
  using dvd_apart [OF owned_aligned [OF assms(1)] owned_aligned [OF assms(2)] assms(3)] by auto

end

definition run_frames :: "nat \<Rightarrow> nat \<Rightarrow> nat set" where
  "run_frames a n = (\<lambda>i. a + i * PAGE_SIZE) ` {..<n}"

locale run_allocator = frame_allocator +
  fixes alloc_run :: "nat \<Rightarrow> 'a \<Rightarrow> nat \<times> 'a"
  assumes alloc_run_cases: "inv s \<Longrightarrow> alloc_run n s = (a, t) \<Longrightarrow>
      a = 0 \<and> t = s \<or> a \<noteq> 0 \<and> 0 < n \<and> run_frames a n \<inter> owned s = {} \<and>
        owned t = owned s \<union> run_frames a n \<and> inv t"
begin

lemma alloc_run_fresh:
  assumes "inv s" and "alloc_run n s = (a, t)" and "a \<noteq> 0"
  shows "run_frames a n \<inter> owned s = {}" "owned t = owned s \<union> run_frames a n" "inv t"
    "PAGE_SIZE dvd a" "a + n * PAGE_SIZE \<le> 2 ^ 64"
proof -
  show "run_frames a n \<inter> owned s = {}" and o: "owned t = owned s \<union> run_frames a n" and i: "inv t"
    using alloc_run_cases [OF assms(1,2)] assms(3) by auto
  have n: "0 < n"
    using alloc_run_cases [OF assms(1,2)] assms(3) by auto
  then have "a \<in> run_frames a n" and "a + (n - 1) * PAGE_SIZE \<in> run_frames a n"
    by (auto simp: run_frames_def intro: image_eqI [of _ _ 0] image_eqI [of _ _ "n - 1"])
  then have "PAGE_SIZE dvd a" and "a + (n - 1) * PAGE_SIZE + PAGE_SIZE \<le> 2 ^ 64"
    using owned_aligned [of a t] owned_below [OF i, of "a + (n - 1) * PAGE_SIZE"] by (auto simp: o)
  moreover have "a + (n - 1) * PAGE_SIZE + PAGE_SIZE = a + n * PAGE_SIZE"
    using n by (cases n) simp_all
  ultimately show "PAGE_SIZE dvd a" "a + n * PAGE_SIZE \<le> 2 ^ 64"
    by simp_all
qed

end

end
