(* ===== verification/Klist.thy ===== *)
theory Klist
  imports Contracts
begin

text \<open>
  The intrusive circular doubly linked list of \<^verbatim>\<open>kernel/include/kernel/list.h\<close>.

  The store \<open>links\<close> holds the \<open>prev\<close> and \<open>next\<close> field of every list node, indexed by the
  node's address (any type \<open>'n\<close>); list heads are nodes too. Every operation performs the
  pointer writes of the C function in the source's order, each reading the store the earlier
  writes left. The abstraction \<open>klist h l xs\<close> says that the ring through the head \<open>l\<close> holds
  exactly the nodes \<open>xs\<close>, in that order. The scheduler, the wait queues and the futex buckets
  are built on these operations.
\<close>

section \<open>The store and the operations\<close>

record 'n links =
  lprev :: "'n \<Rightarrow> 'n"
  lnext :: "'n \<Rightarrow> 'n"

definition set_prev :: "'n \<Rightarrow> 'n \<Rightarrow> 'n links \<Rightarrow> 'n links" where
  "set_prev n p h = h\<lparr>lprev := (lprev h)(n := p)\<rparr>"

definition set_next :: "'n \<Rightarrow> 'n \<Rightarrow> 'n links \<Rightarrow> 'n links" where
  "set_next n p h = h\<lparr>lnext := (lnext h)(n := p)\<rparr>"

definition list_init :: "'n \<Rightarrow> 'n links \<Rightarrow> 'n links" where
  "list_init l h = set_next l l (set_prev l l h)"

definition list_is_empty :: "'n \<Rightarrow> 'n links \<Rightarrow> bool" where
  "list_is_empty l h = (lnext h l = l)"

definition list_add_after :: "'n \<Rightarrow> 'n \<Rightarrow> 'n links \<Rightarrow> 'n links" where
  "list_add_after pos n h =
     (let h1 = set_prev n pos h;
          h2 = set_next n (lnext h1 pos) h1;
          h3 = set_prev (lnext h2 pos) n h2
      in set_next pos n h3)"

definition list_add_before :: "'n \<Rightarrow> 'n \<Rightarrow> 'n links \<Rightarrow> 'n links" where
  "list_add_before pos n h =
     (let h1 = set_next n pos h;
          h2 = set_prev n (lprev h1 pos) h1;
          h3 = set_next (lprev h2 pos) n h2
      in set_prev pos n h3)"

definition list_add_head :: "'n \<Rightarrow> 'n \<Rightarrow> 'n links \<Rightarrow> 'n links" where
  "list_add_head l n h = list_add_after l n h"

definition list_add_tail :: "'n \<Rightarrow> 'n \<Rightarrow> 'n links \<Rightarrow> 'n links" where
  "list_add_tail l n h = list_add_before l n h"

definition list_remove :: "'n \<Rightarrow> 'n links \<Rightarrow> 'n links" where
  "list_remove n h =
     (let h1 = set_next (lprev h n) (lnext h n) h;
          h2 = set_prev (lnext h1 n) (lprev h1 n) h1;
          h3 = set_prev n n h2
      in set_next n n h3)"

text \<open>
  The macro \<open>list_for_each_safe (pos, n, head)\<close> with a loop body that reports \<open>break\<close> in its
  first component. The successor is read before the body runs. The store is the part \<open>lk s\<close> of
  the loop's state. A ring that never comes back to the head is an endless loop in the kernel;
  here it exhausts the fuel and gives \<open>None\<close>.
\<close>

fun list_for_each_safe ::
  "nat \<Rightarrow> ('s \<Rightarrow> 'n links) \<Rightarrow> ('n \<Rightarrow> 's \<Rightarrow> bool \<times> 's) \<Rightarrow> 'n \<Rightarrow> 'n \<Rightarrow> 's \<Rightarrow> 's option" where
  "list_for_each_safe 0 lk body l pos s = None"
| "list_for_each_safe (Suc fuel) lk body l pos s =
     (if pos = l then Some s
      else (let n = lnext (lk s) pos
            in case body pos s of
                 (brk, s') \<Rightarrow> if brk then Some s' else list_for_each_safe fuel lk body l n s'))"

text \<open>The same loop over the nodes as a list.\<close>

fun each_until :: "('n \<Rightarrow> 's \<Rightarrow> bool \<times> 's) \<Rightarrow> 'n list \<Rightarrow> 's \<Rightarrow> 's" where
  "each_until body [] s = s"
| "each_until body (x # xs) s =
     (case body x s of (brk, s') \<Rightarrow> if brk then s' else each_until body xs s')"

section \<open>The abstraction\<close>

text \<open>\<open>seg h a xs b\<close>: from \<open>a\<close> through \<open>xs\<close> to \<open>b\<close>, linked in both directions.\<close>

fun seg :: "'n links \<Rightarrow> 'n \<Rightarrow> 'n list \<Rightarrow> 'n \<Rightarrow> bool" where
  "seg h a [] b \<longleftrightarrow> lnext h a = b \<and> lprev h b = a"
| "seg h a (x # xs) b \<longleftrightarrow> lnext h a = x \<and> lprev h x = a \<and> seg h x xs b"

definition klist :: "'n links \<Rightarrow> 'n \<Rightarrow> 'n list \<Rightarrow> bool" where
  "klist h l xs \<longleftrightarrow> distinct (l # xs) \<and> seg h l xs l"

text \<open>A node that is in no list: \<open>list_init\<close> and \<open>list_remove\<close> leave it linked to itself.\<close>

definition unlinked :: "'n links \<Rightarrow> 'n \<Rightarrow> bool" where
  "unlinked h n \<longleftrightarrow> lnext h n = n \<and> lprev h n = n"

lemma links_sel [simp]:
  "lprev (set_prev n p h) = (lprev h)(n := p)" "lnext (set_prev n p h) = lnext h"
  "lnext (set_next n p h) = (lnext h)(n := p)" "lprev (set_next n p h) = lprev h"
  by (simp_all add: set_prev_def set_next_def)

lemma seg_append: "seg h a (xs @ y # ys) b \<longleftrightarrow> seg h a xs y \<and> seg h y ys b"
  by (induction xs arbitrary: a) auto

lemma seg_cong:
  assumes "\<And>x. x \<in> set (a # xs) \<Longrightarrow> lnext h' x = lnext h x"
    and "\<And>x. x \<in> set (xs @ [b]) \<Longrightarrow> lprev h' x = lprev h x"
  shows "seg h' a xs b = seg h a xs b"
  using assms by (induction xs arbitrary: a) auto

lemma seg_first: "seg h a xs b \<Longrightarrow> lnext h a = hd (xs @ [b])"
  by (cases xs) auto

lemma seg_last: "seg h a xs b \<Longrightarrow> lprev h b = last (a # xs)"
  by (induction xs arbitrary: a) auto

lemma klistD:
  assumes "klist h l xs"
  shows "distinct xs" "l \<notin> set xs" "seg h l xs l"
  using assms by (simp_all add: klist_def)

lemma klist_frame:
  assumes "klist h l xs"
    and "\<And>x. x \<in> set (l # xs) \<Longrightarrow> lnext h' x = lnext h x \<and> lprev h' x = lprev h x"
  shows "klist h' l xs"
  using assms seg_cong [of l xs h' h l] by (auto simp: klist_def)

lemma klist_next_in: "klist h l xs \<Longrightarrow> x \<in> set (l # xs) \<Longrightarrow> lnext h x \<in> set (l # xs)"
proof -
  have "seg h a xs b \<Longrightarrow> x \<in> set (a # xs) \<Longrightarrow> lnext h x \<in> set (xs @ [b])" for a b
    by (induction xs arbitrary: a) auto
  then show "klist h l xs \<Longrightarrow> x \<in> set (l # xs) \<Longrightarrow> ?thesis"
    using klistD(3) by fastforce
qed

lemma klist_prev_in: "klist h l xs \<Longrightarrow> x \<in> set (l # xs) \<Longrightarrow> lprev h x \<in> set (l # xs)"
proof -
  have "seg h a xs b \<Longrightarrow> x \<in> set (xs @ [b]) \<Longrightarrow> lprev h x \<in> set (a # xs)" for a b
    by (induction xs arbitrary: a) auto
  then show "klist h l xs \<Longrightarrow> x \<in> set (l # xs) \<Longrightarrow> ?thesis"
    using klistD(3) by fastforce
qed

section \<open>The operations refine operations on lists\<close>

lemma klist_init: "klist (list_init l h) l []"
  by (simp add: klist_def list_init_def)

lemma klist_is_empty: "klist h l xs \<Longrightarrow> list_is_empty l h \<longleftrightarrow> xs = []"
  by (cases xs) (auto simp: klist_def list_is_empty_def)

lemma list_add_before_sel:
  assumes "n \<noteq> p" and "lprev h p \<noteq> n"
  shows "lnext (list_add_before p n h) = (lnext h)(n := p, lprev h p := n)"
    and "lprev (list_add_before p n h) = (lprev h)(n := lprev h p, p := n)"
  using assms by (auto simp: list_add_before_def Let_def)

lemma list_add_after_sel:
  assumes "n \<noteq> p" and "lnext h p \<noteq> n"
  shows "lprev (list_add_after p n h) = (lprev h)(n := p, lnext h p := n)"
    and "lnext (list_add_after p n h) = (lnext h)(n := lnext h p, p := n)"
  using assms by (auto simp: list_add_after_def Let_def)

lemma list_remove_sel:
  assumes "lprev h n \<noteq> n" and "lnext h n \<noteq> n"
  shows "lnext (list_remove n h) = (lnext h)(lprev h n := lnext h n, n := n)"
    and "lprev (list_remove n h) = (lprev h)(lnext h n := lprev h n, n := n)"
  using assms by (auto simp: list_remove_def Let_def)

lemma klist_add_tail:
  assumes k: "klist h l xs" and n: "n \<notin> set (l # xs)"
  shows "klist (list_add_tail l n h) l (xs @ [n])"
proof -
  have d: "distinct (l # xs)" and s: "seg h l xs l"
    using k by (simp_all add: klist_def)
  have q: "lprev h l = last (l # xs)"
    by (rule seg_last [OF s])
  have qn: "lprev h l \<noteq> n"
    using klist_prev_in [OF k, of l] n by auto
  note sel = list_add_before_sel [of n l h, OF _ qn]
  have "seg (list_add_before l n h) l (xs @ [n]) l"
  proof (cases xs rule: rev_cases)
    case Nil
    then show ?thesis
      using n q by (simp add: sel)
  next
    case (snoc zs z)
    have "seg (list_add_before l n h) l zs z = seg h l zs z"
      by (rule seg_cong) (use snoc n q d in \<open>auto simp: sel\<close>)
    then show ?thesis
      using snoc s n q by (simp add: sel seg_append)
  qed
  then show ?thesis
    using d n by (auto simp: klist_def list_add_tail_def)
qed

lemma klist_add_head:
  assumes k: "klist h l xs" and n: "n \<notin> set (l # xs)"
  shows "klist (list_add_head l n h) l (n # xs)"
proof -
  have d: "distinct (l # xs)" and s: "seg h l xs l"
    using k by (simp_all add: klist_def)
  have q: "lnext h l = hd (xs @ [l])"
    by (rule seg_first [OF s])
  have qn: "lnext h l \<noteq> n"
    using klist_next_in [OF k, of l] n by auto
  note sel = list_add_after_sel [of n l h, OF _ qn]
  have "seg (list_add_after l n h) l (n # xs) l"
  proof (cases xs)
    case Nil
    then show ?thesis
      using n q by (simp add: sel)
  next
    case (Cons z zs)
    have "seg (list_add_after l n h) z zs l = seg h z zs l"
      by (rule seg_cong) (use Cons n q d in \<open>auto simp: sel\<close>)
    then show ?thesis
      using Cons s n q by (simp add: sel)
  qed
  then show ?thesis
    using d n by (auto simp: klist_def list_add_head_def)
qed

lemma seg_remove:
  assumes s: "seg h a xs n" "seg h n ys b"
    and d: "distinct (a # xs @ n # ys)" "b \<notin> set (xs @ n # ys)"
  shows "seg (list_remove n h) a (xs @ ys) b"
proof -
  have p: "lprev h n = last (a # xs)" and q: "lnext h n = hd (ys @ [b])"
    using s by (simp_all add: seg_last seg_first)
  have "last (a # xs) \<noteq> n"
    using d by (cases xs rule: rev_cases) auto
  moreover have "hd (ys @ [b]) \<noteq> n"
    using d by (cases ys) auto
  ultimately have "lprev h n \<noteq> n" "lnext h n \<noteq> n"
    using p q by simp_all
  note sel = list_remove_sel [OF this] p q
  let ?h = "list_remove n h"
  have left: "seg ?h a zs z" if "xs = zs @ [z]" for zs z
  proof -
    have "seg ?h a zs z = seg h a zs z"
      by (rule seg_cong) (use that d in \<open>cases ys; auto simp: sel\<close>)+
    with that s(1) show ?thesis
      by (simp add: seg_append)
  qed
  have right: "seg ?h w ws b" if "ys = w # ws" for w ws
  proof -
    have "seg ?h w ws b = seg h w ws b"
      by (rule seg_cong) (use that d in \<open>cases xs rule: rev_cases; auto simp: sel\<close>)+
    with that s(2) show ?thesis
      by simp
  qed
  show ?thesis
    using left right d
    by (cases xs rule: rev_cases; cases ys) (auto simp: sel seg_append)
qed

lemma klist_remove:
  assumes "klist h l (xs @ n # ys)"
  shows "klist (list_remove n h) l (xs @ ys)" and "unlinked (list_remove n h) n"
proof -
  show "klist (list_remove n h) l (xs @ ys)"
    using assms seg_remove [of h l xs n ys l] by (auto simp: klist_def seg_append)
  show "unlinked (list_remove n h) n"
    by (simp add: unlinked_def list_remove_def Let_def)
qed

lemma klist_remove1:
  assumes "klist h l xs" and "n \<in> set xs"
  shows "klist (list_remove n h) l (remove1 n xs)"
proof -
  obtain as bs where xs: "xs = as @ n # bs"
    using assms(2) by (auto dest: split_list)
  moreover have "n \<notin> set as"
    using klistD(1) [OF assms(1)] xs by auto
  ultimately show ?thesis
    using klist_remove(1) [of h l as n bs] assms(1) by (simp add: remove1_append)
qed

lemma list_remove_unlinked: "unlinked h n \<Longrightarrow> list_remove n h = h"
  by (simp add: unlinked_def list_remove_def set_prev_def set_next_def Let_def fun_upd_idem)

section \<open>Frames: the other lists\<close>

lemma list_add_tail_frame:
  assumes "klist h l xs" and "x \<notin> set (l # xs)" and "x \<noteq> n" and "n \<notin> set (l # xs)"
  shows "lnext (list_add_tail l n h) x = lnext h x" "lprev (list_add_tail l n h) x = lprev h x"
proof -
  have "lprev h l \<in> set (l # xs)"
    using klist_prev_in [OF assms(1), of l] by simp
  with assms have "lprev h l \<noteq> n" "lprev h l \<noteq> x" "n \<noteq> l" "x \<noteq> l"
    by auto
  then show "lnext (list_add_tail l n h) x = lnext h x" "lprev (list_add_tail l n h) x = lprev h x"
    using assms(3) by (simp_all add: list_add_tail_def list_add_before_sel)
qed

lemma list_remove_frame:
  assumes "klist h l xs" and "n \<in> set xs" and "x \<notin> set (l # xs)"
  shows "lnext (list_remove n h) x = lnext h x" "lprev (list_remove n h) x = lprev h x"
proof -
  have "lprev h n \<in> set (l # xs)" "lnext h n \<in> set (l # xs)"
    using klist_prev_in [OF assms(1), of n] klist_next_in [OF assms(1), of n] assms(2) by simp_all
  with assms show "lnext (list_remove n h) x = lnext h x" "lprev (list_remove n h) x = lprev h x"
    by (auto simp: list_remove_def Let_def)
qed

lemma klist_add_tail_other:
  assumes "klist h l xs" and "n \<notin> set (l # xs)"
    and "klist h m ys" and "set (m # ys) \<inter> set (n # l # xs) = {}"
  shows "klist (list_add_tail l n h) m ys"
proof (rule klist_frame [OF assms(3)])
  fix x
  assume "x \<in> set (m # ys)"
  with assms(4) have "x \<notin> set (l # xs)" "x \<noteq> n"
    by auto
  then show "lnext (list_add_tail l n h) x = lnext h x \<and> lprev (list_add_tail l n h) x = lprev h x"
    using list_add_tail_frame [OF assms(1) _ _ assms(2), of x] by blast
qed

lemma klist_remove_other:
  assumes "klist h l xs" and "n \<in> set xs"
    and "klist h m ys" and "set (m # ys) \<inter> set (l # xs) = {}"
  shows "klist (list_remove n h) m ys"
proof (rule klist_frame [OF assms(3)])
  fix x
  assume "x \<in> set (m # ys)"
  with assms(4) have "x \<notin> set (l # xs)"
    by auto
  then show "lnext (list_remove n h) x = lnext h x \<and> lprev (list_remove n h) x = lprev h x"
    using list_remove_frame [OF assms(1,2), of x] by blast
qed

section \<open>Traversal\<close>

text \<open>
  The safe traversal of a ring visits the nodes in order, whatever the body does to the node it
  is at, as long as the rest of the ring stays linked. \<open>P ys s\<close> is the loop invariant with \<open>ys\<close>
  the nodes still ahead. It returns as soon as the fuel exceeds the number of nodes.
\<close>

lemma list_for_each_safe_eq:
  assumes "P xs s" and "length xs < fuel" and "l \<notin> set xs"
    and step: "\<And>x ys s. P (x # ys) s \<Longrightarrow>
      lnext (lk s) x = hd (ys @ [l]) \<and> (\<not> fst (body x s) \<longrightarrow> P ys (snd (body x s)))"
  shows "list_for_each_safe fuel lk body l (hd (xs @ [l])) s = Some (each_until body xs s)"
  using assms(1-3)
proof (induction xs arbitrary: s fuel)
  case Nil
  then show ?case
    by (cases fuel) auto
next
  case (Cons x xs)
  obtain f where f: "fuel = Suc f"
    using Cons.prems(2) by (cases fuel) auto
  show ?case
    using step [OF Cons.prems(1)] Cons f by (cases "body x s") auto
qed

text \<open>The rule for such a loop: an invariant over the nodes ahead and what holds at the end.\<close>

lemma list_for_each_safe_inv:
  assumes "P xs s" and "length xs < fuel" and "l \<notin> set xs"
    and step: "\<And>x ys s. P (x # ys) s \<Longrightarrow> lnext (lk s) x = hd (ys @ [l]) \<and>
      (if fst (body x s) then Q (snd (body x s)) else P ys (snd (body x s)))"
    and last: "\<And>s. P [] s \<Longrightarrow> Q s"
  shows "\<exists>s'. list_for_each_safe fuel lk body l (hd (xs @ [l])) s = Some s' \<and> Q s'"
  using assms(1-3)
proof (induction xs arbitrary: s fuel)
  case Nil
  then show ?case
    using last by (cases fuel) auto
next
  case (Cons x xs)
  obtain f where f: "fuel = Suc f"
    using Cons.prems(2) by (cases fuel) auto
  show ?case
    using step [OF Cons.prems(1)] Cons f by (cases "body x s") (auto split: if_splits)
qed

text \<open>More fuel does not change a result.\<close>

lemma list_for_each_safe_mono:
  "list_for_each_safe fuel lk body l pos s = Some r \<Longrightarrow> fuel \<le> fuel' \<Longrightarrow>
   list_for_each_safe fuel' lk body l pos s = Some r"
proof (induction fuel arbitrary: fuel' pos s)
  case 0
  then show ?case
    by simp
next
  case (Suc f)
  then obtain f' where "fuel' = Suc f'" "f \<le> f'"
    by (cases fuel') auto
  with Suc show ?case
    by (auto simp: Let_def split: if_splits prod.splits)
qed

lemma klist_lnext: "klist h l (xs @ x # ys) \<Longrightarrow> lnext h x = hd (ys @ [l])"
  by (auto simp: klist_def seg_append dest: seg_first)

section \<open>A store of several rings\<close>

text \<open>
  \<open>rings h D q\<close>: the nodes \<open>D\<close> are list heads, the ring of the head \<open>l\<close> holds \<open>q l\<close>, no node is in
  two rings or is a head as well, and every other node is linked to itself.
\<close>

definition rings :: "'n links \<Rightarrow> 'n set \<Rightarrow> ('n \<Rightarrow> 'n list) \<Rightarrow> bool" where
  "rings h D q \<longleftrightarrow> (\<forall>l \<in> D. klist h l (q l) \<and> set (q l) \<inter> D = {}) \<and>
     (\<forall>l \<in> D. \<forall>m \<in> D. l \<noteq> m \<longrightarrow> set (q l) \<inter> set (q m) = {}) \<and>
     (\<forall>n. n \<notin> D \<and> (\<forall>l \<in> D. n \<notin> set (q l)) \<longrightarrow> unlinked h n)"

definition queued :: "'n set \<Rightarrow> ('n \<Rightarrow> 'n list) \<Rightarrow> 'n \<Rightarrow> bool" where
  "queued D q n \<longleftrightarrow> (\<exists>l \<in> D. n \<in> set (q l))"

lemma ringsD:
  assumes "rings h D q" and "l \<in> D"
  shows "klist h l (q l)" "set (q l) \<inter> D = {}" "m \<in> D \<Longrightarrow> m \<noteq> l \<Longrightarrow> set (q m) \<inter> set (q l) = {}"
    "distinct (q l)" "lnext h l = hd (q l @ [l])"
proof -
  show k: "klist h l (q l)" and "set (q l) \<inter> D = {}" "m \<in> D \<Longrightarrow> m \<noteq> l \<Longrightarrow> set (q m) \<inter> set (q l) = {}"
    using assms by (auto simp: rings_def)
  show "distinct (q l)" "lnext h l = hd (q l @ [l])"
    using klistD [OF k] by (auto dest: seg_first)
qed

lemma rings_unlinked: "rings h D q \<Longrightarrow> n \<notin> D \<Longrightarrow> \<not> queued D q n \<Longrightarrow> unlinked h n"
  by (auto simp: rings_def queued_def)

lemma ringsI:
  assumes "\<And>l. l \<in> D \<Longrightarrow> klist h l (q l) \<and> set (q l) \<inter> D = {}"
    and "\<And>l m. l \<in> D \<Longrightarrow> m \<in> D \<Longrightarrow> l \<noteq> m \<Longrightarrow> set (q l) \<inter> set (q m) = {}"
    and "\<And>n. n \<notin> D \<Longrightarrow> \<not> queued D q n \<Longrightarrow> unlinked h n"
  shows "rings h D q"
  using assms by (simp add: rings_def queued_def)

lemma queued_add: "l \<in> D \<Longrightarrow> queued D (q(l := q l @ [n])) x \<longleftrightarrow> x = n \<or> queued D q x"
  by (auto simp: queued_def)

lemma rings_add_tail:
  assumes r: "rings h D q" and l: "l \<in> D" and n: "n \<notin> D" "\<not> queued D q n"
  shows "rings (list_add_tail l n h) D (q(l := q l @ [n]))"
proof (rule ringsI)
  let ?h = "list_add_tail l n h"
  note k = ringsD [OF r]
  have nl: "n \<notin> set (l # q l)"
    using n l by (auto simp: queued_def)
  have other: "klist ?h m (q m)" if "m \<in> D" "m \<noteq> l" for m
    by (rule klist_add_tail_other [OF k(1) [OF l] nl k(1) [OF that(1)]])
      (use that n l k(2) [OF that(1)] k(2,3) [OF l] in \<open>auto simp: queued_def\<close>)
  have "klist ?h l (q l @ [n])"
    by (rule klist_add_tail [OF k(1) [OF l] nl])
  with other show "klist ?h m ((q(l := q l @ [n])) m) \<and> set ((q(l := q l @ [n])) m) \<inter> D = {}" if "m \<in> D" for m
    using k(2) [OF that] n that by (cases "m = l") auto
  show "set ((q(l := q l @ [n])) a) \<inter> set ((q(l := q l @ [n])) b) = {}" if "a \<in> D" "b \<in> D" "a \<noteq> b" for a b
    using k(3) [OF that(1,2)] that n by (auto simp: queued_def)
  show "unlinked ?h x" if "x \<notin> D" "\<not> queued D (q(l := q l @ [n])) x" for x
  proof -
    have x: "x \<noteq> n" "\<not> queued D q x"
      using that(2) unfolding queued_add [OF l] by auto
    then have "x \<notin> set (l # q l)"
      using that(1) l by (auto simp: queued_def)
    then show ?thesis
      using rings_unlinked [OF r that(1) x(2)] list_add_tail_frame [OF k(1) [OF l] _ x(1) nl]
      by (simp add: unlinked_def)
  qed
qed

lemma rings_remove:
  assumes r: "rings h D q" and l: "l \<in> D" and n: "n \<in> set (q l)"
  shows "rings (list_remove n h) D (q(l := remove1 n (q l)))"
proof (rule ringsI)
  let ?h = "list_remove n h" and ?q = "q(l := remove1 n (q l))"
  note k = ringsD [OF r]
  have s: "set (remove1 n (q l)) = set (q l) - {n}"
    using k(4) [OF l] by simp
  have sub: "set (?q m) \<subseteq> set (q m)" for m
    by (simp add: s)
  have other: "klist ?h m (q m)" if "m \<in> D" "m \<noteq> l" for m
    by (rule klist_remove_other [OF k(1) [OF l] n k(1) [OF that(1)]])
      (use that n l k(2) [OF that(1)] k(2,3) [OF l] in auto)
  have "klist ?h l (remove1 n (q l))"
    by (rule klist_remove1 [OF k(1) [OF l] n])
  with other have "klist ?h m (?q m)" if "m \<in> D" for m
    using that by simp
  then show "klist ?h m (?q m) \<and> set (?q m) \<inter> D = {}" if "m \<in> D" for m
    using k(2) [OF that] sub [of m] that by blast
  show "set (?q a) \<inter> set (?q b) = {}" if "a \<in> D" "b \<in> D" "a \<noteq> b" for a b
    using k(3) [OF that(1,2)] that(3) sub [of a] sub [of b] by blast
  show "unlinked ?h x" if "x \<notin> D" "\<not> queued D ?q x" for x
  proof (cases "x = n")
    case True
    then show ?thesis
      by (simp add: unlinked_def list_remove_def Let_def)
  next
    case False
    then have x: "\<not> queued D q x" "x \<notin> set (l # q l)"
      using that l by (auto simp: queued_def s split: if_splits)
    then show ?thesis
      using rings_unlinked [OF r that(1) x(1)] list_remove_frame [OF k(1) [OF l] n x(2)]
      by (simp add: unlinked_def)
  qed
qed

lemma rings_remove_unlinked: "rings h D q \<Longrightarrow> n \<notin> D \<Longrightarrow> \<not> queued D q n \<Longrightarrow> list_remove n h = h"
  by (simp add: rings_unlinked list_remove_unlinked)

lemma rings_init: "rings \<lparr>lprev = id, lnext = id\<rparr> D (\<lambda>_. [])"
  by (simp add: rings_def klist_def unlinked_def)

section \<open>The queue contract\<close>

interpretation klq: linked_queue "\<lambda>h xs. klist h l xs" "\<lambda>n. n \<noteq> l" "list_add_tail l" list_remove for l
proof
  fix h xs
  assume "klist h l xs"
  then show "distinct xs"
    by (rule klistD)
next
  fix h xs n
  assume "klist h l xs" and "n \<noteq> l" and "n \<notin> set xs"
  then show "klist (list_add_tail l n h) l (xs @ [n])"
    by (simp add: klist_add_tail)
next
  fix h xs n
  assume "klist h l xs" and "n \<in> set xs"
  then show "klist (list_remove n h) l (remove1 n xs)"
    by (rule klist_remove1)
qed

section \<open>Properties\<close>

text \<open>
  C27: the pointer operations of \<^verbatim>\<open>list.h\<close> implement the operations on sequences: on a ring
  that holds \<open>xs\<close>, adding a new node at either end, removing a member and the emptiness test do
  exactly that, and a removed node is linked to itself.
\<close>

theorem list_ops_refine:
  assumes "klist h l xs"
  shows "(list_is_empty l h \<longleftrightarrow> xs = []) \<and>
    (n \<notin> set (l # xs) \<longrightarrow> klist (list_add_tail l n h) l (xs @ [n]) \<and> klist (list_add_head l n h) l (n # xs)) \<and>
    (n \<in> set xs \<longrightarrow> klist (list_remove n h) l (remove1 n xs) \<and> unlinked (list_remove n h) n)"
  using klist_is_empty [OF assms] klist_add_tail [OF assms] klist_add_head [OF assms]
    klist_remove1 [OF assms] by (auto simp: unlinked_def list_remove_def Let_def)

theorem list_ops_refine_witness:
  "klist (list_add_tail 0 (7::nat) (list_init 0 \<lparr>lprev = id, lnext = id\<rparr>)) 0 [7] \<and>
   klist (list_remove 7 (list_add_tail 0 (7::nat) (list_init 0 \<lparr>lprev = id, lnext = id\<rparr>))) 0 []"
proof -
  let ?h = "list_init (0::nat) \<lparr>lprev = id, lnext = id\<rparr>"
  have a: "klist ?h 0 []"
    by (rule klist_init)
  have b: "klist (list_add_tail 0 7 ?h) 0 [7]"
    using list_ops_refine [OF a, of 7] by simp
  show ?thesis
    using b list_ops_refine [OF b, of 7] by simp
qed

text \<open>
  lists do not interfere. An operation on one ring leaves every ring it shares no node with
  as it was.
\<close>

theorem list_ops_isolate:
  assumes "klist h l xs" and "klist h m ys" and "set (m # ys) \<inter> set (n # l # xs) = {}"
  shows "(n \<notin> set (l # xs) \<longrightarrow> klist (list_add_tail l n h) m ys) \<and> (n \<in> set xs \<longrightarrow> klist (list_remove n h) m ys)"
  using assms klist_add_tail_other [OF assms(1) _ assms(2), of n]
    klist_remove_other [OF assms(1) _ assms(2), of n] by auto

theorem list_ops_isolate_witness:
  "klist (list_add_tail (0::nat) 2 (list_init 1 (list_init 0 \<lparr>lprev = id, lnext = id\<rparr>))) 1 []"
proof -
  let ?h = "list_init 1 (list_init (0::nat) \<lparr>lprev = id, lnext = id\<rparr>)"
  have "klist ?h 0 []" "klist ?h 1 []"
    by (simp_all add: klist_def list_init_def)
  from list_ops_isolate [OF this, of 2] show ?thesis
    by simp
qed

end
