(* ===== verification/Pmm.thy ===== *)
theory Pmm
  imports Contracts
begin

text \<open>
  The physical page allocator of \<^verbatim>\<open>kernel/src/mm/pmm.c\<close>: one bit per 4 KiB page, set when
  the page is in use.

  The record holds the file's static variables. \<open>g_pmm_bitmap\<close> is the memory the bitmap pointer
  points to, byte by byte, without an end: the C code indexes it without a bounds check, and
  \<open>pmm_init\<close> fills only its first \<open>bitmap_size\<close> bytes. The spin lock serialises the operations,
  so each is one atomic step; \<open>klog\<close> output is left out; \<open>panic\<close> is the \<open>Inl\<close> of a sum.
\<close>

section \<open>State and bitmap\<close>

record limine_memmap_entry =
  mm_base :: nat
  mm_length :: nat
  mm_type :: nat

record pmm =
  g_pmm_bitmap :: "nat \<Rightarrow> u8"
  g_total_pages :: nat
  g_used_pages :: nat
  g_last_page_idx :: nat
  g_hhdm_offset :: nat

definition LIMINE_MEMMAP_USABLE :: nat where
  "LIMINE_MEMMAP_USABLE = 0"

definition LIMINE_MEMMAP_BOOTLOADER_RECLAIMABLE :: nat where
  "LIMINE_MEMMAP_BOOTLOADER_RECLAIMABLE = 5"

definition bitmap_set :: "nat \<Rightarrow> pmm \<Rightarrow> pmm" where
  "bitmap_set n s = s\<lparr>g_pmm_bitmap := (g_pmm_bitmap s)
     (n div 8 := g_pmm_bitmap s (n div 8) OR push_bit (n mod 8) 1)\<rparr>"

definition bitmap_clear :: "nat \<Rightarrow> pmm \<Rightarrow> pmm" where
  "bitmap_clear n s = s\<lparr>g_pmm_bitmap := (g_pmm_bitmap s)
     (n div 8 := g_pmm_bitmap s (n div 8) AND NOT (push_bit (n mod 8) 1))\<rparr>"

definition bitmap_test :: "nat \<Rightarrow> pmm \<Rightarrow> bool" where
  "bitmap_test n s = (g_pmm_bitmap s (n div 8) AND push_bit (n mod 8) 1 \<noteq> 0)"

text \<open>The two guarded updates the file repeats: take a page that is free, free one in use.\<close>

definition mark_used :: "nat \<Rightarrow> pmm \<Rightarrow> pmm" where
  "mark_used p s = (if \<not> bitmap_test p s
     then (bitmap_set p s)\<lparr>g_used_pages := add64 (g_used_pages s) 1\<rparr> else s)"

definition mark_free :: "nat \<Rightarrow> pmm \<Rightarrow> pmm" where
  "mark_free p s = (if bitmap_test p s
     then (bitmap_clear p s)\<lparr>g_used_pages := sub64 (g_used_pages s) 1\<rparr> else s)"

section \<open>Initialisation\<close>

fun max_usable_addr :: "limine_memmap_entry list \<Rightarrow> nat \<Rightarrow> nat" where
  "max_usable_addr [] max_addr = max_addr"
| "max_usable_addr (e # es) max_addr =
     (if mm_type e = LIMINE_MEMMAP_USABLE \<or> mm_type e = LIMINE_MEMMAP_BOOTLOADER_RECLAIMABLE
      then (let top = add64 (mm_base e) (mm_length e)
            in max_usable_addr es (if top > max_addr then top else max_addr))
      else max_usable_addr es max_addr)"

text \<open>One pass of the search for the bitmap's place; \<open>lowlim\<close> says that it skips the low 1 MiB.\<close>

fun find_region :: "nat \<Rightarrow> bool \<Rightarrow> nat \<Rightarrow> limine_memmap_entry list \<Rightarrow> nat option" where
  "find_region ty lowlim bitmap_size [] = None"
| "find_region ty lowlim bitmap_size (e # es) =
     (let start = ALIGN_UP (mm_base e) PAGE_SIZE;
          end = add64 (mm_base e) (mm_length e);
          start = (if lowlim \<and> start < 0x100000 then 0x100000 else start)
      in if mm_type e = ty \<and> end > start \<and> end - start \<ge> bitmap_size
         then Some start else find_region ty lowlim bitmap_size es)"

definition find_bitmap_phys :: "nat \<Rightarrow> limine_memmap_entry list \<Rightarrow> nat option" where
  "find_bitmap_phys bitmap_size es =
     (case find_region LIMINE_MEMMAP_USABLE True bitmap_size es of
        Some a \<Rightarrow> Some a
      | None \<Rightarrow> (case find_region LIMINE_MEMMAP_USABLE False bitmap_size es of
          Some a \<Rightarrow> Some a
        | None \<Rightarrow> find_region LIMINE_MEMMAP_BOOTLOADER_RECLAIMABLE True bitmap_size es))"

text \<open>The loop that frees the pages of one usable region.\<close>

definition free_region :: "limine_memmap_entry \<Rightarrow> pmm \<Rightarrow> pmm" where
  "free_region e s =
     (if mm_type e = LIMINE_MEMMAP_USABLE then
        let start = ALIGN_UP (mm_base e) PAGE_SIZE;
            end = ALIGN_DOWN (add64 (mm_base e) (mm_length e)) PAGE_SIZE
        in if end > start
           then fold mark_free [start div PAGE_SIZE..<min (end div PAGE_SIZE) (g_total_pages s)] s
           else s
      else s)"

definition reserve_bitmap :: "nat \<Rightarrow> nat \<Rightarrow> pmm \<Rightarrow> pmm" where
  "reserve_bitmap bitmap_phys bitmap_size s =
     fold (\<lambda>p s. let page_idx = bitmap_phys div PAGE_SIZE + p
                 in if page_idx < g_total_pages s then mark_used page_idx s else s)
       [0..<bitmap_size div PAGE_SIZE] s"

definition reserve_low :: "pmm \<Rightarrow> pmm" where
  "reserve_low s = fold mark_used [0..<min (0x100000 div PAGE_SIZE) (g_total_pages s)] s"

text \<open>
  \<open>memmap\<close> is the bootloader's response, \<open>None\<close> for a null pointer, and \<open>ram\<close> the contents of
  physical memory at boot. \<open>g_last_page_idx\<close> keeps its static initial value.
\<close>

definition pmm_init ::
  "limine_memmap_entry list option \<Rightarrow> nat \<Rightarrow> (nat \<Rightarrow> u8) \<Rightarrow> string + pmm" where
  "pmm_init memmap hhdm_offset ram =
     (case memmap of
        None \<Rightarrow> Inl ''PMM: Invalid or empty memory map provided by bootloader!''
      | Some es \<Rightarrow>
          if es = [] then Inl ''PMM: Invalid or empty memory map provided by bootloader!''
          else let max_addr = max_usable_addr es 0 in
          if max_addr = 0 then Inl ''PMM: No usable memory regions found!''
          else
            let total_pages = max_addr div PAGE_SIZE;
                bitmap_size = ALIGN_UP (total_pages div 8) PAGE_SIZE
            in case find_bitmap_phys bitmap_size es of
                 None \<Rightarrow> Inl ''PMM: Could not find contiguous physical memory for allocation bitmap''
               | Some bitmap_phys \<Rightarrow>
                   let s0 = \<lparr>g_pmm_bitmap = (\<lambda>k. if k < bitmap_size then 0xFF
                                                 else ram (bitmap_phys + k)),
                             g_total_pages = total_pages, g_used_pages = total_pages,
                             g_last_page_idx = 0, g_hhdm_offset = hhdm_offset\<rparr>;
                       s1 = fold free_region es s0;
                       s2 = reserve_bitmap bitmap_phys bitmap_size s1
                   in Inr (reserve_low s2))"

section \<open>Allocation and release\<close>

text \<open>The scan of \<open>pmm_alloc_page\<close> over the loop counter \<open>i\<close>.\<close>

fun alloc_page_scan :: "nat list \<Rightarrow> pmm \<Rightarrow> nat \<times> pmm" where
  "alloc_page_scan [] s = (0, s)"
| "alloc_page_scan (i # is) s =
     (let idx = add64 (g_last_page_idx s) i mod g_total_pages s
      in if \<not> bitmap_test idx s
         then (mul64 idx PAGE_SIZE,
               (bitmap_set idx s)\<lparr>g_used_pages := add64 (g_used_pages s) 1,
                                  g_last_page_idx := add64 idx 1\<rparr>)
         else alloc_page_scan is s)"

definition pmm_alloc_page :: "pmm \<Rightarrow> nat \<times> pmm" where
  "pmm_alloc_page s = alloc_page_scan [0..<g_total_pages s] s"

text \<open>The scan of \<open>pmm_alloc_pages\<close>, with its variables \<open>consecutive\<close> and \<open>start_idx\<close>.\<close>

fun alloc_pages_scan :: "nat \<Rightarrow> nat list \<Rightarrow> nat \<Rightarrow> nat \<Rightarrow> pmm \<Rightarrow> nat \<times> pmm" where
  "alloc_pages_scan count [] consecutive start_idx s = (0, s)"
| "alloc_pages_scan count (i # is) consecutive start_idx s =
     (if \<not> bitmap_test i s then
        let start_idx = (if consecutive = 0 then i else start_idx);
            consecutive = consecutive + 1
        in if consecutive = count
           then (mul64 start_idx PAGE_SIZE,
                 (fold (\<lambda>p. bitmap_set (start_idx + p)) [0..<count] s)
                   \<lparr>g_used_pages := add64 (g_used_pages s) count\<rparr>)
           else alloc_pages_scan count is consecutive start_idx s
      else alloc_pages_scan count is 0 start_idx s)"

definition pmm_alloc_pages :: "nat \<Rightarrow> pmm \<Rightarrow> nat \<times> pmm" where
  "pmm_alloc_pages count s =
     (if count = 0 then (0, s)
      else if count = 1 then pmm_alloc_page s
      else alloc_pages_scan count [0..<g_total_pages s] 0 0 s)"

definition pmm_free_page :: "nat \<Rightarrow> pmm \<Rightarrow> pmm" where
  "pmm_free_page phys_addr s =
     (let page_idx = phys_addr div PAGE_SIZE
      in if page_idx \<ge> g_total_pages s then s else mark_free page_idx s)"

definition pmm_free_pages :: "nat \<Rightarrow> nat \<Rightarrow> pmm \<Rightarrow> pmm" where
  "pmm_free_pages phys_addr count s =
     fold (\<lambda>i. pmm_free_page (add64 phys_addr (mul64 i PAGE_SIZE))) [0..<count] s"

definition pmm_get_total_memory :: "pmm \<Rightarrow> nat" where
  "pmm_get_total_memory s = mul64 (g_total_pages s) PAGE_SIZE"

definition pmm_get_free_memory :: "pmm \<Rightarrow> nat" where
  "pmm_get_free_memory s = mul64 (sub64 (g_total_pages s) (g_used_pages s)) PAGE_SIZE"

definition pmm_get_used_memory :: "pmm \<Rightarrow> nat" where
  "pmm_get_used_memory s = mul64 (g_used_pages s) PAGE_SIZE"

section \<open>What the bitmap operations do\<close>

lemma bitmap_test_iff: "bitmap_test n s \<longleftrightarrow> bit (g_pmm_bitmap s (n div 8)) (n mod 8)"
  by (simp add: bitmap_test_def push_bit_eq_mult and_exp_eq_0_iff_not_bit)

lemma div_mod_8_eq: "p div 8 = q div 8 \<Longrightarrow> p mod 8 = q mod 8 \<Longrightarrow> p = (q::nat)"
  by (metis div_mult_mod_eq)

lemma bitmap_test_set [simp]: "bitmap_test q (bitmap_set p s) \<longleftrightarrow> q = p \<or> bitmap_test q s"
  using div_mod_8_eq [of q p]
  by (auto simp: bitmap_test_iff bitmap_set_def bit_or_iff bit_exp_iff possible_bit_word)

lemma bitmap_test_clear [simp]: "bitmap_test q (bitmap_clear p s) \<longleftrightarrow> q \<noteq> p \<and> bitmap_test q s"
  using div_mod_8_eq [of q p]
  by (auto simp: bitmap_test_iff bitmap_clear_def bit_and_iff bit_not_iff bit_exp_iff possible_bit_word)

lemma bitmap_sel [simp]:
  "g_total_pages (bitmap_set p s) = g_total_pages s" "g_used_pages (bitmap_set p s) = g_used_pages s"
  "g_last_page_idx (bitmap_set p s) = g_last_page_idx s"
  "g_hhdm_offset (bitmap_set p s) = g_hhdm_offset s"
  "g_total_pages (bitmap_clear p s) = g_total_pages s" "g_used_pages (bitmap_clear p s) = g_used_pages s"
  "g_last_page_idx (bitmap_clear p s) = g_last_page_idx s"
  "g_hhdm_offset (bitmap_clear p s) = g_hhdm_offset s"
  by (simp_all add: bitmap_set_def bitmap_clear_def)

lemma bitmap_test_upd [simp]:
  "bitmap_test q (s\<lparr>g_used_pages := u\<rparr>) = bitmap_test q s"
  "bitmap_test q (s\<lparr>g_last_page_idx := l\<rparr>) = bitmap_test q s"
  by (simp_all add: bitmap_test_def)

lemma mark_sel [simp]:
  "g_total_pages (mark_used p s) = g_total_pages s" "g_total_pages (mark_free p s) = g_total_pages s"
  "g_last_page_idx (mark_used p s) = g_last_page_idx s"
  "g_last_page_idx (mark_free p s) = g_last_page_idx s"
  by (simp_all add: mark_used_def mark_free_def)

lemma bitmap_test_mark [simp]:
  "bitmap_test q (mark_used p s) \<longleftrightarrow> q = p \<or> bitmap_test q s"
  "bitmap_test q (mark_free p s) \<longleftrightarrow> q \<noteq> p \<and> bitmap_test q s"
  by (auto simp: mark_used_def mark_free_def)

section \<open>The counter invariant\<close>

text \<open>
  \<open>g_used_pages\<close> is the number of pages below \<open>g_total_pages\<close> whose bit is set, and physical
  memory has at most \<open>2 ^ 52\<close> pages, so no counter wraps.
\<close>

definition used_set :: "pmm \<Rightarrow> nat set" where
  "used_set s = {p. p < g_total_pages s \<and> bitmap_test p s}"

definition pmm_count_ok :: "pmm \<Rightarrow> bool" where
  "pmm_count_ok s \<longleftrightarrow> g_used_pages s = card (used_set s) \<and> g_total_pages s \<le> 2 ^ 52"

lemma finite_used_set [simp]: "finite (used_set s)"
  by (rule finite_subset [of _ "{..<g_total_pages s}"]) (auto simp: used_set_def)

lemma card_used_set: "card (used_set s) \<le> g_total_pages s"
proof -
  have "card (used_set s) \<le> card {..<g_total_pages s}"
    by (rule card_mono) (auto simp: used_set_def)
  then show ?thesis
    by simp
qed

lemma used_set_mark_used: "p < g_total_pages s \<Longrightarrow> used_set (mark_used p s) = insert p (used_set s)"
  by (auto simp: used_set_def)

lemma used_set_mark_free: "used_set (mark_free p s) = used_set s - {p}"
  by (auto simp: used_set_def)

lemma pmm_count_ok_mark_used:
  assumes "pmm_count_ok s" and "p < g_total_pages s"
  shows "pmm_count_ok (mark_used p s)"
proof (cases "bitmap_test p s")
  case True
  with assms show ?thesis
    by (simp add: mark_used_def)
next
  case False
  then have "p \<notin> used_set s"
    by (simp add: used_set_def)
  with False assms card_used_set [of s] show ?thesis
    by (simp add: pmm_count_ok_def used_set_mark_used add64_eq)
      (simp add: mark_used_def add64_eq)
qed

lemma pmm_count_ok_mark_free:
  assumes "pmm_count_ok s" and "p < g_total_pages s"
  shows "pmm_count_ok (mark_free p s)"
proof (cases "bitmap_test p s")
  case False
  with assms show ?thesis
    by (simp add: mark_free_def)
next
  case True
  with assms(2) have p: "p \<in> used_set s"
    by (simp add: used_set_def)
  then have "1 \<le> card (used_set s)"
    using card_gt_0_iff [of "used_set s"] by fastforce
  with True p assms card_used_set [of s] show ?thesis
    by (simp add: pmm_count_ok_def used_set_mark_free)
      (simp add: mark_free_def sub64_eq)
qed

section \<open>Allocating one page\<close>

text \<open>
  The allocator's invariant: the counter is right, the scan position is in range, and page 0 is
  in use, so that the address 0 can stand for failure.
\<close>

definition pmm_inv :: "pmm \<Rightarrow> bool" where
  "pmm_inv s \<longleftrightarrow> pmm_count_ok s \<and> g_last_page_idx s \<le> g_total_pages s \<and>
     (0 < g_total_pages s \<longrightarrow> bitmap_test 0 s)"

lemma pmm_invD:
  assumes "pmm_inv s"
  shows "pmm_count_ok s" "g_last_page_idx s \<le> g_total_pages s" "g_total_pages s \<le> 2 ^ 52"
    "p < g_total_pages s \<Longrightarrow> \<not> bitmap_test p s \<Longrightarrow> p \<noteq> 0"
  using assms by (auto simp: pmm_inv_def pmm_count_ok_def) (metis neq0_conv)

text \<open>The address of a page, and the allocator's view of memory: the addresses in use.\<close>

definition frames :: "pmm \<Rightarrow> nat set" where
  "frames s = (\<lambda>p. p * PAGE_SIZE) ` used_set s"

lemma page_addr_div [simp]: "p * PAGE_SIZE div PAGE_SIZE = p"
  by (simp add: PAGE_SIZE_def)

lemma page_addr_eq [simp]: "p * PAGE_SIZE = q * PAGE_SIZE \<longleftrightarrow> p = q"
  by (simp add: PAGE_SIZE_def)

lemma mul64_page: "p < 2 ^ 52 \<Longrightarrow> mul64 p PAGE_SIZE = p * PAGE_SIZE"
  by (simp add: mul64_def PAGE_SIZE_def)

definition take_page :: "nat \<Rightarrow> pmm \<Rightarrow> pmm" where
  "take_page p s = (mark_used p s)\<lparr>g_last_page_idx := add64 p 1\<rparr>"

lemma alloc_page_scan_cases:
  obtains
    (none) "\<forall>i \<in> set is. bitmap_test (add64 (g_last_page_idx s) i mod g_total_pages s) s"
      "alloc_page_scan is s = (0, s)"
  | (some) i p where "i \<in> set is" "p = add64 (g_last_page_idx s) i mod g_total_pages s"
      "\<not> bitmap_test p s" "alloc_page_scan is s = (mul64 p PAGE_SIZE, take_page p s)"
proof (induction "is" arbitrary: thesis)
  case Nil
  then show ?case by simp
next
  case (Cons i "is")
  let ?p = "add64 (g_last_page_idx s) i mod g_total_pages s"
  show ?case
  proof (cases "bitmap_test ?p s")
    case True
    then have eq: "alloc_page_scan (i # is) s = alloc_page_scan is s"
      by simp
    show ?thesis
      by (rule Cons.IH) (use Cons.prems True eq in auto)
  next
    case False
    then show ?thesis
      using Cons.prems(2) [of i ?p] by (simp add: take_page_def mark_used_def Let_def)
  qed
qed

lemma rotation_onto:
  assumes "p < (n::nat)" and "l \<le> n"
  shows "\<exists>i<n. (l + i) mod n = p"
proof (cases "l \<le> p")
  case True
  with assms show ?thesis
    by (intro exI [of _ "p - l"]) auto
next
  case False
  with assms have "(l + (n + p - l)) mod n = p" and "n + p - l < n"
    by auto
  then show ?thesis
    by blast
qed

lemma pmm_alloc_page_cases:
  assumes inv: "pmm_inv s"
  obtains
    (full) "used_set s = {..<g_total_pages s}" "pmm_alloc_page s = (0, s)"
  | (page) p where "p < g_total_pages s" "p \<notin> used_set s" "p \<noteq> 0"
      "pmm_alloc_page s = (p * PAGE_SIZE, take_page p s)"
proof (cases rule: alloc_page_scan_cases [of "[0..<g_total_pages s]" s])
  case none
  have "bitmap_test p s" if p: "p < g_total_pages s" for p
  proof -
    obtain i where i: "i < g_total_pages s" "(g_last_page_idx s + i) mod g_total_pages s = p"
      using rotation_onto [OF p pmm_invD(2) [OF inv]] by blast
    then have "g_last_page_idx s + i < 2 ^ 64"
      using pmm_invD(2,3) [OF inv] by simp
    then have "add64 (g_last_page_idx s) i mod g_total_pages s = p"
      using i(2) by (simp add: add64_eq)
    with i(1) none(1) show ?thesis
      by force
  qed
  then have "used_set s = {..<g_total_pages s}"
    by (auto simp: used_set_def)
  with none show thesis
    by (intro full) (auto simp: pmm_alloc_page_def)
next
  case (some i p)
  then have p: "p < g_total_pages s"
    by (auto simp: atLeast0LessThan intro: mod_less_divisor)
  moreover have "p \<notin> used_set s"
    using some(3) by (simp add: used_set_def)
  moreover have "mul64 p PAGE_SIZE = p * PAGE_SIZE"
    using p pmm_invD(3) [OF inv] by (simp add: mul64_page)
  ultimately show thesis
    using some pmm_invD(4) [OF inv p] by (intro page [of p]) (simp_all add: pmm_alloc_page_def)
qed

lemma take_page_sel [simp]:
  "g_total_pages (take_page p s) = g_total_pages s"
  "bitmap_test q (take_page p s) \<longleftrightarrow> q = p \<or> bitmap_test q s"
  by (simp_all add: take_page_def)

lemma used_set_take_page: "p < g_total_pages s \<Longrightarrow> used_set (take_page p s) = insert p (used_set s)"
  by (auto simp: used_set_def)

lemma pmm_inv_take_page:
  assumes "pmm_inv s" and "p < g_total_pages s"
  shows "pmm_inv (take_page p s)"
proof -
  have ok: "pmm_count_ok (mark_used p s)"
    using assms by (simp add: pmm_invD pmm_count_ok_mark_used)
  have "pmm_count_ok (take_page p s)"
    using ok by (simp add: take_page_def pmm_count_ok_def used_set_def)
  moreover have "add64 p 1 \<le> g_total_pages s"
    using assms pmm_invD(3) [OF assms(1)] by (simp add: add64_eq)
  ultimately show ?thesis
    using assms by (auto simp: pmm_inv_def take_page_def)
qed

section \<open>Releasing pages\<close>

lemma pmm_inv_mark_free:
  assumes "pmm_inv s" and "p < g_total_pages s" and "p \<noteq> 0"
  shows "pmm_inv (mark_free p s)"
  using assms pmm_count_ok_mark_free [of s p] by (simp add: pmm_inv_def)

lemma pmm_free_page_addr:
  "p < g_total_pages s \<Longrightarrow> pmm_free_page (p * PAGE_SIZE) s = mark_free p s"
  by (simp add: pmm_free_page_def)

lemma frames_iff: "a \<in> frames s \<longleftrightarrow> PAGE_SIZE dvd a \<and> a div PAGE_SIZE \<in> used_set s"
  by (auto simp: frames_def dvd_def image_iff mult.commute)

lemma frames_take_page:
  "p < g_total_pages s \<Longrightarrow> frames (take_page p s) = insert (p * PAGE_SIZE) (frames s)"
  by (simp add: frames_def used_set_take_page)

lemma frames_mark_free: "frames (mark_free p s) = frames s - {p * PAGE_SIZE}"
  by (auto simp: frames_def used_set_mark_free PAGE_SIZE_def)

section \<open>Allocating a contiguous run\<close>

definition free_run :: "pmm \<Rightarrow> nat \<Rightarrow> nat \<Rightarrow> bool" where
  "free_run s q count \<longleftrightarrow> (\<forall>p \<in> {q..<q + count}. \<not> bitmap_test p s)"

definition take_run :: "nat \<Rightarrow> nat \<Rightarrow> pmm \<Rightarrow> pmm" where
  "take_run q count s = (fold (\<lambda>p. bitmap_set (q + p)) [0..<count] s)
     \<lparr>g_used_pages := add64 (g_used_pages s) count\<rparr>"

text \<open>
  Before the scan looks at page \<open>k\<close>, the last \<open>c\<close> pages are free, and every run that starts
  before them holds a page in use.
\<close>

lemma alloc_pages_scan_cases:
  assumes "c < count" and "c \<le> k" and "0 < c \<Longrightarrow> st = k - c" and "\<forall>p \<in> {k - c..<k}. \<not> bitmap_test p s"
    and "\<forall>q < k - c. \<not> free_run s q count" and "k \<le> n"
  shows "alloc_pages_scan count [k..<n] c st s = (0, s) \<and> (\<forall>q. q + count \<le> n \<longrightarrow> \<not> free_run s q count)
    \<or> (\<exists>q. q + count \<le> n \<and> free_run s q count \<and> (\<forall>r < q. \<not> free_run s r count) \<and>
         alloc_pages_scan count [k..<n] c st s = (mul64 q PAGE_SIZE, take_run q count s))"
  using assms
proof (induction "n - k" arbitrary: k c st)
  case 0
  then have "\<not> free_run s q count" if "q + count \<le> n" for q
    using that by auto
  with 0 show ?case
    by simp
next
  case (Suc m)
  then have upt: "[k..<n] = k # [Suc k..<n]" and m: "m = n - Suc k" and k: "Suc k \<le> n"
    by (auto simp: upt_conv_Cons)
  show ?case
  proof (cases "bitmap_test k s")
    case True
    have "\<not> free_run s q count" if "q < Suc k" for q
    proof (cases "q < k - c")
      case False
      then have "k \<in> {q..<q + count}"
        using that Suc.prems(1,2) by auto
      with True show ?thesis
        by (auto simp: free_run_def)
    qed (use Suc.prems(5) in auto)
    then show ?thesis
      using Suc.hyps(1) [OF m, of 0 st] Suc.prems True k by (simp add: upt)
  next
    case free: False
    let ?st = "if c = 0 then k else st"
    have st: "?st = Suc k - Suc c"
      using Suc.prems(2,3) by auto
    have run: "\<forall>p \<in> {Suc k - Suc c..<Suc k}. \<not> bitmap_test p s"
      using Suc.prems(4) free by (auto simp: less_Suc_eq)
    show ?thesis
    proof (cases "Suc c = count")
      case True
      then have "free_run s ?st count" and "?st + count \<le> n"
        using run st Suc.prems(2) k by (auto simp: free_run_def)
      moreover have "\<forall>r < ?st. \<not> free_run s r count"
        using Suc.prems(5) st by simp
      moreover have "alloc_pages_scan count [k..<n] c st s = (mul64 ?st PAGE_SIZE, take_run ?st count s)"
        using free True by (simp add: upt take_run_def Let_def)
      ultimately show ?thesis
        by blast
    next
      case False
      have "alloc_pages_scan count [k..<n] c st s = alloc_pages_scan count [Suc k..<n] (Suc c) ?st s"
        using free False by (simp add: upt Let_def)
      then show ?thesis
        using Suc.hyps(1) [OF m, of "Suc c" ?st] Suc.prems st run False k by simp
    qed
  qed
qed

lemma take_run_test [simp]: "bitmap_test p (take_run q count s) \<longleftrightarrow> p \<in> {q..<q + count} \<or> bitmap_test p s"
proof -
  have "bitmap_test p (fold (\<lambda>i. bitmap_set (q + i)) [0..<count] s) \<longleftrightarrow>
      p \<in> {q..<q + count} \<or> bitmap_test p s"
    by (induction count) auto
  then show ?thesis
    by (simp add: take_run_def)
qed

lemma take_run_sel [simp]:
  "g_total_pages (take_run q count s) = g_total_pages s"
  "g_last_page_idx (take_run q count s) = g_last_page_idx s"
proof -
  have "g_total_pages (fold (\<lambda>i. bitmap_set (q + i)) xs s) = g_total_pages s"
    "g_last_page_idx (fold (\<lambda>i. bitmap_set (q + i)) xs s) = g_last_page_idx s" for xs
    by (induction xs arbitrary: s) simp_all
  then show "g_total_pages (take_run q count s) = g_total_pages s"
    "g_last_page_idx (take_run q count s) = g_last_page_idx s"
    by (simp_all add: take_run_def)
qed

lemma used_set_take_run:
  "q + count \<le> g_total_pages s \<Longrightarrow> used_set (take_run q count s) = used_set s \<union> {q..<q + count}"
  by (auto simp: used_set_def)

lemma pmm_inv_take_run:
  assumes "pmm_inv s" and "q + count \<le> g_total_pages s" and "free_run s q count"
  shows "pmm_inv (take_run q count s)"
proof -
  have disj: "used_set s \<inter> {q..<q + count} = {}"
    using assms(3) by (auto simp: used_set_def free_run_def)
  then have card: "card (used_set (take_run q count s)) = card (used_set s) + count"
    using assms(2) by (simp add: used_set_take_run card_Un_disjoint)
  have "card (used_set (take_run q count s)) \<le> g_total_pages s"
    using card_used_set [of "take_run q count s"] by simp
  then have "add64 (g_used_pages s) count = card (used_set s) + count"
    using assms(1) card by (simp add: pmm_inv_def pmm_count_ok_def add64_eq)
  then have "g_used_pages (take_run q count s) = card (used_set (take_run q count s))"
    using card by (simp add: take_run_def)
  with assms show ?thesis
    by (auto simp: pmm_inv_def pmm_count_ok_def)
qed

lemma pmm_alloc_pages_cases:
  assumes inv: "pmm_inv s" and count: "2 \<le> count"
  obtains
    (full) "\<forall>q. q + count \<le> g_total_pages s \<longrightarrow> \<not> free_run s q count" "pmm_alloc_pages count s = (0, s)"
  | (run) q where "q + count \<le> g_total_pages s" "free_run s q count" "q \<noteq> 0"
      "\<forall>r < q. \<not> free_run s r count" "pmm_alloc_pages count s = (q * PAGE_SIZE, take_run q count s)"
proof -
  have eq: "pmm_alloc_pages count s = alloc_pages_scan count [0..<g_total_pages s] 0 0 s"
    using count by (simp add: pmm_alloc_pages_def)
  from alloc_pages_scan_cases [of 0 count 0 0 s "g_total_pages s"] count consider
    (a) "alloc_pages_scan count [0..<g_total_pages s] 0 0 s = (0, s)"
      "\<forall>q. q + count \<le> g_total_pages s \<longrightarrow> \<not> free_run s q count"
  | (b) q where "q + count \<le> g_total_pages s" "free_run s q count" "\<forall>r < q. \<not> free_run s r count"
      "alloc_pages_scan count [0..<g_total_pages s] 0 0 s = (mul64 q PAGE_SIZE, take_run q count s)"
    by auto
  then show thesis
  proof cases
    case a
    then show thesis
      using eq by (intro full) auto
  next
    case (b q)
    have "\<not> bitmap_test q s"
      using b(2) count by (simp add: free_run_def)
    then have "q \<noteq> 0"
      using pmm_invD(4) [OF inv, of q] b(1) count by auto
    moreover have "mul64 q PAGE_SIZE = q * PAGE_SIZE"
      using b(1) count pmm_invD(3) [OF inv] by (simp add: mul64_page)
    ultimately show thesis
      using b eq by (intro run [of q]) simp_all
  qed
qed

section \<open>The contract of the allocator\<close>

lemma frames_take_run:
  assumes "q + count \<le> g_total_pages s"
  shows "frames (take_run q count s) = frames s \<union> run_frames (q * PAGE_SIZE) count"
proof -
  have "{q..<q + count} = (\<lambda>i. q + i) ` {..<count}"
    by (auto simp: image_iff le_iff_add)
  then show ?thesis
    by (simp add: frames_def used_set_take_run [OF assms] image_Un run_frames_def image_image
        add_mult_distrib)
qed

lemma frames_free_run:
  assumes "free_run s q count"
  shows "run_frames (q * PAGE_SIZE) count \<inter> frames s = {}"
  using assms by (auto simp: run_frames_def frames_def free_run_def used_set_def
      simp flip: add_mult_distrib)

lemma frames_below:
  assumes "pmm_inv s" and "a \<in> frames s"
  shows "a + PAGE_SIZE \<le> 2 ^ 64"
proof -
  obtain p where "a = p * PAGE_SIZE" "p < g_total_pages s"
    using assms(2) by (auto simp: frames_def used_set_def)
  moreover note pmm_invD(3) [OF assms(1)]
  ultimately show ?thesis
    by (simp add: PAGE_SIZE_def)
qed

lemma pmm_alloc_page_contract:
  assumes "pmm_inv s" and "pmm_alloc_page s = (a, t)"
  shows "a = 0 \<and> t = s \<or> a \<noteq> 0 \<and> a \<notin> frames s \<and> frames t = insert a (frames s) \<and> pmm_inv t"
proof (cases rule: pmm_alloc_page_cases [OF assms(1), case_names full page])
  case full
  with assms(2) show ?thesis
    by simp
next
  case (page p)
  with assms(2) have "a = p * PAGE_SIZE" and "t = take_page p s"
    by simp_all
  moreover have "a \<notin> frames s" and "a \<noteq> 0"
    using page \<open>a = p * PAGE_SIZE\<close> by (auto simp: frames_def PAGE_SIZE_def)
  ultimately show ?thesis
    using page assms(1) by (simp add: frames_take_page pmm_inv_take_page)
qed

lemma pmm_free_page_contract:
  assumes "pmm_inv s" and "a \<in> frames s" and "a \<noteq> 0"
  shows "pmm_inv (pmm_free_page a s) \<and> frames (pmm_free_page a s) = frames s - {a}"
proof -
  obtain p where p: "a = p * PAGE_SIZE" "p \<in> used_set s"
    using assms(2) by (auto simp: frames_def)
  then have "p < g_total_pages s" "p \<noteq> 0"
    using assms(3) by (auto simp: used_set_def)
  with p assms(1) show ?thesis
    by (simp add: pmm_free_page_addr frames_mark_free pmm_inv_mark_free)
qed

interpretation pf: frame_allocator pmm_inv frames pmm_alloc_page pmm_free_page
proof
  fix s a t
  assume "pmm_inv s" and "pmm_alloc_page s = (a, t)"
  then show "a = 0 \<and> t = s \<or> a \<noteq> 0 \<and> a \<notin> frames s \<and> frames t = insert a (frames s) \<and> pmm_inv t"
    by (rule pmm_alloc_page_contract)
next
  fix s a
  assume "a \<in> frames s"
  then show "PAGE_SIZE dvd a"
    by (simp add: frames_iff)
next
  fix s a
  assume "pmm_inv s" and "a \<in> frames s"
  then show "a + PAGE_SIZE \<le> 2 ^ 64"
    by (rule frames_below)
next
  fix s a
  assume "pmm_inv s" and "a \<in> frames s" and "a \<noteq> 0"
  then show "pmm_inv (pmm_free_page a s) \<and> frames (pmm_free_page a s) = frames s - {a}"
    by (rule pmm_free_page_contract)
qed

lemma pmm_alloc_pages_contract:
  assumes "pmm_inv s" and "pmm_alloc_pages n s = (a, t)"
  shows "a = 0 \<and> t = s \<or> a \<noteq> 0 \<and> 0 < n \<and> run_frames a n \<inter> frames s = {} \<and>
    frames t = frames s \<union> run_frames a n \<and> pmm_inv t"
proof -
  consider "n = 0" | "n = 1" | "2 \<le> n"
    by linarith
  then show ?thesis
  proof cases
    case 1
    with assms(2) show ?thesis
      by (simp add: pmm_alloc_pages_def)
  next
    case 2
    then have "pmm_alloc_page s = (a, t)" and "run_frames a n = {a}"
      using assms(2) by (simp_all add: pmm_alloc_pages_def run_frames_def lessThan_Suc)
    with 2 pmm_alloc_page_contract [OF assms(1), of a t] show ?thesis
      by auto
  next
    case 3
    show ?thesis
    proof (cases rule: pmm_alloc_pages_cases [OF assms(1) 3, case_names full run])
      case full
      with assms(2) show ?thesis
        by simp
    next
      case (run q)
      with assms(2) have "a = q * PAGE_SIZE" "t = take_run q n s" "a \<noteq> 0"
        by (simp_all add: PAGE_SIZE_def)
      with run 3 assms(1) show ?thesis
        by (simp add: frames_take_run frames_free_run pmm_inv_take_run)
    qed
  qed
qed

interpretation pr: run_allocator pmm_inv frames pmm_alloc_page pmm_free_page pmm_alloc_pages
  by unfold_locales (rule pmm_alloc_pages_contract)

lemma pmm_alloc_page_total: "pmm_inv s \<Longrightarrow> g_total_pages (snd (pmm_alloc_page s)) = g_total_pages s"
  by (erule pmm_alloc_page_cases) (simp_all add: take_page_def)

lemma pmm_alloc_pages_total:
  assumes "pmm_inv s"
  shows "g_total_pages (snd (pmm_alloc_pages n s)) = g_total_pages s"
proof -
  consider "n = 0" | "n = 1" | "2 \<le> n"
    by linarith
  then show ?thesis
  proof cases
    case 3
    show ?thesis
      by (rule pmm_alloc_pages_cases [OF assms 3]) simp_all
  qed (simp_all add: pmm_alloc_pages_def pmm_alloc_page_total [OF assms])
qed

section \<open>Initialisation establishes the invariant\<close>

text \<open>A page that lies inside a usable region of the memory map.\<close>

definition usable_page :: "limine_memmap_entry list \<Rightarrow> nat \<Rightarrow> bool" where
  "usable_page es p \<longleftrightarrow> (\<exists>e \<in> set es. mm_type e = LIMINE_MEMMAP_USABLE \<and>
     ALIGN_UP (mm_base e) PAGE_SIZE \<le> p * PAGE_SIZE \<and>
     (p + 1) * PAGE_SIZE \<le> add64 (mm_base e) (mm_length e))"

definition init_ok :: "limine_memmap_entry list \<Rightarrow> nat \<Rightarrow> pmm \<Rightarrow> bool" where
  "init_ok es n s \<longleftrightarrow> pmm_count_ok s \<and> g_total_pages s = n \<and> g_last_page_idx s = 0 \<and>
     (\<forall>p < n. \<not> bitmap_test p s \<longrightarrow> usable_page es p)"

lemma init_ok_mark_used: "init_ok es n s \<Longrightarrow> p < n \<Longrightarrow> init_ok es n (mark_used p s)"
  by (simp add: init_ok_def pmm_count_ok_mark_used)

lemma init_ok_mark_free:
  "init_ok es n s \<Longrightarrow> p < n \<Longrightarrow> usable_page es p \<Longrightarrow> init_ok es n (mark_free p s)"
  by (auto simp: init_ok_def pmm_count_ok_mark_free)

lemma region_page_usable:
  assumes "e \<in> set es" and "mm_type e = LIMINE_MEMMAP_USABLE"
    and "ALIGN_UP (mm_base e) PAGE_SIZE div PAGE_SIZE \<le> p"
    and "p < ALIGN_DOWN (add64 (mm_base e) (mm_length e)) PAGE_SIZE div PAGE_SIZE"
  shows "usable_page es p"
proof -
  let ?start = "ALIGN_UP (mm_base e) PAGE_SIZE" and ?top = "add64 (mm_base e) (mm_length e)"
  have "?start = ?start div PAGE_SIZE * PAGE_SIZE"
    using ALIGN_UP_dvd [of PAGE_SIZE "mm_base e"] by simp
  also have "\<dots> \<le> p * PAGE_SIZE"
    using assms(3) by (rule mult_le_mono1)
  finally have lo: "?start \<le> p * PAGE_SIZE" .
  have "(p + 1) * PAGE_SIZE \<le> ALIGN_DOWN ?top PAGE_SIZE div PAGE_SIZE * PAGE_SIZE"
    using assms(4) by (intro mult_le_mono1) simp
  also have "\<dots> \<le> ALIGN_DOWN ?top PAGE_SIZE"
    by simp
  also have "\<dots> \<le> ?top"
    by (rule ALIGN_DOWN_le)
  finally show ?thesis
    using assms(1,2) lo by (auto simp: usable_page_def)
qed

lemma init_ok_free_region:
  assumes "init_ok es n s" and "e \<in> set es"
  shows "init_ok es n (free_region e s)"
proof -
  let ?a = "ALIGN_UP (mm_base e) PAGE_SIZE div PAGE_SIZE"
  let ?b = "ALIGN_DOWN (add64 (mm_base e) (mm_length e)) PAGE_SIZE div PAGE_SIZE"
  have "init_ok es n (fold mark_free [?a..<min ?b (g_total_pages s)] s)"
    if "mm_type e = LIMINE_MEMMAP_USABLE"
  proof (rule fold_invariant [where Q = "\<lambda>p. ?a \<le> p \<and> p < ?b \<and> p < n"])
    show "init_ok es n s"
      by fact
  qed (use assms that in \<open>auto simp: init_ok_def [of _ _ s] intro!: init_ok_mark_free region_page_usable\<close>)
  with assms show ?thesis
    by (auto simp: free_region_def Let_def)
qed

lemma fold_mark_used_test: "bitmap_test q (fold mark_used ps s) \<longleftrightarrow> q \<in> set ps \<or> bitmap_test q s"
  by (induction ps arbitrary: s) auto

text \<open>The bits of all pages fit into the bytes that \<open>pmm_init\<close> sets aside for them.\<close>

definition bitmap_covers :: "nat \<Rightarrow> bool" where
  "bitmap_covers n \<longleftrightarrow> n \<le> 8 * ALIGN_UP (n div 8) PAGE_SIZE"

lemma max_usable_addr_less: "m < 2 ^ 64 \<Longrightarrow> max_usable_addr es m < 2 ^ 64"
  by (induction es m rule: max_usable_addr.induct) (auto simp: Let_def add64_def)

lemma pages_of_addr: "a < 2 ^ 64 \<Longrightarrow> a div PAGE_SIZE \<le> 2 ^ 52"
  by (simp add: PAGE_SIZE_def)

lemma init_ok_start:
  assumes "bitmap_covers n" and "n \<le> 2 ^ 52"
  shows "init_ok es n \<lparr>g_pmm_bitmap = (\<lambda>k. if k < ALIGN_UP (n div 8) PAGE_SIZE then 0xFF else ram (b + k)),
    g_total_pages = n, g_used_pages = n, g_last_page_idx = 0, g_hhdm_offset = hh\<rparr>"
    (is "init_ok es n ?s")
proof -
  have "bitmap_test p ?s" if "p < n" for p
  proof -
    have "p div 8 < ALIGN_UP (n div 8) PAGE_SIZE"
      using that assms(1) by (simp add: bitmap_covers_def)
    moreover have "bit (0xFF :: u8) (p mod 8)"
    proof -
      have "(0xFF :: u8) = mask 8"
        by (simp add: mask_eq_decr_exp)
      then show ?thesis
        by (simp only: bit_mask_iff) simp
    qed
    ultimately show ?thesis
      by (simp add: bitmap_test_iff)
  qed
  then have "used_set ?s = {..<n}"
    by (auto simp: used_set_def)
  with assms(2) show ?thesis
    by (auto simp: init_ok_def pmm_count_ok_def used_set_def)
qed

lemma init_ok_reserve_bitmap: "init_ok es n s \<Longrightarrow> init_ok es n (reserve_bitmap b z s)"
  unfolding reserve_bitmap_def
  by (rule fold_invariant [where Q = "\<lambda>_. True"]) (auto simp: Let_def init_ok_def pmm_count_ok_mark_used)

lemma init_ok_reserve_low:
  assumes "init_ok es n s"
  shows "init_ok es n (reserve_low s)" and "\<And>p. p < n \<Longrightarrow> p < 0x100 \<Longrightarrow> bitmap_test p (reserve_low s)"
proof -
  have n: "g_total_pages s = n"
    using assms by (simp add: init_ok_def)
  show "init_ok es n (reserve_low s)"
    unfolding reserve_low_def
    by (rule fold_invariant [where Q = "\<lambda>p. p < n"]) (use assms n in \<open>auto simp: init_ok_mark_used\<close>)
  show "\<And>p. p < n \<Longrightarrow> p < 0x100 \<Longrightarrow> bitmap_test p (reserve_low s)"
    by (simp add: reserve_low_def fold_mark_used_test n PAGE_SIZE_def)
qed

lemma pmm_init_ok:
  assumes "pmm_init (Some es) hhdm_offset ram = Inr s"
    and "bitmap_covers (max_usable_addr es 0 div PAGE_SIZE)"
  shows "init_ok es (max_usable_addr es 0 div PAGE_SIZE) s"
    and "\<And>p. p < g_total_pages s \<Longrightarrow> p < 0x100 \<Longrightarrow> bitmap_test p s"
proof -
  let ?n = "max_usable_addr es 0 div PAGE_SIZE"
  have n: "?n \<le> 2 ^ 52"
    by (rule pages_of_addr) (simp add: max_usable_addr_less [of 0 es, simplified])
  obtain b where s: "s = reserve_low (reserve_bitmap b (ALIGN_UP (?n div 8) PAGE_SIZE) (fold free_region es
      \<lparr>g_pmm_bitmap = (\<lambda>k. if k < ALIGN_UP (?n div 8) PAGE_SIZE then 0xFF else ram (b + k)),
       g_total_pages = ?n, g_used_pages = ?n, g_last_page_idx = 0, g_hhdm_offset = hhdm_offset\<rparr>))"
    using assms(1) by (auto simp: pmm_init_def Let_def split: if_splits option.splits)
  let ?s0 = "\<lparr>g_pmm_bitmap = (\<lambda>k. if k < ALIGN_UP (?n div 8) PAGE_SIZE then 0xFF else ram (b + k)),
       g_total_pages = ?n, g_used_pages = ?n, g_last_page_idx = 0, g_hhdm_offset = hhdm_offset\<rparr>"
  have "init_ok es ?n (fold free_region es ?s0)"
    by (rule fold_invariant [where Q = "\<lambda>e. e \<in> set es"])
      (use init_ok_start [OF assms(2) n] in \<open>auto simp: init_ok_free_region\<close>)
  then have ok: "init_ok es ?n (reserve_bitmap b (ALIGN_UP (?n div 8) PAGE_SIZE) (fold free_region es ?s0))"
    by (rule init_ok_reserve_bitmap)
  show r: "init_ok es ?n s"
    unfolding s by (rule init_ok_reserve_low(1) [OF ok])
  show "\<And>p. p < g_total_pages s \<Longrightarrow> p < 0x100 \<Longrightarrow> bitmap_test p s"
    using init_ok_reserve_low(2) [OF ok] r unfolding s by (simp add: init_ok_def)
qed

section \<open>Properties\<close>

lemma used_set_code: "used_set s = set (filter (\<lambda>p. bitmap_test p s) [0..<g_total_pages s])"
  by (auto simp: used_set_def)

text \<open>A small machine for the witnesses: four pages, of which 0, 1 and 3 are in use.\<close>

definition four_pages :: pmm where
  "four_pages = \<lparr>g_pmm_bitmap = (\<lambda>_. 0x0B), g_total_pages = 4, g_used_pages = 3,
     g_last_page_idx = 3, g_hhdm_offset = 0\<rparr>"

lemma four_pages_inv: "pmm_inv four_pages"
  by (simp add: pmm_inv_def pmm_count_ok_def used_set_code bitmap_test_def four_pages_def upt_rec)

text \<open>
  C15: \<open>pmm_alloc_page\<close> fails exactly when every page is in use, and then changes nothing.
  Otherwise it returns the page-aligned address of a page that was free; that page and no other
  becomes used, the counter grows by one, and the invariant is kept.
\<close>

theorem pmm_alloc_page_correct:
  assumes "pmm_inv s" and "pmm_alloc_page s = (a, t)"
  shows "pmm_inv t \<and> (a = 0 \<longleftrightarrow> (\<forall>p < g_total_pages s. bitmap_test p s)) \<and> (a = 0 \<longrightarrow> t = s) \<and>
    (a \<noteq> 0 \<longrightarrow> (\<exists>p. a = p * PAGE_SIZE \<and> p < g_total_pages s \<and> \<not> bitmap_test p s \<and>
       (\<forall>q. bitmap_test q t \<longleftrightarrow> q = p \<or> bitmap_test q s) \<and>
       g_used_pages t = g_used_pages s + 1 \<and> g_total_pages t = g_total_pages s))"
proof (cases rule: pmm_alloc_page_cases [OF assms(1), case_names full page])
  case full
  with assms show ?thesis
    by (auto simp: used_set_def)
next
  case (page p)
  have t: "t = take_page p s" and a: "a = p * PAGE_SIZE"
    using page(4) assms(2) by simp_all
  have inv: "pmm_inv t"
    unfolding t by (rule pmm_inv_take_page [OF assms(1) page(1)])
  have "g_used_pages t = card (used_set t)" "g_used_pages s = card (used_set s)"
    using assms(1) inv by (simp_all add: pmm_inv_def pmm_count_ok_def)
  then have "g_used_pages t = g_used_pages s + 1"
    using page(1,2) by (simp add: t used_set_take_page)
  with inv page show ?thesis
    by (auto simp: t a used_set_def)
qed

theorem pmm_alloc_page_correct_witness:
  "pmm_alloc_page four_pages = (8192, take_page 2 four_pages) \<and> \<not> bitmap_test 2 four_pages \<and>
   g_used_pages (take_page 2 four_pages) = 4 \<and> pmm_inv (take_page 2 four_pages)"
proof -
  have e: "pmm_alloc_page four_pages = (8192, take_page 2 four_pages)"
    by (simp add: pmm_alloc_page_def four_pages_def take_page_def mark_used_def upt_rec
        bitmap_test_def add64_def mul64_def PAGE_SIZE_def)
  show ?thesis
    using pmm_alloc_page_correct [OF four_pages_inv e] e
    by (simp add: PAGE_SIZE_def) (simp add: four_pages_def)
qed

text \<open>
  C16: for two pages or more, \<open>pmm_alloc_pages\<close> is first fit: it returns the lowest run of
  \<open>count\<close> free pages and marks exactly that run, and returns 0, changing nothing, exactly when
  there is no such run.
\<close>

theorem pmm_alloc_pages_first_fit:
  assumes "pmm_inv s" and "2 \<le> count" and "pmm_alloc_pages count s = (a, t)"
  shows "pmm_inv t \<and>
    (a = 0 \<longleftrightarrow> (\<forall>q. q + count \<le> g_total_pages s \<longrightarrow> \<not> free_run s q count)) \<and> (a = 0 \<longrightarrow> t = s) \<and>
    (a \<noteq> 0 \<longrightarrow> (\<exists>q. a = q * PAGE_SIZE \<and> q + count \<le> g_total_pages s \<and> free_run s q count \<and>
       (\<forall>r < q. \<not> free_run s r count) \<and>
       (\<forall>p. bitmap_test p t \<longleftrightarrow> p \<in> {q..<q + count} \<or> bitmap_test p s) \<and>
       g_used_pages t = g_used_pages s + count))"
proof (cases rule: pmm_alloc_pages_cases [OF assms(1,2), case_names full run])
  case full
  with assms show ?thesis
    by simp
next
  case (run q)
  have t: "t = take_run q count s" and a: "a = q * PAGE_SIZE"
    using run(5) assms(3) by simp_all
  have inv: "pmm_inv t"
    unfolding t by (rule pmm_inv_take_run [OF assms(1) run(1,2)])
  have "used_set s \<inter> {q..<q + count} = {}"
    using run(2) by (auto simp: used_set_def free_run_def)
  then have "card (used_set t) = card (used_set s) + count"
    using run(1) by (simp add: t used_set_take_run card_Un_disjoint)
  then have "g_used_pages t = g_used_pages s + count"
    using assms(1) inv by (simp add: pmm_inv_def pmm_count_ok_def)
  with inv run show ?thesis
    by (auto simp: t a)
qed

theorem pmm_alloc_pages_first_fit_witness:
  "fst (pmm_alloc_pages 2 (mark_free 3 four_pages)) = 8192 \<and>
   pmm_inv (snd (pmm_alloc_pages 2 (mark_free 3 four_pages)))"
proof -
  have inv: "pmm_inv (mark_free 3 four_pages)"
    by (rule pmm_inv_mark_free [OF four_pages_inv]) (simp_all add: four_pages_def)
  have e: "fst (pmm_alloc_pages 2 (mark_free 3 four_pages)) = 8192"
    by (simp add: pmm_alloc_pages_def four_pages_def mark_free_def bitmap_clear_def upt_rec
        bitmap_test_def mul64_def PAGE_SIZE_def)
  obtain t where t: "pmm_alloc_pages 2 (mark_free 3 four_pages) = (8192, t)"
    using e by (cases "pmm_alloc_pages 2 (mark_free 3 four_pages)") simp
  show ?thesis
    using pmm_alloc_pages_first_fit [OF inv order_refl t] t by simp
qed

text \<open>
  C21: \<open>pmm_free_page\<close> frees the page that holds the address and no other; the counter drops
  exactly when the page was in use, so a second free of the same page changes nothing; an address
  beyond the end of memory is ignored.
\<close>

theorem pmm_free_page_correct:
  assumes "pmm_inv s" and "PAGE_SIZE \<le> a"
  shows "pmm_inv (pmm_free_page a s) \<and>
    (\<forall>q < g_total_pages s. bitmap_test q (pmm_free_page a s) \<longleftrightarrow> q \<noteq> a div PAGE_SIZE \<and> bitmap_test q s) \<and>
    g_used_pages (pmm_free_page a s) =
      (if a div PAGE_SIZE < g_total_pages s \<and> bitmap_test (a div PAGE_SIZE) s
       then g_used_pages s - 1 else g_used_pages s) \<and>
    pmm_free_page a (pmm_free_page a s) = pmm_free_page a s"
proof (cases "a div PAGE_SIZE < g_total_pages s")
  case False
  with assms(1) show ?thesis
    by (auto simp: pmm_free_page_def)
next
  case True
  have "a div PAGE_SIZE \<noteq> 0"
    using assms(2) by (simp add: div_eq_0_iff)
  then have inv: "pmm_inv (mark_free (a div PAGE_SIZE) s)"
    using assms(1) True by (simp add: pmm_inv_mark_free)
  have "g_used_pages (mark_free (a div PAGE_SIZE) s) = g_used_pages s - 1"
    if "bitmap_test (a div PAGE_SIZE) s"
    using inv assms(1) that True
    by (simp add: pmm_inv_def pmm_count_ok_def used_set_mark_free used_set_def [of s])
  moreover have "g_used_pages (mark_free (a div PAGE_SIZE) s) = g_used_pages s"
    if "\<not> bitmap_test (a div PAGE_SIZE) s"
    using that by (simp add: mark_free_def)
  moreover have "mark_free (a div PAGE_SIZE) (mark_free (a div PAGE_SIZE) s) = mark_free (a div PAGE_SIZE) s"
    by (simp add: mark_free_def [of _ "mark_free _ s"])
  ultimately show ?thesis
    using inv True by (simp add: pmm_free_page_def)
qed

theorem pmm_free_page_correct_witness:
  "pmm_inv (pmm_free_page 12288 four_pages) \<and> \<not> bitmap_test 3 (pmm_free_page 12288 four_pages) \<and>
   g_used_pages (pmm_free_page 12288 four_pages) = 2"
proof -
  have "PAGE_SIZE \<le> 12288"
    by (simp add: PAGE_SIZE_def)
  note spec = pmm_free_page_correct [OF four_pages_inv this]
  have d: "12288 div PAGE_SIZE = 3" "g_total_pages four_pages = 4" "g_used_pages four_pages = 3"
    "bitmap_test 3 four_pages"
    by (simp_all add: PAGE_SIZE_def four_pages_def bitmap_test_def)
  show ?thesis
    using spec by (simp add: d)
qed



text \<open>
  The layout is one byte short when the number of pages is not a multiple of 8 and the rounded
  down byte count fills whole pages: \<open>total_pages / 8\<close> is rounded down before it is aligned.
  The last pages' bits then lie behind the bytes that were reserved and set.
\<close>

lemma bitmap_too_short:
  assumes "n mod 8 \<noteq> 0" and "(n div 8) mod PAGE_SIZE = 0" and "n < 2 ^ 52"
  shows "\<not> bitmap_covers n" and "ALIGN_UP (n div 8) PAGE_SIZE \<le> (n - 1) div 8"
proof -
  have b: "n div 8 + PAGE_SIZE - 1 < 2 ^ 64"
    using assms(3) by (simp add: PAGE_SIZE_def)
  obtain k where k: "n div 8 = PAGE_SIZE * k"
    using assms(2) by (metis mod_0_imp_dvd dvdE)
  have "(PAGE_SIZE * k + PAGE_SIZE - 1) div PAGE_SIZE = k"
    by (simp add: PAGE_SIZE_def)
  then have "ALIGN_UP (n div 8) PAGE_SIZE = n div 8"
    using ALIGN_UP_eq [OF PAGE_SIZE_pos(1) b] by (simp add: k mult.commute)
  moreover have "8 * (n div 8) < n" and "n div 8 \<le> (n - 1) div 8"
    using assms(1) by presburger+
  ultimately show "\<not> bitmap_covers n" and "ALIGN_UP (n div 8) PAGE_SIZE \<le> (n - 1) div 8"
    by (simp_all add: bitmap_covers_def)
qed

end
