(* ===== verification/Heap.thy ===== *)
theory Heap
  imports Pmm
begin

text \<open>
  The kernel heap of \<^verbatim>\<open>kernel/src/mm/heap.c\<close>: a doubly linked list of blocks, each a
  32-byte header followed by its payload, first fit with splitting on allocation and coalescing
  with both neighbours on release. It takes its memory from the page allocator.

  \<open>hmem a\<close> is the header at address \<open>a\<close> and \<open>hdata a\<close> the payload byte at address \<open>a\<close>; addresses
  of which the heap knows nothing hold arbitrary values. The record also carries the page
  allocator's state and \<open>g_hhdm_base\<close>, the offset of the direct map that \<open>PHYS_TO_VIRT\<close> adds.
  The walks along \<open>next\<close> pointers are partial functions: \<open>None\<close> is a walk that never ends.
\<close>

section \<open>State\<close>

record heap_block =
  magic :: u32
  is_free :: u32
  size :: nat
  bnext :: nat
  bprev :: nat

record heap =
  hmem :: "nat \<Rightarrow> heap_block"
  hdata :: "nat \<Rightarrow> u8"
  g_heap_head :: nat
  g_heap_allocated_bytes :: nat
  g_heap_total_bytes :: nat
  hpmm :: pmm
  g_hhdm_base :: nat

datatype 'a run = Hang | Panic string | Ret 'a

definition HEAP_ALIGNMENT :: nat where "HEAP_ALIGNMENT = 16"
definition HEAP_MAGIC_ALLOC :: u32 where "HEAP_MAGIC_ALLOC = 0x5A504F4E"
definition HEAP_MAGIC_FREE :: u32 where "HEAP_MAGIC_FREE = 0x46524545"

text \<open>\<open>ALIGN_UP (sizeof (heap_block_t), HEAP_ALIGNMENT)\<close>: two 4-byte and three 8-byte fields.\<close>

definition BLOCK_HEADER_SIZE :: nat where "BLOCK_HEADER_SIZE = ALIGN_UP 32 HEAP_ALIGNMENT"

definition PHYS_TO_VIRT :: "heap \<Rightarrow> nat \<Rightarrow> nat" where
  "PHYS_TO_VIRT s p = add64 p (g_hhdm_base s)"

definition upd_block :: "nat \<Rightarrow> (heap_block \<Rightarrow> heap_block) \<Rightarrow> heap \<Rightarrow> heap" where
  "upd_block a f s = s\<lparr>hmem := (hmem s)(a := f (hmem s a))\<rparr>"

section \<open>Growing the heap\<close>

text \<open>The last block, found by walking from a block that is not null.\<close>

partial_function (option) heap_last :: "(nat \<Rightarrow> heap_block) \<Rightarrow> nat \<Rightarrow> nat option" where
  "heap_last m cur = (if bnext (m cur) = 0 then Some cur else heap_last m (bnext (m cur)))"

definition heap_expand :: "nat \<Rightarrow> heap \<Rightarrow> heap option" where
  "heap_expand sz s =
     (let sz = ALIGN_UP (add64 sz BLOCK_HEADER_SIZE) PAGE_SIZE;
          pages = sz div PAGE_SIZE
      in case pmm_alloc_pages pages (hpmm s) of (phys, p) \<Rightarrow>
         if phys = 0 then Some (s\<lparr>hpmm := p\<rparr>)
         else
           let virt = PHYS_TO_VIRT s phys;
               s1 = s\<lparr>hpmm := p,
                      hmem := (hmem s)(virt := \<lparr>magic = HEAP_MAGIC_FREE, is_free = 1,
                        size = sub64 sz BLOCK_HEADER_SIZE, bnext = 0, bprev = 0\<rparr>),
                      g_heap_total_bytes := add64 (g_heap_total_bytes s) sz\<rparr>
           in if g_heap_head s1 = 0 then Some (s1\<lparr>g_heap_head := virt\<rparr>)
              else case heap_last (hmem s1) (g_heap_head s1) of
                     None \<Rightarrow> None
                   | Some cur \<Rightarrow>
                       Some (upd_block virt (\<lambda>b. b\<lparr>bprev := cur\<rparr>)
                              (upd_block cur (\<lambda>b. b\<lparr>bnext := virt\<rparr>) s1)))"

definition heap_init :: "nat \<Rightarrow> heap \<Rightarrow> heap option" where
  "heap_init initial_size s = heap_expand initial_size s"

section \<open>Allocation\<close>

text \<open>The first-fit walk; 0 when no free block is large enough.\<close>

partial_function (option) heap_find :: "(nat \<Rightarrow> heap_block) \<Rightarrow> nat \<Rightarrow> nat \<Rightarrow> nat option" where
  "heap_find m sz cur =
     (if cur = 0 then Some 0
      else if is_free (m cur) \<noteq> 0 \<and> size (m cur) \<ge> sz then Some cur
      else heap_find m sz (bnext (m cur)))"

text \<open>The body of the walk's hit: split if the rest can hold a header and 16 bytes, then mark.\<close>

definition split_block :: "nat \<Rightarrow> nat \<Rightarrow> heap \<Rightarrow> heap" where
  "split_block cur sz s =
     (let b = hmem s cur;
          split = add64 (add64 cur BLOCK_HEADER_SIZE) sz;
          s1 = s\<lparr>hmem := (hmem s)(split := \<lparr>magic = HEAP_MAGIC_FREE, is_free = 1,
                   size = sub64 (sub64 (size b) sz) BLOCK_HEADER_SIZE,
                   bnext = bnext b, bprev = cur\<rparr>)\<rparr>;
          s2 = (if bnext (hmem s1 cur) \<noteq> 0
                then upd_block (bnext (hmem s1 cur)) (\<lambda>b. b\<lparr>bprev := split\<rparr>) s1 else s1)
      in upd_block cur (\<lambda>b. b\<lparr>bnext := split, size := sz\<rparr>) s2)"

definition take_block :: "nat \<Rightarrow> nat \<Rightarrow> heap \<Rightarrow> nat \<times> heap" where
  "take_block cur sz s =
     (let s1 = (if size (hmem s cur) \<ge> add64 (add64 sz BLOCK_HEADER_SIZE) HEAP_ALIGNMENT
                then split_block cur sz s else s);
          s2 = upd_block cur (\<lambda>b. b\<lparr>is_free := 0, magic := HEAP_MAGIC_ALLOC\<rparr>) s1;
          s3 = s2\<lparr>g_heap_allocated_bytes := add64 (g_heap_allocated_bytes s2) (size (hmem s2 cur))\<rparr>
      in (add64 cur BLOCK_HEADER_SIZE, s3))"

definition kmalloc :: "nat \<Rightarrow> heap \<Rightarrow> (nat \<times> heap) run" where
  "kmalloc sz s =
     (if sz = 0 then Ret (0, s)
      else let sz = ALIGN_UP sz HEAP_ALIGNMENT in
        case heap_find (hmem s) sz (g_heap_head s) of
          None \<Rightarrow> Hang
        | Some cur \<Rightarrow>
            if cur \<noteq> 0 then Ret (take_block cur sz s)
            else case heap_expand (mul64 sz 2) s of
                   None \<Rightarrow> Hang
                 | Some s1 \<Rightarrow>
                     (case heap_find (hmem s1) sz (g_heap_head s1) of
                        None \<Rightarrow> Hang
                      | Some cur \<Rightarrow>
                          if cur \<noteq> 0 then Ret (take_block cur sz s1)
                          else Panic ''Heap: Out of memory during kmalloc''))"

definition fill_bytes :: "nat \<Rightarrow> u8 \<Rightarrow> nat \<Rightarrow> heap \<Rightarrow> heap" where
  "fill_bytes p c n s = s\<lparr>hdata := (\<lambda>a. if p \<le> a \<and> a < p + n then c else hdata s a)\<rparr>"

definition copy_bytes :: "nat \<Rightarrow> nat \<Rightarrow> nat \<Rightarrow> heap \<Rightarrow> heap" where
  "copy_bytes dst src n s =
     s\<lparr>hdata := (\<lambda>a. if dst \<le> a \<and> a < dst + n then hdata s (src + (a - dst)) else hdata s a)\<rparr>"

definition kzalloc :: "nat \<Rightarrow> heap \<Rightarrow> (nat \<times> heap) run" where
  "kzalloc sz s =
     (case kmalloc sz s of
        Ret (ptr, s1) \<Rightarrow> Ret (ptr, if ptr \<noteq> 0 then fill_bytes ptr 0 sz s1 else s1)
      | Hang \<Rightarrow> Hang | Panic e \<Rightarrow> Panic e)"

definition kcalloc :: "nat \<Rightarrow> nat \<Rightarrow> heap \<Rightarrow> (nat \<times> heap) run" where
  "kcalloc num sz s =
     (if num \<noteq> 0 \<and> sz > (2 ^ 64 - 1) div num then Ret (0, s)
      else kzalloc (mul64 num sz) s)"

section \<open>Release\<close>

text \<open>
  Merging the block \<open>b\<close> into the block \<open>a\<close> before it: the two coalescing branches of \<open>kfree\<close>
  perform the same three writes, once for the block and its successor and once for the
  predecessor and the block.
\<close>

definition absorb_block :: "nat \<Rightarrow> nat \<Rightarrow> heap \<Rightarrow> heap" where
  "absorb_block a b s =
     (let s1 = upd_block a (\<lambda>x. x\<lparr>size := add64 (size x) (add64 BLOCK_HEADER_SIZE (size (hmem s b))),
                                bnext := bnext (hmem s b)\<rparr>) s;
          n = bnext (hmem s1 a)
      in if n \<noteq> 0 then upd_block n (\<lambda>x. x\<lparr>bprev := a\<rparr>) s1 else s1)"

definition coalesce_next :: "nat \<Rightarrow> heap \<Rightarrow> heap" where
  "coalesce_next block s =
     (let b = hmem s block in
      if bnext b \<noteq> 0 \<and> is_free (hmem s (bnext b)) \<noteq> 0 \<and>
         bnext b = add64 (add64 block BLOCK_HEADER_SIZE) (size b)
      then absorb_block block (bnext b) s else s)"

definition coalesce_prev :: "nat \<Rightarrow> heap \<Rightarrow> heap" where
  "coalesce_prev block s =
     (let p = bprev (hmem s block) in
      if p \<noteq> 0 \<and> is_free (hmem s p) \<noteq> 0 \<and>
         block = add64 (add64 p BLOCK_HEADER_SIZE) (size (hmem s p))
      then absorb_block p block s else s)"

definition kfree :: "nat \<Rightarrow> heap \<Rightarrow> heap" where
  "kfree ptr s =
     (if ptr = 0 then s
      else let block = sub64 ptr BLOCK_HEADER_SIZE in
        if magic (hmem s block) \<noteq> HEAP_MAGIC_ALLOC then s
        else
          let s1 = upd_block block (\<lambda>b. b\<lparr>is_free := 1, magic := HEAP_MAGIC_FREE\<rparr>) s;
              s2 = s1\<lparr>g_heap_allocated_bytes := sub64 (g_heap_allocated_bytes s1) (size (hmem s1 block))\<rparr>
          in coalesce_prev block (coalesce_next block s2))"

definition krealloc :: "nat \<Rightarrow> nat \<Rightarrow> heap \<Rightarrow> (nat \<times> heap) run" where
  "krealloc ptr new_size s =
     (if ptr = 0 then kmalloc new_size s
      else if new_size = 0 then Ret (0, kfree ptr s)
      else let block = sub64 ptr BLOCK_HEADER_SIZE in
        if size (hmem s block) \<ge> new_size then Ret (ptr, s)
        else case kmalloc new_size s of
               Ret (new_ptr, s1) \<Rightarrow>
                 Ret (new_ptr, if new_ptr \<noteq> 0
                               then kfree ptr (copy_bytes new_ptr ptr (size (hmem s1 block)) s1) else s1)
             | Hang \<Rightarrow> Hang | Panic e \<Rightarrow> Panic e)"

section \<open>The linked list of blocks\<close>

lemma heap_consts [simp]: "BLOCK_HEADER_SIZE = 32" "HEAP_ALIGNMENT = 16"
  by (simp_all add: BLOCK_HEADER_SIZE_def HEAP_ALIGNMENT_def ALIGN_UP_def add64_def)

text \<open>
  \<open>dl m p a xs b\<close>: the pointer \<open>a\<close> leads through the blocks \<open>xs\<close> to \<open>b\<close>, and the back pointers
  lead from each block to the one before it, from the first one to \<open>p\<close>.
\<close>

fun dl :: "(nat \<Rightarrow> heap_block) \<Rightarrow> nat \<Rightarrow> nat \<Rightarrow> nat list \<Rightarrow> nat \<Rightarrow> bool" where
  "dl m p a [] b \<longleftrightarrow> a = b"
| "dl m p a (x # xs) b \<longleftrightarrow> a = x \<and> x \<noteq> 0 \<and> bprev (m x) = p \<and> dl m x (bnext (m x)) xs b"

lemma dl_append:
  "dl m p a (xs @ ys) b \<longleftrightarrow> dl m p a xs (hd (ys @ [b])) \<and> dl m (last (p # xs)) (hd (ys @ [b])) ys b"
proof (induction xs arbitrary: p a)
  case Nil
  then show ?case
    by (cases ys) auto
next
  case (Cons x xs)
  then show ?case
    by auto
qed

lemma dl_cong:
  "(\<And>x. x \<in> set xs \<Longrightarrow> bnext (m' x) = bnext (m x) \<and> bprev (m' x) = bprev (m x)) \<Longrightarrow>
   dl m' p a xs b = dl m p a xs b"
  by (induction xs arbitrary: p a) auto

lemma dl_hd: "dl m p a xs b \<Longrightarrow> a = hd (xs @ [b])"
  by (cases xs) auto

lemma dl_nonzero: "dl m p a xs b \<Longrightarrow> x \<in> set xs \<Longrightarrow> x \<noteq> 0"
  by (induction xs arbitrary: p a) auto

lemma dl_middle:
  assumes "dl m p a (xs @ c # ys) b"
  shows "bprev (m c) = last (p # xs)" "bnext (m c) = hd (ys @ [b])" "c \<noteq> 0"
  using assms by (auto simp: dl_append dest: dl_hd)

text \<open>The three changes of shape: a block inserted after \<open>c\<close>, one removed after \<open>c\<close>, one appended.\<close>

lemma dl_insert:
  assumes d: "dl m 0 h (xs @ c # ys) 0" "distinct (xs @ c # ys)" "sp \<notin> set (xs @ c # ys)" "sp \<noteq> 0"
    and c: "bnext (m' c) = sp" "bprev (m' c) = bprev (m c)"
    and sp: "bnext (m' sp) = bnext (m c)" "bprev (m' sp) = c"
    and nx: "bnext (m c) \<noteq> 0 \<Longrightarrow> bprev (m' (bnext (m c))) = sp \<and> bnext (m' (bnext (m c))) = bnext (m (bnext (m c)))"
    and oth: "\<And>x. x \<notin> {c, sp, bnext (m c)} \<Longrightarrow> bnext (m' x) = bnext (m x) \<and> bprev (m' x) = bprev (m x)"
  shows "dl m' 0 h (xs @ c # sp # ys) 0"
proof -
  have n: "bnext (m c) = hd (ys @ [0])"
    using dl_middle [OF d(1)] by simp
  have "dl m 0 h xs c" "c \<noteq> 0" and rest: "dl m c (bnext (m c)) ys 0" "bprev (m c) = last (0 # xs)"
    using d(1) by (auto simp: dl_append)
  moreover have "dl m' 0 h xs c = dl m 0 h xs c"
    by (rule dl_cong, rule oth) (use d n in \<open>cases ys; auto dest: dl_nonzero\<close>)
  moreover have "dl m' sp (bnext (m c)) ys 0"
  proof (cases ys)
    case Nil
    with n show ?thesis by simp
  next
    case (Cons y zs)
    have "dl m' y (bnext (m y)) zs 0 = dl m y (bnext (m y)) zs 0"
      by (rule dl_cong, rule oth) (use d n Cons in auto)
    with Cons rest nx n show ?thesis by auto
  qed
  ultimately show ?thesis
    using c sp d(4) by (simp add: dl_append)
qed

lemma dl_delete:
  assumes d: "dl m 0 h (xs @ c # b # ys) 0" "distinct (xs @ c # b # ys)"
    and c: "bnext (m' c) = bnext (m b)" "bprev (m' c) = bprev (m c)"
    and nx: "bnext (m b) \<noteq> 0 \<Longrightarrow> bprev (m' (bnext (m b))) = c \<and> bnext (m' (bnext (m b))) = bnext (m (bnext (m b)))"
    and oth: "\<And>x. x \<notin> {c, b, bnext (m b)} \<Longrightarrow> bnext (m' x) = bnext (m x) \<and> bprev (m' x) = bprev (m x)"
  shows "dl m' 0 h (xs @ c # ys) 0"
proof -
  have n: "bnext (m b) = hd (ys @ [0])"
    using dl_middle(2) [of m 0 h "xs @ [c]" b ys 0] d(1) by simp
  have "dl m 0 h xs c" "c \<noteq> 0" and rest: "dl m b (bnext (m b)) ys 0" "bprev (m c) = last (0 # xs)"
    using d(1) by (auto simp: dl_append)
  moreover have "dl m' 0 h xs c = dl m 0 h xs c"
    by (rule dl_cong, rule oth) (use d n in \<open>cases ys; auto dest: dl_nonzero\<close>)
  moreover have "dl m' c (bnext (m b)) ys 0"
  proof (cases ys)
    case Nil
    with n show ?thesis by simp
  next
    case (Cons y zs)
    have "dl m' y (bnext (m y)) zs 0 = dl m y (bnext (m y)) zs 0"
      by (rule dl_cong, rule oth) (use d n Cons in auto)
    with Cons rest nx n show ?thesis by auto
  qed
  ultimately show ?thesis
    using c by (simp add: dl_append)
qed

lemma dl_snoc:
  assumes d: "dl m 0 h xs 0" "distinct xs" "v \<notin> set xs" "v \<noteq> 0"
    and v: "bnext (m' v) = 0" "bprev (m' v) = last (0 # xs)"
    and l: "xs \<noteq> [] \<Longrightarrow> bnext (m' (last xs)) = v \<and> bprev (m' (last xs)) = bprev (m (last xs))"
    and oth: "\<And>x. x \<in> set xs \<Longrightarrow> x \<noteq> last xs \<Longrightarrow> bnext (m' x) = bnext (m x) \<and> bprev (m' x) = bprev (m x)"
  shows "dl m' 0 (if xs = [] then v else h) (xs @ [v]) 0"
proof (cases xs rule: rev_cases)
  case Nil
  with v d(4) show ?thesis by simp
next
  case (snoc zs z)
  have "dl m' 0 h zs z = dl m 0 h zs z"
    by (rule dl_cong, rule oth) (use snoc d in auto)
  then show ?thesis
    using snoc d v l by (simp add: dl_append)
qed

lemma heap_last_eq:
  "dl m p a xs 0 \<Longrightarrow> xs \<noteq> [] \<Longrightarrow> heap_last m a = Some (last xs)"
proof (induction xs arbitrary: p a)
  case (Cons x xs)
  show ?case
  proof (cases xs)
    case Nil
    with Cons.prems show ?thesis
      by (subst heap_last.simps) auto
  next
    case (Cons y ys)
    with Cons.prems have "dl m x (bnext (m x)) xs 0" "bnext (m x) \<noteq> 0" "a = x"
      by auto
    with Cons.IH [of x "bnext (m x)"] Cons show ?thesis
      by (subst heap_last.simps) auto
  qed
qed simp

lemma heap_find_eq:
  "dl m p a xs 0 \<Longrightarrow>
   heap_find m sz a = Some (case find (\<lambda>b. is_free (m b) \<noteq> 0 \<and> sz \<le> size (m b)) xs of None \<Rightarrow> 0 | Some b \<Rightarrow> b)"
proof (induction xs arbitrary: p a)
  case Nil
  then show ?case
    by (subst heap_find.simps) simp
next
  case (Cons x xs)
  then have "dl m x (bnext (m x)) xs 0" "a = x" "x \<noteq> 0"
    by auto
  with Cons.IH [of x "bnext (m x)"] show ?case
    by (subst heap_find.simps) auto
qed

section \<open>The blocks as a set of extents\<close>

definition ext :: "(nat \<Rightarrow> heap_block) \<Rightarrow> nat \<Rightarrow> nat set" where
  "ext m b = {b..<b + 32 + size (m b)}"

definition block_ok :: "heap_block \<Rightarrow> bool" where
  "block_ok b \<longleftrightarrow> 16 dvd size b \<and>
     (magic b = HEAP_MAGIC_FREE \<and> is_free b = 1 \<or> magic b = HEAP_MAGIC_ALLOC \<and> is_free b = 0)"

text \<open>
  The headers and payloads of the blocks \<open>B\<close> tile part of the memory \<open>R\<close>: they are aligned, lie
  in \<open>R\<close> and do not overlap, and each header says consistently whether its block is free.
\<close>

definition blocks_inv :: "(nat \<Rightarrow> heap_block) \<Rightarrow> nat set \<Rightarrow> nat set \<Rightarrow> bool" where
  "blocks_inv m B R \<longleftrightarrow> finite B \<and> (\<forall>b \<in> B. block_ok (m b) \<and> 16 dvd b \<and> ext m b \<subseteq> R) \<and>
     (\<forall>a \<in> B. \<forall>b \<in> B. a \<noteq> b \<longrightarrow> ext m a \<inter> ext m b = {})"

text \<open>What a client sees: the allocated blocks with their sizes.\<close>

definition live :: "(nat \<Rightarrow> heap_block) \<Rightarrow> nat set \<Rightarrow> (nat \<times> nat) set" where
  "live m B = {(b, size (m b)) |b. b \<in> B \<and> is_free (m b) = 0}"

definition same_block :: "heap_block \<Rightarrow> heap_block \<Rightarrow> bool" where
  "same_block x y \<longleftrightarrow> size x = size y \<and> is_free x = is_free y \<and> magic x = magic y"

definition total_of :: "(nat \<Rightarrow> heap_block) \<Rightarrow> nat set \<Rightarrow> nat" where
  "total_of m B = (\<Sum>b \<in> B. 32 + size (m b))"

definition alloc_of :: "(nat \<Rightarrow> heap_block) \<Rightarrow> nat set \<Rightarrow> nat" where
  "alloc_of m B = (\<Sum>b \<in> B. if is_free (m b) = 0 then size (m b) else 0)"

lemma ext_self [simp]: "b \<in> ext m b"
  by (simp add: ext_def)

lemma same_block_ext: "same_block (m' b) (m b) \<Longrightarrow> ext m' b = ext m b"
  by (simp add: same_block_def ext_def)

lemma same_block_ok: "same_block x y \<Longrightarrow> block_ok x = block_ok y"
  by (simp add: same_block_def block_ok_def)

lemma block_ok_free: "block_ok x \<Longrightarrow> is_free x \<noteq> 0 \<longleftrightarrow> is_free x = 1 \<and> magic x = HEAP_MAGIC_FREE"
  by (auto simp: block_ok_def)

lemma blocks_invD:
  assumes "blocks_inv m B R" and "b \<in> B"
  shows "block_ok (m b)" "16 dvd b" "ext m b \<subseteq> R" "\<And>a. a \<in> B \<Longrightarrow> a \<noteq> b \<Longrightarrow> ext m a \<inter> ext m b = {}" "16 dvd size (m b)"
  using assms by (auto simp: blocks_inv_def block_ok_def)

lemma blocks_inv_not_inside:
  assumes "blocks_inv m B R" and "b \<in> B" and "x \<in> ext m b" and "x \<noteq> b"
  shows "x \<notin> B"
  using blocks_invD(4) [OF assms(1,2), of x] assms(3,4) by (meson disjoint_iff ext_self)

lemma sums_cong:
  assumes "\<And>b. b \<in> B \<Longrightarrow> same_block (m' b) (m b)"
  shows "total_of m' B = total_of m B" "alloc_of m' B = alloc_of m B" "live m' B = live m B"
  using assms by (auto simp: total_of_def alloc_of_def live_def same_block_def intro!: sum.cong)

lemma total_of_bound:
  assumes "blocks_inv m B {lo..<hi}"
  shows "total_of m B \<le> hi - lo"
proof -
  have "total_of m B = (\<Sum>b \<in> B. card (ext m b))"
    by (simp add: total_of_def ext_def)
  also have "\<dots> = card (\<Union>b \<in> B. ext m b)"
    by (rule card_UN_disjoint [symmetric]) (use assms in \<open>auto simp: blocks_inv_def ext_def\<close>)
  also have "\<dots> \<le> card {lo..<hi}"
    by (rule card_mono) (use assms in \<open>auto simp: blocks_inv_def\<close>)
  finally show ?thesis
    by simp
qed

lemma alloc_of_le_total: "alloc_of m B \<le> total_of m B"
  unfolding alloc_of_def total_of_def by (rule sum_mono) simp

lemma blocks_inv_mono: "blocks_inv m B R \<Longrightarrow> R \<subseteq> R' \<Longrightarrow> blocks_inv m B R'"
  by (auto simp: blocks_inv_def)

lemma blocks_inv_cong:
  assumes "blocks_inv m B R" and "\<And>b. b \<in> B \<Longrightarrow> same_block (m' b) (m b)"
  shows "blocks_inv m' B R"
proof -
  have "ext m' b = ext m b" "block_ok (m' b) = block_ok (m b)" if "b \<in> B" for b
    using assms(2) [OF that] by (simp_all add: same_block_ext same_block_ok)
  with assms(1) show ?thesis
    by (simp add: blocks_inv_def)
qed

lemma blocks_inv_add:
  assumes "blocks_inv m B R" and "block_ok (m v)" and "16 dvd v" and "ext m v \<subseteq> R'"
    and "R \<inter> ext m v = {}" and "R \<subseteq> R'"
  shows "blocks_inv m (insert v B) R'" and "v \<notin> B"
proof -
  have d: "ext m b \<inter> ext m v = {}" if "b \<in> B" for b
    using blocks_invD(3) [OF assms(1) that] assms(5) by blast
  then have "ext m v \<inter> ext m b = {}" if "b \<in> B" for b
    using that by blast
  moreover have "\<forall>b \<in> B. ext m b \<subseteq> R'"
    using blocks_invD(3) [OF assms(1)] assms(6) by blast
  ultimately show "blocks_inv m (insert v B) R'"
    using assms d by (simp add: blocks_inv_def)
  show "v \<notin> B"
    using d [of v] ext_self [of v m] by blast
qed

text \<open>Splitting the extent of a free block in two.\<close>

lemma blocks_inv_split:
  assumes inv: "blocks_inv m B R" and c: "c \<in> B" and sz: "16 dvd sz" "sz + 32 \<le> size (m c)"
    and m': "size (m' c) = sz" "is_free (m' c) = is_free (m c)" "magic (m' c) = magic (m c)"
    and sp: "size (m' (c + 32 + sz)) = size (m c) - sz - 32" "is_free (m' (c + 32 + sz)) = 1"
      "magic (m' (c + 32 + sz)) = HEAP_MAGIC_FREE"
    and oth: "\<And>b. b \<in> B \<Longrightarrow> b \<noteq> c \<Longrightarrow> same_block (m' b) (m b)"
  shows "c + 32 + sz \<notin> B" and "blocks_inv m' (insert (c + 32 + sz) B) R"
    and "total_of m' (insert (c + 32 + sz) B) = total_of m B"
proof -
  let ?sp = "c + 32 + sz"
  show new: "?sp \<notin> B"
    by (rule blocks_inv_not_inside [OF inv c]) (use sz in \<open>auto simp: ext_def\<close>)
  have ec: "ext m' c \<subseteq> ext m c" and es: "ext m' ?sp \<subseteq> ext m c" and d: "ext m' c \<inter> ext m' ?sp = {}"
    using sz by (auto simp: ext_def m' sp)
  have eo: "ext m' b = ext m b" if "b \<in> B" "b \<noteq> c" for b
    using oth [OF that] by (rule same_block_ext)
  have ok: "block_ok (m' b)" if "b \<in> B" for b
    using blocks_invD(1) [OF inv that] oth [OF that] m' sz
    by (cases "b = c") (auto simp: block_ok_def same_block_def)
  have oks: "block_ok (m' ?sp)" "16 dvd ?sp"
    using sp sz blocks_invD(2,5) [OF inv c] by (auto simp: block_ok_def intro: dvd_diff_nat)
  have disj: "ext m' a \<inter> ext m c = {}" if "a \<in> B" "a \<noteq> c" for a
    using blocks_invD(4) [OF inv c that] eo [OF that] by simp
  show "blocks_inv m' (insert ?sp B) R"
    unfolding blocks_inv_def
  proof (intro conjI ballI impI)
    show "finite (insert ?sp B)"
      using inv by (simp add: blocks_inv_def)
    fix a
    assume a: "a \<in> insert ?sp B"
    show "block_ok (m' a)" "16 dvd a"
      using a ok oks blocks_invD(2) [OF inv] by auto
    show "ext m' a \<subseteq> R"
      using a ec es eo [of a] blocks_invD(3) [OF inv, of a] blocks_invD(3) [OF inv c] by (cases "a = c") auto
    fix b
    assume b: "b \<in> insert ?sp B" "a \<noteq> b"
    consider "a \<in> {c, ?sp}" "b \<in> {c, ?sp}" | "a \<in> {c, ?sp}" "b \<in> B" "b \<noteq> c"
      | "a \<in> B" "a \<noteq> c" "b \<in> {c, ?sp}" | "a \<in> B" "a \<noteq> c" "b \<in> B" "b \<noteq> c"
      using a b by blast
    then show "ext m' a \<inter> ext m' b = {}"
    proof cases
      case 1
      with b d show ?thesis by blast
    next
      case 2
      with disj [of b] ec es show ?thesis by blast
    next
      case 3
      with disj [of a] ec es show ?thesis by blast
    next
      case 4
      with eo [of a] eo [of b] blocks_invD(4) [OF inv, of b a] b(2) show ?thesis by simp
    qed
  qed
  have fin: "finite B"
    using inv by (simp add: blocks_inv_def)
  have "total_of m' (insert ?sp B) = (32 + size (m' ?sp)) + ((32 + size (m' c)) + total_of m' (B - {c}))"
    using new fin c by (simp add: total_of_def sum.remove)
  also have "total_of m' (B - {c}) = total_of m (B - {c})"
    by (rule sums_cong(1)) (use oth in auto)
  also have "(32 + size (m' ?sp)) + ((32 + size (m' c)) + total_of m (B - {c})) = total_of m B"
    using fin c sz by (simp add: m' sp total_of_def sum.remove [of B c])
  finally show "total_of m' (insert ?sp B) = total_of m B" .
qed

text \<open>Merging a block with the block that starts where it ends.\<close>

lemma blocks_inv_merge:
  assumes inv: "blocks_inv m B R" and a: "a \<in> B" and b: "b \<in> B" "b = a + 32 + size (m a)"
    and m': "size (m' a) = size (m a) + 32 + size (m b)" "is_free (m' a) = is_free (m a)"
      "magic (m' a) = magic (m a)"
    and oth: "\<And>x. x \<in> B \<Longrightarrow> x \<noteq> a \<Longrightarrow> x \<noteq> b \<Longrightarrow> same_block (m' x) (m x)"
  shows "blocks_inv m' (B - {b}) R" and "total_of m' (B - {b}) = total_of m B"
proof -
  have ab: "a \<noteq> b"
    using b by simp
  have ea: "ext m' a = ext m a \<union> ext m b"
    using b by (auto simp: ext_def m')
  have eo: "ext m' x = ext m x" if "x \<in> B" "x \<noteq> a" "x \<noteq> b" for x
    using oth [OF that] by (rule same_block_ext)
  have ok: "block_ok (m' x)" if "x \<in> B" "x \<noteq> b" for x
    using blocks_invD(1,5) [OF inv] oth [OF that(1) _ that(2)] that a b(1) m'
    by (cases "x = a") (auto simp: block_ok_def same_block_def)
  show "blocks_inv m' (B - {b}) R"
    unfolding blocks_inv_def
  proof (intro conjI ballI impI)
    show "finite (B - {b})"
      using inv by (simp add: blocks_inv_def)
    fix x
    assume x: "x \<in> B - {b}"
    show "block_ok (m' x)" "16 dvd x"
      using x ok blocks_invD(2) [OF inv] by auto
    show "ext m' x \<subseteq> R"
      using x ea eo [of x] blocks_invD(3) [OF inv] a b(1) by (cases "x = a") auto
    fix y
    assume y: "y \<in> B - {b}" "x \<noteq> y"
    have d: "ext m z \<inter> ext m w = {}" if "z \<in> B" "w \<in> B" "z \<noteq> w" for z w
      using blocks_invD(4) [OF inv that(2,1,3)] .
    show "ext m' x \<inter> ext m' y = {}"
      using x y ea eo [of x] eo [of y] d [of x y] d [of x b] d [of b y] d [of a y] d [of x a] a b(1)
      by (cases "x = a"; cases "y = a") auto
  qed
  have fin: "finite B"
    using inv by (simp add: blocks_inv_def)
  have "total_of m' (B - {b}) = (32 + size (m' a)) + total_of m' (B - {b} - {a})"
    using a ab fin by (simp add: total_of_def sum.remove [of "B - {b}" a])
  also have "total_of m' (B - {b} - {a}) = total_of m (B - {b} - {a})"
    by (rule sums_cong(1)) (use oth in auto)
  also have "(32 + size (m' a)) + total_of m (B - {b} - {a}) = total_of m B"
    using a ab b(1) fin by (simp add: m' total_of_def sum.remove [of B b] sum.remove [of "B - {b}" a])
  finally show "total_of m' (B - {b}) = total_of m B" .
qed

section \<open>The heap invariant\<close>

text \<open>
  The memory behind the page frames in use, seen through the direct map, and what is known of
  the direct map: it is aligned, does not start at 0 and fits all of physical memory below
  \<open>W64\<close>.
\<close>

definition region :: "nat \<Rightarrow> pmm \<Rightarrow> nat set" where
  "region hh p = (\<Union>f \<in> frames p. {hh + f..<hh + f + PAGE_SIZE})"

definition hhdm_ok :: "nat \<Rightarrow> pmm \<Rightarrow> bool" where
  "hhdm_ok hh p \<longleftrightarrow> PAGE_SIZE dvd hh \<and> 0 < hh \<and> hh + g_total_pages p * PAGE_SIZE \<le> W64"

definition heap_inv :: "heap \<Rightarrow> nat list \<Rightarrow> bool" where
  "heap_inv s bs \<longleftrightarrow> pmm_inv (hpmm s) \<and> hhdm_ok (g_hhdm_base s) (hpmm s) \<and> distinct bs \<and>
     dl (hmem s) 0 (g_heap_head s) bs 0 \<and>
     blocks_inv (hmem s) (set bs) (region (g_hhdm_base s) (hpmm s)) \<and>
     g_heap_total_bytes s = total_of (hmem s) (set bs) \<and>
     g_heap_allocated_bytes s = alloc_of (hmem s) (set bs)"

lemma region_bounds:
  assumes "hhdm_ok hh p"
  shows "region hh p \<subseteq> {hh..<W64}"
proof
  fix x
  assume "x \<in> region hh p"
  then obtain q where q: "q < g_total_pages p" "hh + q * PAGE_SIZE \<le> x" "x < hh + q * PAGE_SIZE + PAGE_SIZE"
    by (auto simp: region_def frames_def used_set_def)
  have "Suc q * PAGE_SIZE \<le> g_total_pages p * PAGE_SIZE"
    using q(1) by (intro mult_le_mono1) simp
  then have "x < hh + g_total_pages p * PAGE_SIZE"
    using q(3) by simp
  also have "\<dots> \<le> W64"
    using assms by (simp add: hhdm_ok_def)
  finally show "x \<in> {hh..<W64}"
    using q(2) by simp
qed

lemma heap_invD:
  assumes "heap_inv s bs"
  shows "pmm_inv (hpmm s)" "hhdm_ok (g_hhdm_base s) (hpmm s)" "distinct bs"
    "dl (hmem s) 0 (g_heap_head s) bs 0"
    "blocks_inv (hmem s) (set bs) (region (g_hhdm_base s) (hpmm s))"
    "g_heap_total_bytes s = total_of (hmem s) (set bs)"
    "g_heap_allocated_bytes s = alloc_of (hmem s) (set bs)"
    "0 < g_hhdm_base s"
  using assms by (simp_all add: heap_inv_def hhdm_ok_def)

lemma heap_total_bound:
  assumes "heap_inv s bs"
  shows "total_of (hmem s) (set bs) < W64"
proof -
  have "blocks_inv (hmem s) (set bs) {g_hhdm_base s..<W64}"
    using heap_invD(5) [OF assms] region_bounds [OF heap_invD(2) [OF assms]] by (rule blocks_inv_mono)
  then have "total_of (hmem s) (set bs) \<le> W64 - g_hhdm_base s"
    by (rule total_of_bound)
  with heap_invD(8) [OF assms] W64_pos(1) show ?thesis
    by linarith
qed

lemma heap_block_bound:
  assumes "heap_inv s bs" and "b \<in> set bs"
  shows "b + 32 + size (hmem s b) \<le> W64" "g_hhdm_base s \<le> b"
proof -
  have e: "ext (hmem s) b \<subseteq> {g_hhdm_base s..<W64}"
    using blocks_invD(3) [OF heap_invD(5) [OF assms(1)] assms(2)] region_bounds [OF heap_invD(2) [OF assms(1)]]
    by blast
  then have "b + 31 + size (hmem s b) \<in> {g_hhdm_base s..<W64}"
    by (rule subsetD) (simp add: ext_def)
  moreover have "b \<in> {g_hhdm_base s..<W64}"
    using e by (rule subsetD) simp
  ultimately show "b + 32 + size (hmem s b) \<le> W64" "g_hhdm_base s \<le> b"
    by simp_all
qed

lemma region_disjoint:
  assumes "F \<inter> frames p = {}" and "\<forall>f \<in> F. PAGE_SIZE dvd f"
  shows "(\<Union>f \<in> F. {hh + f..<hh + f + PAGE_SIZE}) \<inter> region hh p = {}"
proof -
  have "{hh + f..<hh + f + PAGE_SIZE} \<inter> {hh + g..<hh + g + PAGE_SIZE} = {}"
    if "f \<in> F" "g \<in> frames p" for f g
  proof -
    have "f \<noteq> g"
      using assms(1) that by auto
    then show ?thesis
      using dvd_apart [of PAGE_SIZE f g] assms(2) that pf.owned_aligned [of g p] by auto
  qed
  then show ?thesis
    unfolding region_def by blast
qed

section \<open>Splitting and merging keep the invariant\<close>

lemma live_iff: "(b, z) \<in> live m B \<longleftrightarrow> b \<in> B \<and> is_free (m b) = 0 \<and> z = size (m b)"
  by (auto simp: live_def)

lemma live_eqI:
  assumes "\<And>b. b \<in> B \<and> is_free (m b) = 0 \<longleftrightarrow> b \<in> B' \<and> is_free (m' b) = 0"
    and "\<And>b. b \<in> B \<Longrightarrow> is_free (m b) = 0 \<Longrightarrow> size (m b) = size (m' b)"
  shows "live m B = live m' B'"
proof (rule set_eqI)
  fix x
  show "x \<in> live m B \<longleftrightarrow> x \<in> live m' B'"
    by (cases x) (metis assms live_iff)
qed

lemma alloc_of_live: "finite B \<Longrightarrow> alloc_of m B = (\<Sum>x \<in> live m B. snd x)"
proof -
  assume "finite B"
  then have "alloc_of m B = (\<Sum>b \<in> {b \<in> B. is_free (m b) = 0}. size (m b))"
    by (simp add: alloc_of_def sum.inter_filter)
  also have "\<dots> = (\<Sum>x \<in> (\<lambda>b. (b, size (m b))) ` {b \<in> B. is_free (m b) = 0}. snd x)"
    by (subst sum.reindex) (auto simp: inj_on_def)
  also have "(\<lambda>b. (b, size (m b))) ` {b \<in> B. is_free (m b) = 0} = live m B"
    by (auto simp: live_def)
  finally show ?thesis .
qed

text \<open>A change that only reorganises free blocks.\<close>

lemma heap_inv_reorg:
  assumes "heap_inv s bs"
    and "hpmm t = hpmm s" "g_hhdm_base t = g_hhdm_base s" "g_heap_head t = g_heap_head s"
      "g_heap_total_bytes t = g_heap_total_bytes s" "g_heap_allocated_bytes t = g_heap_allocated_bytes s"
    and "dl (hmem t) 0 (g_heap_head s) bs' 0" "distinct bs'"
    and "blocks_inv (hmem t) (set bs') (region (g_hhdm_base s) (hpmm s))"
    and "total_of (hmem t) (set bs') = total_of (hmem s) (set bs)"
    and "live (hmem t) (set bs') = live (hmem s) (set bs)"
  shows "heap_inv t bs'"
  using assms by (simp add: heap_inv_def alloc_of_live)

lemma upd_block_sel [simp]:
  "hmem (upd_block a f s) = (hmem s)(a := f (hmem s a))" "hpmm (upd_block a f s) = hpmm s"
  "g_hhdm_base (upd_block a f s) = g_hhdm_base s" "g_heap_head (upd_block a f s) = g_heap_head s"
  "g_heap_total_bytes (upd_block a f s) = g_heap_total_bytes s"
  "g_heap_allocated_bytes (upd_block a f s) = g_heap_allocated_bytes s"
  "hdata (upd_block a f s) = hdata s"
  by (simp_all add: upd_block_def)

lemma split_block_sel [simp]:
  "hpmm (split_block c sz s) = hpmm s" "g_hhdm_base (split_block c sz s) = g_hhdm_base s"
  "g_heap_head (split_block c sz s) = g_heap_head s"
  "g_heap_total_bytes (split_block c sz s) = g_heap_total_bytes s"
  "g_heap_allocated_bytes (split_block c sz s) = g_heap_allocated_bytes s"
  "hdata (split_block c sz s) = hdata s"
  by (simp_all add: split_block_def Let_def)

lemma absorb_block_sel [simp]:
  "hpmm (absorb_block a b s) = hpmm s" "g_hhdm_base (absorb_block a b s) = g_hhdm_base s"
  "g_heap_head (absorb_block a b s) = g_heap_head s"
  "g_heap_total_bytes (absorb_block a b s) = g_heap_total_bytes s"
  "g_heap_allocated_bytes (absorb_block a b s) = g_heap_allocated_bytes s"
  "hdata (absorb_block a b s) = hdata s"
  by (simp_all add: absorb_block_def Let_def)

lemma heap_next_facts:
  assumes "heap_inv s (xs @ c # ys)"
  shows "bnext (hmem s c) = hd (ys @ [0])" "bnext (hmem s c) \<noteq> c" "bnext (hmem s c) \<in> insert 0 (set ys)"
proof -
  show n: "bnext (hmem s c) = hd (ys @ [0])"
    using dl_middle(2) [OF heap_invD(4) [OF assms]] .
  show "bnext (hmem s c) \<noteq> c" "bnext (hmem s c) \<in> insert 0 (set ys)"
    using n heap_invD(3) [OF assms] dl_middle(3) [OF heap_invD(4) [OF assms]] by (cases ys; auto)+
qed

lemma split_block_inv:
  assumes inv: "heap_inv s (xs @ c # ys)" and sz: "16 dvd sz" "sz + 32 \<le> size (hmem s c)"
    and free: "is_free (hmem s c) \<noteq> 0"
  shows "heap_inv (split_block c sz s) (xs @ c # (c + 32 + sz) # ys)"
    and "live (hmem (split_block c sz s)) (set (xs @ c # (c + 32 + sz) # ys)) = live (hmem s) (set (xs @ c # ys))"
    and "size (hmem (split_block c sz s) c) = sz" "is_free (hmem (split_block c sz s) c) = is_free (hmem s c)"
    and "\<forall>b \<in> set (xs @ c # ys) - {c}. size (hmem (split_block c sz s) b) = size (hmem s b)"
proof -
  let ?B = "set (xs @ c # ys)" and ?sp = "c + 32 + sz" and ?n = "bnext (hmem s c)"
  let ?t = "split_block c sz s"
  have c: "c \<in> ?B"
    by simp
  have bnd: "c + 32 + size (hmem s c) \<le> W64" "0 < c"
    using heap_block_bound [OF inv c] heap_invD(8) [OF inv] by auto
  have ar: "add64 (add64 c 32) sz = ?sp"
    "sub64 (sub64 (size (hmem s c)) sz) 32 = size (hmem s c) - sz - 32"
    using bnd sz by (simp_all add: add64_W64 sub64_W64)
  have new: "?sp \<notin> ?B"
    by (rule blocks_inv_not_inside [OF heap_invD(5) [OF inv] c]) (use sz in \<open>auto simp: ext_def\<close>)
  have nn: "?n \<noteq> c" "?n \<noteq> ?sp"
    using heap_next_facts [OF inv] new bnd(2) by auto
  have mem: "hmem ?t = (\<lambda>x. if x = c then (hmem s c)\<lparr>bnext := ?sp, size := sz\<rparr>
      else if x = ?n \<and> ?n \<noteq> 0 then (hmem s ?n)\<lparr>bprev := ?sp\<rparr>
      else if x = ?sp then \<lparr>magic = HEAP_MAGIC_FREE, is_free = 1, size = size (hmem s c) - sz - 32,
        bnext = ?n, bprev = c\<rparr> else hmem s x)"
    using nn by (auto simp: split_block_def Let_def ar fun_eq_iff)
  have oth: "same_block (hmem ?t b) (hmem s b)" if "b \<in> ?B" "b \<noteq> c" for b
    using that new by (auto simp: mem same_block_def)
  note sp = blocks_inv_split [OF heap_invD(5) [OF inv] c sz, of "hmem ?t"]
  have inv': "blocks_inv (hmem ?t) (insert ?sp ?B) (region (g_hhdm_base s) (hpmm s))"
    and tot: "total_of (hmem ?t) (insert ?sp ?B) = total_of (hmem s) ?B"
    by (rule sp; use nn oth in \<open>auto simp: mem\<close>)+
  have dl: "dl (hmem ?t) 0 (g_heap_head s) (xs @ c # ?sp # ys) 0"
    by (rule dl_insert [OF heap_invD(4) [OF inv] heap_invD(3) [OF inv] new]) (use nn in \<open>auto simp: mem\<close>)
  have set: "set (xs @ c # ?sp # ys) = insert ?sp ?B"
    by auto
  have dist: "distinct (xs @ c # ?sp # ys)"
    using heap_invD(3) [OF inv] new by auto
  show lv: "live (hmem ?t) (set (xs @ c # ?sp # ys)) = live (hmem s) ?B"
    unfolding set by (rule live_eqI) (use free new nn in \<open>auto simp: mem split: if_splits\<close>)
  show "heap_inv ?t (xs @ c # ?sp # ys)"
    by (rule heap_inv_reorg [OF inv])
      (use dl dist inv' tot lv in \<open>simp_all only: set split_block_sel\<close>)
  show "size (hmem ?t c) = sz" "is_free (hmem ?t c) = is_free (hmem s c)"
    by (simp_all add: mem)
  show "\<forall>b \<in> ?B - {c}. size (hmem ?t b) = size (hmem s b)"
  proof
    fix b
    assume "b \<in> ?B - {c}"
    then have "same_block (hmem ?t b) (hmem s b)"
      by (intro oth) auto
    then show "size (hmem ?t b) = size (hmem s b)"
      by (simp only: same_block_def)
  qed
qed

lemma absorb_block_inv:
  assumes inv: "heap_inv s (xs @ a # b # ys)" and adj: "b = a + 32 + size (hmem s a)"
    and free: "is_free (hmem s a) \<noteq> 0" "is_free (hmem s b) \<noteq> 0"
  shows "heap_inv (absorb_block a b s) (xs @ a # ys)"
    and "live (hmem (absorb_block a b s)) (set (xs @ a # ys)) = live (hmem s) (set (xs @ a # b # ys))"
    and "is_free (hmem (absorb_block a b s) a) = is_free (hmem s a)"
proof -
  let ?B = "set (xs @ a # b # ys)" and ?n = "bnext (hmem s b)" and ?t = "absorb_block a b s"
  have d: "distinct (xs @ a # b # ys)"
    by (rule heap_invD(3) [OF inv])
  have ab: "a \<in> ?B" "b \<in> ?B" "a \<noteq> b"
    using d by auto
  have bnd: "b + 32 + size (hmem s b) \<le> W64" "0 < a"
    using heap_block_bound(1) [OF inv ab(2)] heap_block_bound(2) [OF inv ab(1)] heap_invD(8) [OF inv] by auto
  then have ar: "add64 (size (hmem s a)) (add64 32 (size (hmem s b))) = size (hmem s a) + 32 + size (hmem s b)"
    using adj by (simp add: add64_W64)
  have "?n \<in> insert 0 (set ys)"
    using heap_next_facts(3) [of s "xs @ [a]" b ys] inv by simp
  then have nn: "?n \<noteq> a" "?n \<noteq> b"
    using d bnd(2) adj by auto
  have mem: "hmem ?t = (\<lambda>x. if x = a then (hmem s a)\<lparr>size := size (hmem s a) + 32 + size (hmem s b), bnext := ?n\<rparr>
      else if x = ?n \<and> ?n \<noteq> 0 then (hmem s ?n)\<lparr>bprev := a\<rparr> else hmem s x)"
    using nn by (auto simp: absorb_block_def Let_def ar fun_eq_iff)
  have oth: "same_block (hmem ?t x) (hmem s x)" if "x \<noteq> a" for x
    using that by (auto simp: mem same_block_def)
  have set: "set (xs @ a # ys) = ?B - {b}"
    using d by auto
  have inv': "blocks_inv (hmem ?t) (?B - {b}) (region (g_hhdm_base s) (hpmm s))"
    and tot: "total_of (hmem ?t) (?B - {b}) = total_of (hmem s) ?B"
    by (rule blocks_inv_merge [OF heap_invD(5) [OF inv] ab(1,2) adj]; use oth in \<open>auto simp: mem\<close>)+
  have dl: "dl (hmem ?t) 0 (g_heap_head s) (xs @ a # ys) 0"
    by (rule dl_delete [OF heap_invD(4) [OF inv] d]) (use nn in \<open>auto simp: mem\<close>)
  have o2: "x \<noteq> a \<Longrightarrow> is_free (hmem ?t x) = is_free (hmem s x)"
    "x \<noteq> a \<Longrightarrow> size (hmem ?t x) = size (hmem s x)" for x
    using oth by (simp_all add: same_block_def)
  have fa: "is_free (hmem ?t a) = is_free (hmem s a)"
    by (simp add: mem)
  show lv: "live (hmem ?t) (set (xs @ a # ys)) = live (hmem s) ?B"
    unfolding set by (intro live_eqI) (metis Diff_iff fa free insertE o2 singletonD, metis fa free o2(2))
  show "heap_inv ?t (xs @ a # ys)"
    by (rule heap_inv_reorg [OF inv]) (use dl d inv' tot lv in \<open>auto simp: set simp del: set_append\<close>)
  show "is_free (hmem ?t a) = is_free (hmem s a)"
    by (rule fa)
qed

section \<open>Allocation keeps the invariant\<close>

lemma hhdm_ok_align: "hhdm_ok hh p \<Longrightarrow> 16 dvd hh" "hhdm_ok hh p \<Longrightarrow> 4096 \<le> hh"
proof -
  assume "hhdm_ok hh p"
  then have d: "4096 dvd hh" "0 < hh"
    by (simp_all add: hhdm_ok_def PAGE_SIZE_def)
  show "16 dvd hh"
    by (rule dvd_trans [OF _ d(1)]) simp
  show "4096 \<le> hh"
    using dvd_imp_le [OF d] .
qed

text \<open>A block changes hands: its header alone is rewritten, with the same size and links.\<close>

lemma heap_inv_mark:
  assumes inv: "heap_inv s bs" and c: "c \<in> set bs"
    and ok: "block_ok b" "size b = size (hmem s c)" "bnext b = bnext (hmem s c)" "bprev b = bprev (hmem s c)"
    and t: "hmem t = (hmem s)(c := b)" "hpmm t = hpmm s" "g_hhdm_base t = g_hhdm_base s"
      "g_heap_head t = g_heap_head s" "g_heap_total_bytes t = g_heap_total_bytes s"
      "g_heap_allocated_bytes t = alloc_of (hmem t) (set bs)"
  shows "heap_inv t bs"
proof -
  have e: "ext (hmem t) x = ext (hmem s) x" "size (hmem t x) = size (hmem s x)" for x
    using ok(2) by (auto simp: t ext_def)
  have "blocks_inv (hmem t) (set bs) (region (g_hhdm_base s) (hpmm s))"
    using heap_invD(5) [OF inv] ok(1) by (simp add: blocks_inv_def e) (simp add: t(1))
  moreover have "dl (hmem t) 0 (g_heap_head s) bs 0"
    using heap_invD(4) [OF inv] dl_cong [of bs "hmem t" "hmem s" 0 "g_heap_head s" 0] ok(3,4)
    by (auto simp: t(1))
  moreover have "total_of (hmem t) (set bs) = total_of (hmem s) (set bs)"
    by (simp add: total_of_def e)
  ultimately show ?thesis
    using inv t by (simp add: heap_inv_def)
qed

lemma alloc_of_remove:
  "finite B \<Longrightarrow> c \<in> B \<Longrightarrow> alloc_of m B = (if is_free (m c) = 0 then size (m c) else 0) + alloc_of m (B - {c})"
  unfolding alloc_of_def by (rule sum.remove)

lemma alloc_of_upd:
  assumes "finite B" "c \<in> B"
  shows "alloc_of (m(c := b)) B = (if is_free b = 0 then size b else 0) + alloc_of m (B - {c})"
proof -
  have "alloc_of (m(c := b)) (B - {c}) = alloc_of m (B - {c})"
    unfolding alloc_of_def by (rule sum.cong) auto
  then show ?thesis
    using alloc_of_remove [OF assms, of "m(c := b)"] by simp
qed

lemma mark_alloc_inv:
  assumes inv: "heap_inv s bs" and c: "c \<in> set bs" "is_free (hmem s c) \<noteq> 0"
  defines "t \<equiv> (upd_block c (\<lambda>b. b\<lparr>is_free := 0, magic := HEAP_MAGIC_ALLOC\<rparr>) s)
      \<lparr>g_heap_allocated_bytes := add64 (g_heap_allocated_bytes s) (size (hmem s c))\<rparr>"
  shows "heap_inv t bs" "live (hmem t) (set bs) = insert (c, size (hmem s c)) (live (hmem s) (set bs))"
proof -
  let ?b = "(hmem s c)\<lparr>is_free := 0, magic := HEAP_MAGIC_ALLOC\<rparr>"
  have m: "hmem t = (hmem s)(c := ?b)"
    by (simp add: t_def)
  have al: "alloc_of (hmem t) (set bs) = alloc_of (hmem s) (set bs) + size (hmem s c)"
    using alloc_of_upd [of "set bs" c "hmem s" ?b] alloc_of_remove [of "set bs" c "hmem s"] c by (simp add: m)
  have "total_of (hmem t) (set bs) = total_of (hmem s) (set bs)"
    by (auto simp: total_of_def m intro: sum.cong)
  then have "alloc_of (hmem s) (set bs) + size (hmem s c) < W64"
    using alloc_of_le_total [of "hmem t" "set bs"] heap_total_bound [OF inv] al by linarith
  then have g: "g_heap_allocated_bytes t = alloc_of (hmem t) (set bs)"
    using heap_invD(7) [OF inv] al by (simp add: t_def add64_W64)
  have "block_ok ?b"
    using blocks_invD(1) [OF heap_invD(5) [OF inv] c(1)] by (simp add: block_ok_def)
  then show "heap_inv t bs"
    by (rule heap_inv_mark [OF inv c(1) _ _ _ _ m]) (simp_all add: g, simp_all add: t_def)
  show "live (hmem t) (set bs) = insert (c, size (hmem s c)) (live (hmem s) (set bs))"
  proof (rule set_eqI)
    fix x
    show "x \<in> live (hmem t) (set bs) \<longleftrightarrow> x \<in> insert (c, size (hmem s c)) (live (hmem s) (set bs))"
      by (cases x) (use c in \<open>auto simp: live_iff m\<close>)
  qed
qed

lemma mark_free_inv:
  assumes inv: "heap_inv s bs" and c: "c \<in> set bs" "is_free (hmem s c) = 0"
  defines "t \<equiv> (upd_block c (\<lambda>b. b\<lparr>is_free := 1, magic := HEAP_MAGIC_FREE\<rparr>) s)
      \<lparr>g_heap_allocated_bytes := sub64 (g_heap_allocated_bytes s) (size (hmem s c))\<rparr>"
  shows "heap_inv t bs" "live (hmem t) (set bs) = live (hmem s) (set bs) - {(c, size (hmem s c))}"
proof -
  let ?b = "(hmem s c)\<lparr>is_free := 1, magic := HEAP_MAGIC_FREE\<rparr>"
  have m: "hmem t = (hmem s)(c := ?b)"
    by (simp add: t_def)
  have al: "alloc_of (hmem s) (set bs) = alloc_of (hmem t) (set bs) + size (hmem s c)"
    using alloc_of_upd [of "set bs" c "hmem s" ?b] alloc_of_remove [of "set bs" c "hmem s"] c by (simp add: m)
  then have "alloc_of (hmem t) (set bs) + size (hmem s c) < W64"
    using alloc_of_le_total [of "hmem s" "set bs"] heap_total_bound [OF inv] by linarith
  then have "sub64 (alloc_of (hmem s) (set bs)) (size (hmem s c)) = alloc_of (hmem t) (set bs)"
    unfolding al by (subst sub64_W64) auto
  moreover have "g_heap_allocated_bytes t = sub64 (alloc_of (hmem s) (set bs)) (size (hmem s c))"
    by (simp add: t_def heap_invD(7) [OF inv])
  ultimately have g: "g_heap_allocated_bytes t = alloc_of (hmem t) (set bs)"
    by (rule trans [rotated])
  have "block_ok ?b"
    using blocks_invD(1) [OF heap_invD(5) [OF inv] c(1)] by (simp add: block_ok_def)
  then show "heap_inv t bs"
    by (rule heap_inv_mark [OF inv c(1) _ _ _ _ m]) (simp_all add: g, simp_all add: t_def)
  show "live (hmem t) (set bs) = live (hmem s) (set bs) - {(c, size (hmem s c))}"
  proof (rule set_eqI)
    fix x
    show "x \<in> live (hmem t) (set bs) \<longleftrightarrow> x \<in> live (hmem s) (set bs) - {(c, size (hmem s c))}"
      by (cases x) (use c in \<open>auto simp: live_iff m\<close>)
  qed
qed

lemma take_block_inv:
  assumes inv: "heap_inv s bs" and c: "c \<in> set bs" "is_free (hmem s c) \<noteq> 0"
    and sz: "16 dvd sz" "sz \<le> size (hmem s c)" "0 < sz"
  obtains t bs' z where "take_block c sz s = (c + 32, t)" "heap_inv t bs'" "sz \<le> z" "z < sz + 48"
    "live (hmem t) (set bs') = insert (c, z) (live (hmem s) (set bs))" "c \<in> set bs'" "size (hmem t c) = z"
    "hdata t = hdata s" "hpmm t = hpmm s" "g_hhdm_base t = g_hhdm_base s"
    "\<forall>b \<in> set bs - {c}. size (hmem t b) = size (hmem s b)"
proof -
  have bnd: "c + 32 + size (hmem s c) \<le> W64" "4096 \<le> c"
    using heap_block_bound [OF inv c(1)] hhdm_ok_align(2) [OF heap_invD(2) [OF inv]] by auto
  then have ar: "add64 (add64 sz 32) 16 = sz + 48" "add64 c 32 = c + 32"
    using sz(2,3) by (simp_all add: add64_W64)
  obtain xs ys where bs: "bs = xs @ c # ys"
    using split_list [OF c(1)] by blast
  define s1 where "s1 = (if sz + 48 \<le> size (hmem s c) then split_block c sz s else s)"
  obtain bs' where s1: "heap_inv s1 bs'" "live (hmem s1) (set bs') = live (hmem s) (set bs)"
      "is_free (hmem s1 c) \<noteq> 0" "sz \<le> size (hmem s1 c)" "size (hmem s1 c) < sz + 48" "c \<in> set bs'"
      "\<forall>b \<in> set bs - {c}. size (hmem s1 b) = size (hmem s b)"
  proof (cases "sz + 48 \<le> size (hmem s c)")
    case True
    then have "sz + 32 \<le> size (hmem s c)"
      by simp
    note sp = split_block_inv [OF inv [unfolded bs] sz(1) this c(2), folded bs]
    have s1: "s1 = split_block c sz s"
      using True by (simp add: s1_def)
    show thesis
      by (rule that [OF sp(1,2) [folded s1]], unfold s1) (use sp(3,4,5) c(2) in auto)
  next
    case False
    then show thesis
      using that [of bs] inv c sz(2) by (simp add: s1_def)
  qed
  have s1sel: "hdata s1 = hdata s" "hpmm s1 = hpmm s" "g_hhdm_base s1 = g_hhdm_base s"
    by (simp_all add: s1_def)
  define t where "t = (upd_block c (\<lambda>b. b\<lparr>is_free := 0, magic := HEAP_MAGIC_ALLOC\<rparr>) s1)
      \<lparr>g_heap_allocated_bytes := add64 (g_heap_allocated_bytes s1) (size (hmem s1 c))\<rparr>"
  have "take_block c sz s = (c + 32, t)"
    by (simp add: take_block_def Let_def ar s1_def t_def)
  moreover have "heap_inv t bs'" "live (hmem t) (set bs') = insert (c, size (hmem s1 c)) (live (hmem s) (set bs))"
    using mark_alloc_inv [OF s1(1,6,3)] s1(2) by (simp_all add: t_def)
  moreover have "size (hmem t c) = size (hmem s1 c)" "hdata t = hdata s" "hpmm t = hpmm s"
    "g_hhdm_base t = g_hhdm_base s" "\<forall>b \<in> set bs - {c}. size (hmem t b) = size (hmem s b)"
    using s1(7) by (simp_all add: t_def s1sel)
  ultimately show thesis
    by (intro that [of t bs' "size (hmem s1 c)"] s1(4,5,6))
qed

section \<open>Growing keeps the invariant\<close>

lemma run_region:
  "(\<Union>f \<in> run_frames a n. {hh + f..<hh + f + PAGE_SIZE}) = {hh + a..<hh + a + n * PAGE_SIZE}"
proof (induction n)
  case 0
  then show ?case
    by (simp add: run_frames_def)
next
  case (Suc n)
  have "run_frames a (Suc n) = insert (a + n * PAGE_SIZE) (run_frames a n)"
    by (auto simp: run_frames_def lessThan_Suc)
  then show ?case
    using Suc.IH by auto
qed

definition expand_pages :: "nat \<Rightarrow> nat" where
  "expand_pages sz = ALIGN_UP (sz + 32) PAGE_SIZE div PAGE_SIZE"

lemma expand_size:
  assumes "sz + 32 + PAGE_SIZE \<le> W64"
  shows "ALIGN_UP (add64 sz 32) PAGE_SIZE = expand_pages sz * PAGE_SIZE"
    "sz + 32 \<le> expand_pages sz * PAGE_SIZE" "expand_pages sz * PAGE_SIZE < W64"
proof -
  have a: "add64 sz 32 = sz + 32"
    by (rule add64_W64) (use assms PAGE_SIZE_pos in linarith)
  show e: "ALIGN_UP (add64 sz 32) PAGE_SIZE = expand_pages sz * PAGE_SIZE"
    using ALIGN_UP_dvd [of PAGE_SIZE "sz + 32"] by (simp add: a expand_pages_def)
  show "sz + 32 \<le> expand_pages sz * PAGE_SIZE" "expand_pages sz * PAGE_SIZE < W64"
    using ALIGN_UP_bounds [OF PAGE_SIZE_pos(1) assms] assms unfolding e [symmetric] a by linarith+
qed

text \<open>What the page allocator's contract says about the new memory.\<close>

lemma expand_memory:
  assumes inv: "heap_inv s bs" and al: "pmm_alloc_pages n (hpmm s) = (a, p)" "a \<noteq> 0"
  defines "v \<equiv> g_hhdm_base s + a"
  shows "pmm_inv p" "hhdm_ok (g_hhdm_base s) p" "16 dvd v" "4096 \<le> v"
    "region (g_hhdm_base s) (hpmm s) \<subseteq> region (g_hhdm_base s) p"
    "{v..<v + n * PAGE_SIZE} \<subseteq> region (g_hhdm_base s) p"
    "region (g_hhdm_base s) (hpmm s) \<inter> {v..<v + n * PAGE_SIZE} = {}"
proof -
  note f = pr.alloc_run_fresh [OF heap_invD(1) [OF inv] al]
  let ?R = "\<Union>f \<in> run_frames a n. {g_hhdm_base s + f..<g_hhdm_base s + f + PAGE_SIZE}"
  have r: "?R = {v..<v + n * PAGE_SIZE}"
    unfolding run_region v_def by simp
  show "pmm_inv p"
    by (rule f(3))
  show h: "hhdm_ok (g_hhdm_base s) p"
    using heap_invD(2) [OF inv] pmm_alloc_pages_total [OF heap_invD(1) [OF inv], of n] al
    by (simp add: hhdm_ok_def)
  have "(16::nat) dvd a"
    by (rule dvd_trans [OF _ f(4)]) (simp add: PAGE_SIZE_def)
  then show "16 dvd v" "4096 \<le> v"
    using hhdm_ok_align [OF h] by (simp_all add: v_def)
  have u: "region (g_hhdm_base s) p = region (g_hhdm_base s) (hpmm s) \<union> ?R"
    by (simp add: region_def f(2))
  then show "region (g_hhdm_base s) (hpmm s) \<subseteq> region (g_hhdm_base s) p"
    "{v..<v + n * PAGE_SIZE} \<subseteq> region (g_hhdm_base s) p"
    unfolding r by auto
  have "\<forall>f \<in> run_frames a n. PAGE_SIZE dvd f"
    using f(4) by (auto simp: run_frames_def)
  then show "region (g_hhdm_base s) (hpmm s) \<inter> {v..<v + n * PAGE_SIZE} = {}"
    using region_disjoint [OF f(1), of "g_hhdm_base s"] unfolding r by blast
qed

text \<open>Appending a free block in fresh memory.\<close>

lemma heap_inv_append:
  assumes inv: "heap_inv s bs" and new: "region (g_hhdm_base s) (hpmm s) \<inter> {v..<v + S} = {}"
      "{v..<v + S} \<subseteq> region (g_hhdm_base s) p" "region (g_hhdm_base s) (hpmm s) \<subseteq> region (g_hhdm_base s) p"
      "pmm_inv p" "hhdm_ok (g_hhdm_base s) p" "16 dvd v" "4096 \<le> v" "16 dvd S" "32 \<le> S"
    and t: "hpmm t = p" "g_hhdm_base t = g_hhdm_base s"
      "g_heap_head t = (if bs = [] then v else g_heap_head s)"
      "g_heap_total_bytes t = add64 (g_heap_total_bytes s) S" "g_heap_allocated_bytes t = g_heap_allocated_bytes s"
    and v: "hmem t v = \<lparr>magic = HEAP_MAGIC_FREE, is_free = 1, size = S - 32, bnext = 0, bprev = last (0 # bs)\<rparr>"
    and l: "bs \<noteq> [] \<Longrightarrow> hmem t (last bs) = (hmem s (last bs))\<lparr>bnext := v\<rparr>"
    and oth: "\<And>x. x \<in> set bs \<Longrightarrow> x \<noteq> last bs \<Longrightarrow> hmem t x = hmem s x"
  shows "heap_inv t (bs @ [v])" "live (hmem t) (set (bs @ [v])) = live (hmem s) (set bs)"
    "\<forall>b \<in> set bs. size (hmem t b) = size (hmem s b)"
proof -
  let ?R = "region (g_hhdm_base s) p"
  have sb: "same_block (hmem t b) (hmem s b)" if "b \<in> set bs" for b
  proof (cases "b = last bs")
    case True
    have "bs \<noteq> []"
      using that by auto
    then show ?thesis
      using l True by (simp add: same_block_def)
  qed (simp add: oth [OF that] same_block_def)
  have e: "ext (hmem t) v = {v..<v + S}"
    using new(9) by (simp add: ext_def v)
  have "16 dvd S - 32"
    using new(8,9) by simp
  then have ok: "block_ok (hmem t v)"
    by (simp add: v block_ok_def)
  have "blocks_inv (hmem t) (set bs) (region (g_hhdm_base s) (hpmm s))"
    by (rule blocks_inv_cong [OF heap_invD(5) [OF inv] sb])
  note add = blocks_inv_add [OF this ok new(6) _ _ new(3), unfolded e, OF new(2,1)]
  note bi = add(1) and vn = add(2)
  have tot: "total_of (hmem t) (insert v (set bs)) = total_of (hmem s) (set bs) + S"
    using vn sums_cong(1) [OF sb] new(9) by (simp add: total_of_def v)
  have "total_of (hmem t) (insert v (set bs)) \<le> W64 - g_hhdm_base s"
    by (rule total_of_bound [OF blocks_inv_mono [OF bi region_bounds [OF new(5)]]])
  then have "total_of (hmem s) (set bs) + S < W64"
    unfolding tot using heap_invD(8) [OF inv] W64_pos(1) by linarith
  then have tb: "g_heap_total_bytes t = total_of (hmem t) (insert v (set bs))"
    unfolding tot t(4) heap_invD(6) [OF inv] by (rule add64_W64)
  show lv: "live (hmem t) (set (bs @ [v])) = live (hmem s) (set bs)"
    by (rule live_eqI) (use sb vn in \<open>auto simp: v same_block_def\<close>)
  have dl: "dl (hmem t) 0 (g_heap_head t) (bs @ [v]) 0"
    unfolding t(3) by (rule dl_snoc [OF heap_invD(4,3) [OF inv] vn]) (use new(7) v l oth in auto)
  have al: "g_heap_allocated_bytes t = alloc_of (hmem t) (set (bs @ [v]))"
    using lv heap_invD(7) [OF inv] by (simp add: alloc_of_live t)
  show "heap_inv t (bs @ [v])"
    unfolding heap_inv_def using dl al bi tb new(4,5) vn heap_invD(3) [OF inv] by (simp add: t)
  show "\<forall>b \<in> set bs. size (hmem t b) = size (hmem s b)"
    using sb by (simp add: same_block_def)
qed

text \<open>The code's writes when the page allocator delivers the run at \<open>a\<close>.\<close>

lemma heap_expand_grown:
  assumes dl: "dl (hmem s) 0 (g_heap_head s) bs 0" and sz: "sz + 32 + PAGE_SIZE \<le> W64"
    and al: "pmm_alloc_pages (expand_pages sz) (hpmm s) = (a, p)" "a \<noteq> 0"
    and v: "PHYS_TO_VIRT s a = v" "v \<notin> set bs"
  defines "S \<equiv> expand_pages sz * PAGE_SIZE"
  obtains t where "heap_expand sz s = Some t" "hdata t = hdata s"
    "hpmm t = p" "g_hhdm_base t = g_hhdm_base s" "g_heap_head t = (if bs = [] then v else g_heap_head s)"
    "g_heap_total_bytes t = add64 (g_heap_total_bytes s) S" "g_heap_allocated_bytes t = g_heap_allocated_bytes s"
    "hmem t v = \<lparr>magic = HEAP_MAGIC_FREE, is_free = 1, size = S - 32, bnext = 0, bprev = last (0 # bs)\<rparr>"
    "bs \<noteq> [] \<Longrightarrow> hmem t (last bs) = (hmem s (last bs))\<lparr>bnext := v\<rparr>"
    "\<And>x. x \<in> set bs \<Longrightarrow> x \<noteq> last bs \<Longrightarrow> hmem t x = hmem s x"
proof -
  note S = expand_size [OF sz, folded S_def]
  have sub: "sub64 S 32 = S - 32"
    by (rule sub64_W64) (use S in linarith)+
  have n: "S div PAGE_SIZE = expand_pages sz"
    by (simp add: S_def)
  let ?m = "(hmem s)(v := \<lparr>magic = HEAP_MAGIC_FREE, is_free = 1, size = S - 32, bnext = 0, bprev = 0\<rparr>)"
  show thesis
  proof (cases "bs = []")
    case True
    then have "g_heap_head s = 0"
      using dl by simp
    then show thesis
      using True al v by (intro that) (simp add: heap_expand_def Let_def S(1) n sub, auto)
  next
    case False
    have "g_heap_head s \<noteq> 0"
      using dl False by (cases bs) auto
    moreover have "heap_last ?m (g_heap_head s) = Some (last bs)"
      by (rule heap_last_eq [OF _ False]) (use dl v(2) in \<open>subst dl_cong, auto\<close>)
    moreover have "last bs \<noteq> v"
      using v(2) False by auto
    ultimately show thesis
      using False al v by (intro that) (simp add: heap_expand_def Let_def S(1) n sub, auto)
  qed
qed

lemma heap_expand_cases:
  assumes inv: "heap_inv s bs" and sz: "sz + 32 + PAGE_SIZE \<le> W64"
  obtains
    (full) "fst (pmm_alloc_pages (expand_pages sz) (hpmm s)) = 0" "heap_expand sz s = Some s"
  | (grown) t v where "fst (pmm_alloc_pages (expand_pages sz) (hpmm s)) \<noteq> 0" "heap_expand sz s = Some t"
      "heap_inv t (bs @ [v])" "live (hmem t) (set (bs @ [v])) = live (hmem s) (set bs)"
      "is_free (hmem t v) = 1" "sz \<le> size (hmem t v)" "hdata t = hdata s"
      "\<forall>b \<in> set bs. size (hmem t b) = size (hmem s b)" "v \<notin> set bs"
proof -
  let ?S = "expand_pages sz * PAGE_SIZE"
  note S = expand_size [OF sz]
  obtain a p where al: "pmm_alloc_pages (expand_pages sz) (hpmm s) = (a, p)"
    by fastforce
  show thesis
  proof (cases "a = 0")
    case True
    then have "p = hpmm s"
      using pr.alloc_run_cases [OF heap_invD(1) [OF inv] al] by simp
    then have "heap_expand sz s = Some s"
      using al True by (simp add: heap_expand_def Let_def S(1))
    then show thesis
      using full al True by simp
  next
    case False
    define v where "v = g_hhdm_base s + a"
    note mem = expand_memory [OF inv al False, folded v_def]
    have "v \<in> {v..<v + ?S}"
      unfolding atLeastLessThan_iff using S(2) by linarith
    then have vR: "v \<in> region (g_hhdm_base s) p" "v \<notin> region (g_hhdm_base s) (hpmm s)"
      using mem(6,7) by blast+
    then have "v < W64"
      using region_bounds [OF mem(2)] by auto
    then have pv: "PHYS_TO_VIRT s a = v"
      by (simp add: PHYS_TO_VIRT_def v_def add.commute add64_W64)
    have vn: "v \<notin> set bs"
      using blocks_invD(3) [OF heap_invD(5) [OF inv], of v] vR(2) ext_self [of v "hmem s"] by blast
    obtain t where t: "heap_expand sz s = Some t" "hdata t = hdata s"
      and w: "hpmm t = p" "g_hhdm_base t = g_hhdm_base s" "g_heap_head t = (if bs = [] then v else g_heap_head s)"
        "g_heap_total_bytes t = add64 (g_heap_total_bytes s) ?S" "g_heap_allocated_bytes t = g_heap_allocated_bytes s"
      and m: "hmem t v = \<lparr>magic = HEAP_MAGIC_FREE, is_free = 1, size = ?S - 32, bnext = 0, bprev = last (0 # bs)\<rparr>"
        "bs \<noteq> [] \<Longrightarrow> hmem t (last bs) = (hmem s (last bs))\<lparr>bnext := v\<rparr>"
        "\<And>x. x \<in> set bs \<Longrightarrow> x \<noteq> last bs \<Longrightarrow> hmem t x = hmem s x"
      using heap_expand_grown [OF heap_invD(4) [OF inv] sz al False pv vn] by metis
    have d: "16 dvd ?S" "32 \<le> ?S"
      using S(2) by (simp_all add: PAGE_SIZE_def)
    note ap = heap_inv_append [OF inv mem(7,6,5,1-4) d w m]
    show thesis
      by (rule grown [OF _ t(1) ap(1,2) _ _ t(2) ap(3) vn]) (use al False m(1) S(2) in simp_all)
  qed
qed

section \<open>The allocation and release functions\<close>

lemma live_disjoint:
  assumes "heap_inv s bs" and "(b, z) \<in> live (hmem s) (set bs)" and "(c, y) \<in> live (hmem s) (set bs)" and "b \<noteq> c"
  shows "{b..<b + 32 + z} \<inter> {c..<c + 32 + y} = {}"
  using blocks_invD(4) [OF heap_invD(5) [OF assms(1)], of c b] assms(2-4)
  by (auto simp: live_iff ext_def)

definition fits :: "heap \<Rightarrow> nat \<Rightarrow> nat \<Rightarrow> bool" where
  "fits s sz b \<longleftrightarrow> is_free (hmem s b) \<noteq> 0 \<and> sz \<le> size (hmem s b)"

lemma heap_find_fits:
  assumes "heap_inv s bs"
  obtains (none) "heap_find (hmem s) sz (g_heap_head s) = Some 0" "\<forall>b \<in> set bs. \<not> fits s sz b"
  | (hit) b where "heap_find (hmem s) sz (g_heap_head s) = Some b" "b \<in> set bs" "b \<noteq> 0" "fits s sz b"
proof (cases "find (\<lambda>b. is_free (hmem s b) \<noteq> 0 \<and> sz \<le> size (hmem s b)) bs")
  case None
  then have "\<forall>b \<in> set bs. \<not> fits s sz b"
    by (auto simp: find_None_iff fits_def)
  then show thesis
    using heap_find_eq [OF heap_invD(4) [OF assms], of sz] None by (intro none) simp_all
next
  case (Some b)
  then have "b \<in> set bs" "fits s sz b"
    by (auto simp: find_Some_iff fits_def)
  then show thesis
    using heap_find_eq [OF heap_invD(4) [OF assms], of sz] Some dl_nonzero [OF heap_invD(4) [OF assms]]
    by (intro hit [of b]) auto
qed

text \<open>What a successful allocation of at least \<open>sz\<close> bytes is.\<close>

definition grants :: "heap \<Rightarrow> nat list \<Rightarrow> nat \<Rightarrow> nat \<Rightarrow> heap \<Rightarrow> bool" where
  "grants s bs sz ptr t \<longleftrightarrow> (\<exists>b z bs'. ptr = b + 32 \<and> heap_inv t bs' \<and> sz \<le> z \<and> 16 dvd ptr \<and>
     b \<notin> fst ` live (hmem s) (set bs) \<and>
     live (hmem t) (set bs') = insert (b, z) (live (hmem s) (set bs)) \<and> hdata t = hdata s)"

lemma take_block_grants:
  assumes inv: "heap_inv s bs" and c: "c \<in> set bs" "fits s sz c" and sz: "16 dvd sz" "0 < sz"
    and t: "take_block c sz s = (ptr, t)"
  shows "grants s bs sz ptr t"
proof -
  have f: "is_free (hmem s c) \<noteq> 0" "sz \<le> size (hmem s c)"
    using c(2) by (simp_all add: fits_def)
  from take_block_inv [OF inv c(1) f(1) sz(1) f(2) sz(2)] t
  obtain bs' z where b: "ptr = c + 32" "heap_inv t bs'" "sz \<le> z"
      "live (hmem t) (set bs') = insert (c, z) (live (hmem s) (set bs))" "hdata t = hdata s"
    by (metis Pair_inject)
  have "16 dvd ptr"
    using blocks_invD(2) [OF heap_invD(5) [OF inv] c(1)] b(1) by (simp add: dvd_add)
  moreover have "c \<notin> fst ` live (hmem s) (set bs)"
    using f(1) by (auto simp: live_def)
  ultimately show ?thesis
    unfolding grants_def using b by blast
qed

lemma kmalloc_size:
  assumes "0 < sz" "sz \<le> 2 ^ 62"
  shows "16 dvd ALIGN_UP sz 16" "0 < ALIGN_UP sz 16" "sz \<le> ALIGN_UP sz 16"
    "mul64 (ALIGN_UP sz 16) 2 = 2 * ALIGN_UP sz 16" "2 * ALIGN_UP sz 16 + 32 + PAGE_SIZE \<le> W64"
proof -
  have w: "2 * sz + 2 * 16 + 32 + 4096 \<le> W64"
    using assms(2) by (simp add: W64_def)
  then have b: "sz \<le> ALIGN_UP sz 16" "ALIGN_UP sz 16 < sz + 16"
    using ALIGN_UP_bounds [of 16 sz] by simp_all
  show "16 dvd ALIGN_UP sz 16" "0 < ALIGN_UP sz 16" "sz \<le> ALIGN_UP sz 16"
    using ALIGN_UP_dvd assms(1) b(1) by simp_all
  show "2 * ALIGN_UP sz 16 + 32 + PAGE_SIZE \<le> W64"
    unfolding PAGE_SIZE_def using w b by linarith
  show "mul64 (ALIGN_UP sz 16) 2 = 2 * ALIGN_UP sz 16"
    by (subst mul64_W64) (use w b in linarith)+
qed

lemma grants_mono: "grants s bs sz ptr t \<Longrightarrow> sz' \<le> sz \<Longrightarrow> grants s bs sz' ptr t"
  unfolding grants_def using order_trans by blast

lemma kmalloc_cases:
  assumes inv: "heap_inv s bs" and sz: "0 < sz" "sz \<le> 2 ^ 62"
  defines "z \<equiv> ALIGN_UP sz 16"
  obtains (ok) ptr t where "kmalloc sz s = Ret (ptr, t)" "grants s bs sz ptr t"
  | (oom) "kmalloc sz s = Panic ''Heap: Out of memory during kmalloc''" "\<forall>b \<in> set bs. \<not> fits s z b"
      "fst (pmm_alloc_pages (expand_pages (2 * z)) (hpmm s)) = 0"
proof -
  note z = kmalloc_size [OF sz, folded z_def]
  show thesis
  proof (cases rule: heap_find_fits [OF inv, of z, case_names none hit])
    case (hit b)
    obtain ptr t where t: "take_block b z s = (ptr, t)"
      by fastforce
    have "kmalloc sz s = Ret (ptr, t)"
      using hit t sz(1) z_def by (simp add: kmalloc_def)
    then show thesis
      using ok grants_mono [OF take_block_grants [OF inv hit(2,4) z(1,2) t] z(3)] by blast
  next
    case none
    show thesis
    proof (cases rule: heap_expand_cases [OF inv z(5), case_names full grown])
      case full
      then show thesis
        using none sz(1) z z_def by (intro oom) (simp_all add: kmalloc_def)
    next
      case (grown u v)
      have v: "v \<in> set (bs @ [v])" "fits u z v"
        using grown(5,6) by (simp_all add: fits_def)
      obtain b where b: "heap_find (hmem u) z (g_heap_head u) = Some b" "b \<in> set (bs @ [v])" "b \<noteq> 0" "fits u z b"
        using heap_find_fits [OF grown(3), of z] v by metis
      obtain ptr t where t: "take_block b z u = (ptr, t)"
        by fastforce
      have "kmalloc sz s = Ret (ptr, t)"
        using none grown(2) b t sz(1) z(4) z_def by (simp add: kmalloc_def)
      moreover have "grants s bs z ptr t"
        using take_block_grants [OF grown(3) b(2,4) z(1,2) t] grown(4,7) by (simp add: grants_def)
      ultimately show thesis
        using ok grants_mono [OF _ z(3)] by blast
    qed
  qed
qed

lemma block_end:
  assumes "b + 32 + z \<le> W64" and "add64 (add64 b 32) z \<noteq> 0"
  shows "add64 (add64 b 32) z = b + 32 + z"
proof -
  have "add64 (add64 b 32) z = (b + 32 + z) mod W64"
    unfolding add64_def W64_def by (rule mod_add_left_eq)
  with assms show ?thesis
    by (cases "b + 32 + z = W64") auto
qed

lemma coalesce_next_inv:
  assumes inv: "heap_inv s (xs @ b # ys)" and free: "is_free (hmem s b) \<noteq> 0"
  obtains ys' where "heap_inv (coalesce_next b s) (xs @ b # ys')" "is_free (hmem (coalesce_next b s) b) \<noteq> 0"
    "live (hmem (coalesce_next b s)) (set (xs @ b # ys')) = live (hmem s) (set (xs @ b # ys))"
proof (cases "coalesce_next b s = s")
  case True
  then show thesis
    using that assms by simp
next
  case False
  let ?n = "bnext (hmem s b)"
  have bnd: "b + 32 + size (hmem s b) \<le> W64"
    using heap_block_bound(1) [OF inv, of b] by simp
  have n: "?n \<noteq> 0" "is_free (hmem s ?n) \<noteq> 0" "?n = add64 (add64 b 32) (size (hmem s b))"
    and e: "coalesce_next b s = absorb_block b ?n s"
    using False by (auto simp: coalesce_next_def Let_def split: if_splits)
  obtain ys' where ys: "ys = ?n # ys'"
    using heap_next_facts(1) [OF inv] n(1) by (cases ys) auto
  have "?n = b + 32 + size (hmem s b)"
    unfolding n(3) by (rule block_end [OF bnd]) (use n(1,3) in simp)
  then show thesis
    using that [of ys'] absorb_block_inv [of s xs b ?n ys'] inv free n(2) ys e by simp
qed

lemma coalesce_prev_inv:
  assumes inv: "heap_inv s (xs @ b # ys)" and free: "is_free (hmem s b) \<noteq> 0"
  obtains bs' where "heap_inv (coalesce_prev b s) bs'"
    "live (hmem (coalesce_prev b s)) (set bs') = live (hmem s) (set (xs @ b # ys))"
proof (cases "coalesce_prev b s = s")
  case True
  then show thesis
    using that assms by simp
next
  case False
  let ?p = "bprev (hmem s b)"
  have p: "?p \<noteq> 0" "is_free (hmem s ?p) \<noteq> 0" "b = add64 (add64 ?p 32) (size (hmem s ?p))"
    and e: "coalesce_prev b s = absorb_block ?p b s"
    using False by (auto simp: coalesce_prev_def Let_def split: if_splits)
  have "?p = last (0 # xs)"
    using dl_middle(1) [OF heap_invD(4) [OF inv]] .
  then obtain xs' where xs: "xs = xs' @ [?p]"
    using p(1) by (cases xs rule: rev_cases) auto
  have bnd: "?p + 32 + size (hmem s ?p) \<le> W64"
    by (rule heap_block_bound(1) [OF inv]) (subst xs, simp)
  have "b = ?p + 32 + size (hmem s ?p)"
    by (subst p(3), rule block_end [OF bnd]) (use p(3) dl_middle(3) [OF heap_invD(4) [OF inv]] in simp)
  moreover have "xs @ b # ys = xs' @ ?p # b # ys"
    by (subst xs) simp
  ultimately show thesis
    using that [of "xs' @ ?p # ys"] absorb_block_inv [of s xs' ?p b ys] inv free p(2) e by simp
qed

lemma coalesce_sel [simp]:
  "hdata (coalesce_next b s) = hdata s" "hdata (coalesce_prev b s) = hdata s"
  "hpmm (coalesce_next b s) = hpmm s" "hpmm (coalesce_prev b s) = hpmm s"
  "magic (hmem (coalesce_next b s) x) = magic (hmem s x)" "magic (hmem (coalesce_prev b s) x) = magic (hmem s x)"
  by (simp_all add: coalesce_next_def coalesce_prev_def absorb_block_def Let_def)

lemma live_ptr:
  assumes "heap_inv s bs" and "(b, z) \<in> live (hmem s) (set bs)"
  shows "sub64 (b + 32) 32 = b" "size (hmem s b) = z"
proof -
  have "b + 32 \<le> W64"
    using heap_block_bound(1) [OF assms(1), of b] assms(2) by (simp add: live_iff)
  then show "sub64 (b + 32) 32 = b"
    by (simp add: sub64_def W64_def)
  show "size (hmem s b) = z"
    using assms(2) by (simp add: live_iff)
qed

lemma kfree_inv:
  assumes inv: "heap_inv s bs" and b: "(b, z) \<in> live (hmem s) (set bs)"
  obtains bs' where "heap_inv (kfree (b + 32) s) bs'"
    "live (hmem (kfree (b + 32) s)) (set bs') = live (hmem s) (set bs) - {(b, z)}"
    "hdata (kfree (b + 32) s) = hdata s" "hpmm (kfree (b + 32) s) = hpmm s"
    "magic (hmem (kfree (b + 32) s) b) = HEAP_MAGIC_FREE"
proof -
  have l: "b \<in> set bs" "is_free (hmem s b) = 0" "z = size (hmem s b)"
    using b by (simp_all add: live_iff)
  have al: "magic (hmem s b) = HEAP_MAGIC_ALLOC"
    using blocks_invD(1) [OF heap_invD(5) [OF inv] l(1)] l(2) by (simp add: block_ok_def)
  obtain xs ys where bs: "bs = xs @ b # ys"
    using split_list [OF l(1)] by blast
  note sub = live_ptr(1) [OF assms]
  define s2 where "s2 = (upd_block b (\<lambda>b. b\<lparr>is_free := 1, magic := HEAP_MAGIC_FREE\<rparr>) s)
      \<lparr>g_heap_allocated_bytes := sub64 (g_heap_allocated_bytes s) (size (hmem s b))\<rparr>"
  have k: "kfree (b + 32) s = coalesce_prev b (coalesce_next b s2)"
    by (simp add: kfree_def sub al s2_def Let_def)
  have s2: "heap_inv s2 (xs @ b # ys)" "live (hmem s2) (set (xs @ b # ys)) = live (hmem s) (set bs) - {(b, z)}"
    using mark_free_inv [OF inv l(1,2)] bs l(3) by (simp_all add: s2_def)
  have m: "is_free (hmem s2 b) \<noteq> 0" "magic (hmem s2 b) = HEAP_MAGIC_FREE" "hdata s2 = hdata s" "hpmm s2 = hpmm s"
    by (simp_all add: s2_def)
  from coalesce_next_inv [OF s2(1) m(1)] obtain ys' where
    y: "heap_inv (coalesce_next b s2) (xs @ b # ys')" "is_free (hmem (coalesce_next b s2) b) \<noteq> 0"
      "live (hmem (coalesce_next b s2)) (set (xs @ b # ys')) = live (hmem s) (set bs) - {(b, z)}"
    using s2(2) by metis
  from coalesce_prev_inv [OF y(1,2)] obtain bs' where
    "heap_inv (kfree (b + 32) s) bs'" "live (hmem (kfree (b + 32) s)) (set bs') = live (hmem s) (set bs) - {(b, z)}"
    unfolding k using y(3) by metis
  then show thesis
    by (rule that) (simp_all add: k m)
qed

lemma data_frame:
  assumes inv: "heap_inv t bs" and "(b, z) \<in> live (hmem t) (set bs)" "(c, y) \<in> live (hmem t) (set bs)" "b \<noteq> c"
    and "i < y" "n \<le> z"
  shows "\<not> (b + 32 \<le> c + 32 + i \<and> c + 32 + i < b + 32 + n)"
proof
  assume "b + 32 \<le> c + 32 + i \<and> c + 32 + i < b + 32 + n"
  then have "c + 32 + i \<in> {b..<b + 32 + z} \<inter> {c..<c + 32 + y}"
    using assms(5,6) by auto
  then show False
    using live_disjoint [OF assms(1-4)] by blast
qed

text \<open>Reading the payload of a block.\<close>

definition payload :: "heap \<Rightarrow> nat \<times> nat \<Rightarrow> u8 list" where
  "payload s = (\<lambda>(b, z). map (\<lambda>i. hdata s (b + 32 + i)) [0..<z])"

lemma payload_eqI: "(\<And>i. i < z \<Longrightarrow> hdata s (b + 32 + i) = hdata t (b + 32 + i)) \<Longrightarrow> payload s (b, z) = payload t (b, z)"
  by (simp add: payload_def)

lemma fill_bytes_inv [simp]: "heap_inv (fill_bytes p c n s) bs = heap_inv s bs" "hmem (fill_bytes p c n s) = hmem s"
  by (simp_all add: fill_bytes_def heap_inv_def)

lemma copy_bytes_inv [simp]: "heap_inv (copy_bytes d p n s) bs = heap_inv s bs" "hmem (copy_bytes d p n s) = hmem s"
  by (simp_all add: copy_bytes_def heap_inv_def)

lemma kzalloc_ok:
  assumes inv: "heap_inv s bs" and k: "kmalloc sz s = Ret (ptr, t)" "grants s bs sz ptr t"
  obtains b z u bs' where "kzalloc sz s = Ret (b + 32, u)" "heap_inv u bs'" "sz \<le> z"
    "b \<notin> fst ` live (hmem s) (set bs)" "live (hmem u) (set bs') = insert (b, z) (live (hmem s) (set bs))"
    "\<forall>i < sz. hdata u (b + 32 + i) = 0" "\<forall>x \<in> live (hmem s) (set bs). payload u x = payload s x"
proof -
  obtain b z bs' where b: "ptr = b + 32" "heap_inv t bs'" "sz \<le> z" "b \<notin> fst ` live (hmem s) (set bs)"
      "live (hmem t) (set bs') = insert (b, z) (live (hmem s) (set bs))" "hdata t = hdata s"
    using k(2) by (auto simp: grants_def)
  let ?u = "fill_bytes (b + 32) 0 sz t"
  have e: "kzalloc sz s = Ret (b + 32, ?u)"
    using k(1) b(1) by (simp add: kzalloc_def)
  have "payload ?u (c, y) = payload s (c, y)" if c: "(c, y) \<in> live (hmem s) (set bs)" for c y
  proof (rule payload_eqI)
    fix i
    assume "i < y"
    moreover have "b \<noteq> c"
      using c b(4) by force
    ultimately show "hdata ?u (c + 32 + i) = hdata s (c + 32 + i)"
      using data_frame [OF b(2), of b z c y i sz] c b(3,5,6) by (auto simp: fill_bytes_def)
  qed
  then have "\<forall>x \<in> live (hmem s) (set bs). payload ?u x = payload s x"
    by auto
  moreover have "\<forall>i < sz. hdata ?u (b + 32 + i) = 0"
    by (simp add: fill_bytes_def)
  ultimately show thesis
    using that [OF e _ b(3,4)] b(2,5) by simp
qed

lemma krealloc_moves:
  assumes inv: "heap_inv s bs" and b: "(b, z) \<in> live (hmem s) (set bs)" and n: "z < n"
    and k: "kmalloc n s = Ret (ptr, t)" "grants s bs n ptr t"
  obtains c y u bs' where "krealloc (b + 32) n s = Ret (c + 32, u)" "heap_inv u bs'" "n \<le> y"
    "c \<notin> fst ` live (hmem s) (set bs)" "live (hmem u) (set bs') = insert (c, y) (live (hmem s) (set bs) - {(b, z)})"
    "\<forall>i < z. hdata u (c + 32 + i) = hdata s (b + 32 + i)"
    "\<forall>x \<in> live (hmem s) (set bs) - {(b, z)}. payload u x = payload s x"
proof -
  obtain c y bs' where c: "ptr = c + 32" "heap_inv t bs'" "n \<le> y" "c \<notin> fst ` live (hmem s) (set bs)"
      "live (hmem t) (set bs') = insert (c, y) (live (hmem s) (set bs))" "hdata t = hdata s"
    using k(2) by (auto simp: grants_def)
  have bt: "(b, z) \<in> live (hmem t) (set bs')" "c \<noteq> b"
    using b c(4,5) by force+
  note sub = live_ptr(1) [OF inv b]
  have sz: "size (hmem s b) = z" "size (hmem t b) = z"
    using b bt by (simp_all add: live_iff)
  let ?t = "copy_bytes (c + 32) (b + 32) z t"
  have e: "krealloc (b + 32) n s = Ret (c + 32, kfree (b + 32) ?t)"
    using n k(1) c(1) by (simp add: krealloc_def sub sz)
  obtain bs'' where f: "heap_inv (kfree (b + 32) ?t) bs''" "hdata (kfree (b + 32) ?t) = hdata ?t"
      "live (hmem (kfree (b + 32) ?t)) (set bs'') = live (hmem t) (set bs') - {(b, z)}"
    using kfree_inv [of ?t bs' b z] c(2) bt(1) by (metis copy_bytes_inv)
  have fr: "hdata ?t (x + 32 + i) = hdata s (x + 32 + i)" if x: "(x, w) \<in> live (hmem s) (set bs)" "i < w" for x w i
  proof -
    have "c \<noteq> x"
      using x c(4) by force
    then show ?thesis
      using data_frame [OF c(2), of c y x w i z] x c(3,5,6) n by (auto simp: copy_bytes_def)
  qed
  show thesis
  proof (rule that [OF e f(1) c(3,4)])
    show "live (hmem (kfree (b + 32) ?t)) (set bs'') = insert (c, y) (live (hmem s) (set bs) - {(b, z)})"
      using f(3) c(5) bt(2) by auto
    show "\<forall>i < z. hdata (kfree (b + 32) ?t) (c + 32 + i) = hdata s (b + 32 + i)"
      unfolding f(2) using c(6) by (simp add: copy_bytes_def)
    show "\<forall>x \<in> live (hmem s) (set bs) - {(b, z)}. payload (kfree (b + 32) ?t) x = payload s x"
      using fr by (auto simp: f(2) intro!: payload_eqI)
  qed
qed

text \<open>An oversized request: rounding up to the alignment wraps to 0.\<close>

lemma ALIGN_UP_wraps:
  assumes "2 ^ 64 - 16 < sz" and "sz < 2 ^ 64"
  shows "ALIGN_UP sz 16 = 0"
proof -
  have "(sz + 15) mod 2 ^ 64 = sz + 15 - 2 ^ 64"
    using assms by (simp add: le_mod_geq)
  with assms show ?thesis
    by (simp add: ALIGN_UP_def add64_def)
qed

section \<open>A small heap\<close>

text \<open>Four pages of memory, of which page 1 holds an allocated block of 112 bytes and a free one.\<close>

definition two_blocks :: heap where
  "two_blocks = \<lparr>hmem = (\<lambda>a. if a = 0x11000
       then \<lparr>magic = HEAP_MAGIC_ALLOC, is_free = 0, size = 112, bnext = 0x11090, bprev = 0\<rparr>
       else \<lparr>magic = HEAP_MAGIC_FREE, is_free = 1, size = 3920, bnext = 0, bprev = 0x11000\<rparr>),
     hdata = (\<lambda>a. of_nat a), g_heap_head = 0x11000, g_heap_allocated_bytes = 112,
     g_heap_total_bytes = 4096,
     hpmm = \<lparr>g_pmm_bitmap = (\<lambda>_. 0x03), g_total_pages = 4, g_used_pages = 2,
       g_last_page_idx = 2, g_hhdm_offset = 0x10000\<rparr>,
     g_hhdm_base = 0x10000\<rparr>"

lemma two_blocks_inv: "heap_inv two_blocks [0x11000, 0x11090]"
proof -
  let ?h = "two_blocks"
  have "pmm_inv (hpmm ?h)"
    by (simp add: pmm_inv_def pmm_count_ok_def used_set_code bitmap_test_def two_blocks_def upt_rec)
  moreover have "hhdm_ok (g_hhdm_base ?h) (hpmm ?h)"
    by (simp add: hhdm_ok_def two_blocks_def PAGE_SIZE_def W64_def)
  moreover have "0x1000 \<in> frames (hpmm ?h)"
    by (simp add: frames_def used_set_code two_blocks_def upt_rec bitmap_test_def PAGE_SIZE_def)
  then have "{0x11000..<0x12000} \<subseteq> region (g_hhdm_base ?h) (hpmm ?h)"
    by (auto simp: region_def two_blocks_def PAGE_SIZE_def intro!: bexI [of _ "0x1000"])
  moreover have "ext (hmem ?h) 0x11000 = {0x11000..<0x11090}" "ext (hmem ?h) 0x11090 = {0x11090..<0x12000}"
    by (simp_all add: ext_def two_blocks_def)
  ultimately have "pmm_inv (hpmm ?h) \<and> hhdm_ok (g_hhdm_base ?h) (hpmm ?h) \<and>
      blocks_inv (hmem ?h) {0x11000, 0x11090} (region (g_hhdm_base ?h) (hpmm ?h))"
    by (auto simp: blocks_inv_def) (simp_all add: two_blocks_def block_ok_def)
  then show ?thesis
    by (simp add: heap_inv_def) (simp add: two_blocks_def total_of_def alloc_of_def)
qed

lemma two_blocks_live: "live (hmem two_blocks) (set [0x11000, 0x11090]) = {(0x11000, 112)}"
  by (auto simp: live_def two_blocks_def)

section \<open>Properties\<close>

text \<open>
  C2: \<open>kmalloc\<close> never loops and never corrupts the heap. For a request of 1 byte up to \<open>2 ^ 62\<close>
  it returns a 16-byte aligned block of at least the requested size, which was not allocated and
  whose bytes, header included, overlap no allocated block; nothing else changes hands and no
  payload byte is written. It panics only if no free block fits and the page allocator has no run
  of pages for twice the size.
\<close>

theorem kmalloc_correct:
  assumes "heap_inv s bs" and "0 < sz" and "sz \<le> 2 ^ 62"
  shows "(\<exists>b z t bs'. kmalloc sz s = Ret (b + 32, t) \<and> heap_inv t bs' \<and> 16 dvd b + 32 \<and> sz \<le> z \<and>
      live (hmem t) (set bs') = insert (b, z) (live (hmem s) (set bs)) \<and>
      (\<forall>(c, y) \<in> live (hmem s) (set bs). {b..<b + 32 + z} \<inter> {c..<c + 32 + y} = {}) \<and> hdata t = hdata s) \<or>
    kmalloc sz s = Panic ''Heap: Out of memory during kmalloc'' \<and>
      (\<forall>b \<in> set bs. \<not> fits s (ALIGN_UP sz 16) b) \<and>
      fst (pmm_alloc_pages (expand_pages (2 * ALIGN_UP sz 16)) (hpmm s)) = 0"
proof (cases rule: kmalloc_cases [OF assms, case_names ok oom])
  case (ok ptr t)
  then obtain b z bs' where b: "ptr = b + 32" "heap_inv t bs'" "sz \<le> z" "16 dvd ptr"
      "b \<notin> fst ` live (hmem s) (set bs)"
      "live (hmem t) (set bs') = insert (b, z) (live (hmem s) (set bs))" "hdata t = hdata s"
    by (auto simp: grants_def)
  have "{b..<b + 32 + z} \<inter> {c..<c + 32 + y} = {}" if "(c, y) \<in> live (hmem s) (set bs)" for c y
  proof (rule live_disjoint [OF b(2)])
    show "(b, z) \<in> live (hmem t) (set bs')" "(c, y) \<in> live (hmem t) (set bs')"
      using that b(6) by simp_all
    show "b \<noteq> c"
      using that b(5) by force
  qed
  then have "\<forall>(c, y) \<in> live (hmem s) (set bs). {b..<b + 32 + z} \<inter> {c..<c + 32 + y} = {}"
    by blast
  with ok(1) b show ?thesis
    by (intro disjI1 exI [of _ b] exI [of _ z] exI [of _ t] exI [of _ bs'] conjI) simp_all
next
  case oom
  then show ?thesis
    by (intro disjI2 conjI)
qed

theorem kmalloc_correct_witness:
  "heap_inv two_blocks [0x11000, 0x11090] \<and> (\<exists>b z t. kmalloc 100 two_blocks = Ret (b + 32, t) \<and> 100 \<le> z \<and>
     {b..<b + 32 + z} \<inter> {0x11000..<0x11090} = {})"
proof -
  have "\<not> (\<forall>b \<in> set [0x11000, 0x11090]. \<not> fits two_blocks (ALIGN_UP 100 16) b)"
    by (simp add: fits_def two_blocks_def ALIGN_UP_def add64_def)
  moreover have "(0::nat) < 100" "(100::nat) \<le> 2 ^ 62"
    by simp_all
  ultimately obtain b z t where "kmalloc 100 two_blocks = Ret (b + 32, t)" "100 \<le> z"
      "\<forall>(c, y) \<in> {(0x11000, 112)}. {b..<b + 32 + z} \<inter> {c..<c + 32 + y} = {}"
    using kmalloc_correct [OF two_blocks_inv, of 100, unfolded two_blocks_live] by blast
  then show ?thesis
    using two_blocks_inv by (intro conjI exI [of _ b] exI [of _ z] exI [of _ t]) simp_all
qed

text \<open>
  C3: \<open>kfree\<close> of an allocated block keeps the heap well formed through both coalescing steps,
  takes exactly that block out of the allocated ones and touches no payload; freeing the same
  pointer again changes nothing.
\<close>

theorem kfree_correct:
  assumes "heap_inv s bs" and "(b, z) \<in> live (hmem s) (set bs)"
  shows "(\<exists>bs'. heap_inv (kfree (b + 32) s) bs' \<and>
      live (hmem (kfree (b + 32) s)) (set bs') = live (hmem s) (set bs) - {(b, z)}) \<and>
    hdata (kfree (b + 32) s) = hdata s \<and> hpmm (kfree (b + 32) s) = hpmm s \<and>
    kfree (b + 32) (kfree (b + 32) s) = kfree (b + 32) s"
proof -
  obtain bs' where t: "heap_inv (kfree (b + 32) s) bs'"
    "live (hmem (kfree (b + 32) s)) (set bs') = live (hmem s) (set bs) - {(b, z)}"
    "hdata (kfree (b + 32) s) = hdata s" "hpmm (kfree (b + 32) s) = hpmm s"
    "magic (hmem (kfree (b + 32) s) b) = HEAP_MAGIC_FREE"
    using kfree_inv [OF assms] by metis
  have "kfree (b + 32) (kfree (b + 32) s) = kfree (b + 32) s"
    using kfree_def [of "b + 32" "kfree (b + 32) s"] t(5)
    by (simp only: Let_def heap_consts live_ptr(1) [OF assms]) (simp add: HEAP_MAGIC_FREE_def HEAP_MAGIC_ALLOC_def)
  with t show ?thesis
    by blast
qed

theorem kfree_correct_witness:
  "(0x11000, 112) \<in> live (hmem two_blocks) (set [0x11000, 0x11090]) \<and>
   size (hmem (kfree 0x11020 two_blocks) 0x11000) = 4064 \<and>
   kfree 0x11020 (kfree 0x11020 two_blocks) = kfree 0x11020 two_blocks"
proof -
  let ?s = "(upd_block 0x11000 (\<lambda>b. b\<lparr>is_free := 1, magic := HEAP_MAGIC_FREE\<rparr>) two_blocks)
    \<lparr>g_heap_allocated_bytes := 0\<rparr>"
  have "kfree 0x11020 two_blocks = coalesce_prev 0x11000 (coalesce_next 0x11000 ?s)"
    by (simp add: kfree_def Let_def sub64_def) (simp add: two_blocks_def)
  moreover have "size (hmem (coalesce_next 0x11000 ?s) 0x11000) = 4064" "bprev (hmem (coalesce_next 0x11000 ?s) 0x11000) = 0"
    by (simp_all add: coalesce_next_def Let_def add64_def absorb_block_def) (simp_all add: two_blocks_def)
  ultimately have "size (hmem (kfree 0x11020 two_blocks) 0x11000) = 4064"
    by (simp add: coalesce_prev_def Let_def)
  moreover have l: "(0x11000, 112) \<in> live (hmem two_blocks) (set [0x11000, 0x11090])"
    unfolding two_blocks_live by simp
  moreover have "kfree (0x11000 + 32) (kfree (0x11000 + 32) two_blocks) = kfree (0x11000 + 32) two_blocks"
    using kfree_correct [OF two_blocks_inv l] by (elim conjE)
  ultimately show ?thesis
    by simp
qed

text \<open>
  C19: \<open>krealloc\<close> of an allocated block keeps the bytes. If the block is large enough nothing
  changes; otherwise, unless memory runs out, a larger block replaces it, begins with the old
  block's bytes, and the payloads of all other allocated blocks are as before.
\<close>

theorem krealloc_preserves:
  assumes "heap_inv s bs" and "(b, z) \<in> live (hmem s) (set bs)" and "0 < n" and "n \<le> 2 ^ 62"
  shows "n \<le> z \<and> krealloc (b + 32) n s = Ret (b + 32, s) \<or>
    z < n \<and> (\<exists>c y t bs'. krealloc (b + 32) n s = Ret (c + 32, t) \<and> heap_inv t bs' \<and> n \<le> y \<and>
      live (hmem t) (set bs') = insert (c, y) (live (hmem s) (set bs) - {(b, z)}) \<and>
      (\<forall>i < z. hdata t (c + 32 + i) = hdata s (b + 32 + i)) \<and>
      (\<forall>x \<in> live (hmem s) (set bs) - {(b, z)}. payload t x = payload s x)) \<or>
    z < n \<and> krealloc (b + 32) n s = Panic ''Heap: Out of memory during kmalloc''"
proof (cases "n \<le> z")
  case True
  then have "krealloc (b + 32) n s = Ret (b + 32, s)"
    using live_ptr [OF assms(1,2)] assms(3) by (simp add: krealloc_def)
  with True show ?thesis
    by simp
next
  case False
  show ?thesis
  proof (cases rule: kmalloc_cases [OF assms(1,3,4), case_names ok oom])
    case (ok ptr t)
    from False have "z < n"
      by simp
    then show ?thesis
      by (rule krealloc_moves [OF assms(1,2) _ ok]) (use \<open>z < n\<close> in blast)
  next
    case oom
    have "krealloc (b + 32) n s = Panic ''Heap: Out of memory during kmalloc''"
      using live_ptr [OF assms(1,2)] oom(1) False assms(3) by (simp add: krealloc_def)
    with False show ?thesis
      by simp
  qed
qed

theorem krealloc_preserves_witness:
  "(0x11000, 112) \<in> live (hmem two_blocks) (set [0x11000, 0x11090]) \<and>
   krealloc 0x11020 100 two_blocks = Ret (0x11020, two_blocks) \<and>
   (\<exists>c t. krealloc 0x11020 200 two_blocks = Ret (c + 32, t) \<and>
      (\<forall>i < 112. hdata t (c + 32 + i) = of_nat (0x11020 + i)))"
proof -
  have l: "(0x11000, 112) \<in> live (hmem two_blocks) (set [0x11000, 0x11090])"
    unfolding two_blocks_live by simp
  have n: "(0::nat) < 100" "(100::nat) \<le> 2 ^ 62" "\<not> (112::nat) < 100"
    and m: "(0::nat) < 200" "(200::nat) \<le> 2 ^ 62" "\<not> (200::nat) \<le> 112"
    by simp_all
  have a: "krealloc (0x11000 + 32) 100 two_blocks = Ret (0x11000 + 32, two_blocks)"
    using krealloc_preserves [OF two_blocks_inv l n(1,2)] n(3) by blast
  have h: "hdata two_blocks = (\<lambda>a. of_nat a)"
    by (simp add: two_blocks_def)
  have "heap_find (hmem two_blocks) 208 (g_heap_head two_blocks) = Some 0x11090"
    by (subst heap_find.simps, simp add: two_blocks_def)+
  then have "kmalloc 200 two_blocks = Ret (take_block 0x11090 208 two_blocks)"
    by (simp add: kmalloc_def ALIGN_UP_def add64_def)
  then have "krealloc (0x11000 + 32) 200 two_blocks \<noteq> Panic e" for e
    by (auto simp: krealloc_def Let_def split: if_splits prod.splits)
  then obtain c t where "krealloc (0x11000 + 32) 200 two_blocks = Ret (c + 32, t)"
      "\<forall>i < 112. hdata t (c + 32 + i) = hdata two_blocks (0x11000 + 32 + i)"
    using krealloc_preserves [OF two_blocks_inv l m(1,2)] m(3) by blast
  then show ?thesis
    using l a by (auto simp: h)
qed



text \<open>
  C28: a request within 15 bytes of \<open>2 ^ 64\<close> is rounded up to 0, so that \<open>kmalloc\<close> does not fail
  but returns, if any block is free, a block of less than 48 bytes.
\<close>

theorem kmalloc_oversized:
  assumes "heap_inv s bs" and "b \<in> set bs" and "is_free (hmem s b) \<noteq> 0" and "2 ^ 64 - 16 < sz" and "sz < 2 ^ 64"
  shows "\<exists>c t. kmalloc sz s = Ret (add64 c 32, t) \<and> c \<in> set bs \<and> size (hmem t c) < 48 \<and> magic (hmem t c) = HEAP_MAGIC_ALLOC"
proof -
  have z: "ALIGN_UP sz HEAP_ALIGNMENT = 0" "sz \<noteq> 0"
    using ALIGN_UP_wraps [OF assms(4,5)] assms(4) by simp_all
  have "fits s 0 b"
    using assms(3) by (simp add: fits_def)
  then obtain c where c: "heap_find (hmem s) 0 (g_heap_head s) = Some c" "c \<in> set bs" "c \<noteq> 0" "fits s 0 c"
    using heap_find_fits [OF assms(1), of 0] assms(2) by metis
  obtain t where t: "take_block c 0 s = (add64 c 32, t)" "size (hmem t c) < 48" "magic (hmem t c) = HEAP_MAGIC_ALLOC"
  proof (cases "48 \<le> size (hmem s c)")
    case True
    then have "size (hmem (split_block c 0 s) c) = 0"
      by (simp add: split_block_def Let_def)
    then show thesis
      using that True by (simp add: take_block_def Let_def add64_def)
  next
    case False
    then show thesis
      using that by (simp add: take_block_def Let_def add64_def)
  qed
  have "kmalloc sz s = Ret (add64 c 32, t)"
    using z c t(1) by (simp only: kmalloc_def Let_def if_False) simp
  with t(2,3) c(2) show ?thesis
    by blast
qed

theorem kmalloc_oversized_witness:
  "(2 ^ 64 - 16 :: nat) < 2 ^ 64 - 1 \<and>
   (\<exists>c t. kmalloc (2 ^ 64 - 1) two_blocks = Ret (add64 c 32, t) \<and> size (hmem t c) < 48)"
proof -
  have f: "(0x11090::nat) \<in> set [0x11000, 0x11090]" "is_free (hmem two_blocks 0x11090) \<noteq> 0"
    "(2 ^ 64 - 16 :: nat) < 2 ^ 64 - 1" "(2 ^ 64 - 1 :: nat) < 2 ^ 64"
    by (simp_all add: two_blocks_def)
  show ?thesis
    using kmalloc_oversized [OF two_blocks_inv f] f(3) by blast
qed

text \<open>
  \<open>heap_init\<close> on the zeroed heap of a booting kernel terminates and establishes the heap
  invariant, with nothing allocated; if the page allocator has a run of the requested size, the
  heap consists of one free block of at least that size.
\<close>

theorem heap_init_correct:
  assumes "pmm_inv (hpmm s)" and "hhdm_ok (g_hhdm_base s) (hpmm s)" and "g_heap_head s = 0"
    and "g_heap_allocated_bytes s = 0" and "g_heap_total_bytes s = 0" and "sz \<le> 2 ^ 63"
  shows "\<exists>t bs. heap_init sz s = Some t \<and> heap_inv t bs \<and> live (hmem t) (set bs) = {} \<and>
    (fst (pmm_alloc_pages (expand_pages sz) (hpmm s)) \<noteq> 0 \<longrightarrow>
      (\<exists>b. bs = [b] \<and> is_free (hmem t b) = 1 \<and> sz \<le> size (hmem t b)))"
proof -
  have inv: "heap_inv s []"
    using assms(1-5) by (simp add: heap_inv_def blocks_inv_def total_of_def alloc_of_def)
  have sz: "sz + 32 + PAGE_SIZE \<le> W64"
    using assms(6) by (simp add: PAGE_SIZE_def W64_def)
  show ?thesis
  proof (cases rule: heap_expand_cases [OF inv sz, case_names full grown])
    case full
    with inv show ?thesis
      by (intro exI [of _ s] exI [of _ "[]"]) (simp add: heap_init_def live_def)
  next
    case (grown t v)
    then show ?thesis
      by (intro exI [of _ t] exI [of _ "[v]"]) (simp add: heap_init_def live_def)
  qed
qed

definition boot_heap :: heap where
  "boot_heap = \<lparr>hmem = (\<lambda>_. \<lparr>magic = 0, is_free = 0, size = 0, bnext = 0, bprev = 0\<rparr>),
     hdata = (\<lambda>_. 0), g_heap_head = 0, g_heap_allocated_bytes = 0, g_heap_total_bytes = 0,
     hpmm = \<lparr>g_pmm_bitmap = (\<lambda>_. 0x03), g_total_pages = 4, g_used_pages = 2,
       g_last_page_idx = 2, g_hhdm_offset = 0x10000\<rparr>,
     g_hhdm_base = 0x10000\<rparr>"

theorem heap_init_correct_witness:
  "pmm_inv (hpmm boot_heap) \<and> (\<exists>t b. heap_init 5000 boot_heap = Some t \<and> heap_inv t [b] \<and> 5000 \<le> size (hmem t b))"
proof -
  have p: "pmm_inv (hpmm boot_heap)"
    by (simp add: pmm_inv_def pmm_count_ok_def used_set_code bitmap_test_def boot_heap_def upt_rec)
  have h: "hhdm_ok (g_hhdm_base boot_heap) (hpmm boot_heap)"
    by (simp add: hhdm_ok_def boot_heap_def PAGE_SIZE_def W64_def)
  have "expand_pages 5000 = 2"
    by (simp add: expand_pages_def ALIGN_UP_def add64_def PAGE_SIZE_def)
  then have "fst (pmm_alloc_pages (expand_pages 5000) (hpmm boot_heap)) \<noteq> 0"
    by (simp add: pmm_alloc_pages_def boot_heap_def upt_rec bitmap_test_def mul64_def PAGE_SIZE_def)
  moreover have z: "g_heap_head boot_heap = 0" "g_heap_allocated_bytes boot_heap = 0" "g_heap_total_bytes boot_heap = 0"
    "(5000::nat) \<le> 2 ^ 63"
    by (simp_all add: boot_heap_def)
  ultimately show ?thesis
    using heap_init_correct [OF p h z] p by blast
qed

end
