(* ===== verification/Sched.thy ===== *)
theory Sched
  imports Klist
begin

text \<open>
  The multi-core scheduler of \<^verbatim>\<open>kernel/src/sched/sched.c\<close> with the thread and process fields it
  uses (\<^verbatim>\<open>sched/thread.h\<close>, \<^verbatim>\<open>sched/process.h\<close>).

  Threads, processes and CPUs are numbered. \<open>sys\<close> holds the shared kernel state: the links of all
  list nodes, the thread and process tables, the current and the idle thread of every CPU, and,
  for a CPU inside \<open>arch_switch_context\<close>, the thread whose registers it is still saving
  (\<open>switching\<close>, the \<open>running_cpu\<close> pointer that \<open>sched_yield\<close> passes). Every section that the code
  runs under \<open>g_sched_lock\<close> is one function of the state, so that interleavings of the CPUs are
  sequences of these functions. The executing CPU, the tick counter and the monotonic clock are
  arguments; \<open>smp_current_cpu\<close> is taken to be set, as it is once the CPU runs the scheduler.
  \<open>None\<close> is a list walk that never ends, or a CPU without any idle thread.
\<close>

section \<open>Threads, processes, CPUs\<close>

datatype thread_state = THREAD_READY | THREAD_RUNNING | THREAD_BLOCKED | THREAD_SLEEPING | THREAD_ZOMBIE

datatype process_status = PROCESS_ACTIVE | PROCESS_ZOMBIE | PROCESS_DEAD

text \<open>
  The list nodes: the two queues of the scheduler, the node \<open>sched_node\<close> of a thread, the buckets
  and nodes of the futexes, the heads of the wait queues and the nodes of the waiters.
\<close>

datatype node = Ready_Queue | Sleeping_Queue | Sched_Node nat
  | Futex_Bucket nat | Futex_Node nat | Wq_Head nat | Wait_Node nat

record thread =
  tstate :: thread_state
  tproc :: "nat option"
  running_cpu :: int
  sleep_until_tick :: nat
  scheduled_at_ns :: nat
  futex_uaddr :: nat
  futex_proc :: "nat option"

record process =
  pstatus :: process_status
  exit_code :: int
  pagemap :: nat
  pending_signals :: u32
  blocked_signals :: u32
  cpu_time_ns :: nat

record sys =
  lnk :: "node links"
  thr :: "nat \<Rightarrow> thread"
  prc :: "nat \<Rightarrow> process"
  current_thread :: "nat \<Rightarrow> nat option"
  g_idle_threads :: "nat \<Rightarrow> nat option"
  switching :: "nat \<Rightarrow> nat option"
  g_sched_started :: bool
  g_idle_proc :: "nat option"
  g_stat_user_ticks :: nat
  g_stat_sys_ticks :: nat
  g_stat_idle_ticks :: nat

definition upd_thr :: "nat \<Rightarrow> (thread \<Rightarrow> thread) \<Rightarrow> sys \<Rightarrow> sys" where
  "upd_thr t f s = s\<lparr>thr := (thr s)(t := f (thr s t))\<rparr>"

definition upd_lnk :: "(node links \<Rightarrow> node links) \<Rightarrow> sys \<Rightarrow> sys" where
  "upd_lnk f s = s\<lparr>lnk := f (lnk s)\<rparr>"

definition set_state :: "thread_state \<Rightarrow> nat \<Rightarrow> sys \<Rightarrow> sys" where
  "set_state st t = upd_thr t (\<lambda>x. x\<lparr>tstate := st\<rparr>)"

definition SMP_MAX_CPUS :: nat where "SMP_MAX_CPUS = 64"

definition proc_zombie :: "nat \<Rightarrow> sys \<Rightarrow> bool" where
  "proc_zombie t s = (case tproc (thr s t) of None \<Rightarrow> False | Some p \<Rightarrow> pstatus (prc s p) = PROCESS_ZOMBIE)"

section \<open>Queue operations\<close>

definition sched_init :: "sys \<Rightarrow> sys" where
  "sched_init s = upd_lnk (list_init Sleeping_Queue) (upd_lnk (list_init Ready_Queue) s)"

definition sched_add_thread :: "nat \<Rightarrow> sys \<Rightarrow> sys" where
  "sched_add_thread t s = upd_lnk (list_add_tail Ready_Queue (Sched_Node t)) (set_state THREAD_READY t s)"

definition sched_remove_thread :: "nat \<Rightarrow> sys \<Rightarrow> sys" where
  "sched_remove_thread t s = upd_lnk (list_remove (Sched_Node t)) (set_state THREAD_ZOMBIE t s)"

definition sched_unblock_thread :: "nat \<Rightarrow> sys \<Rightarrow> sys" where
  "sched_unblock_thread t s =
     (if tstate (thr s t) = THREAD_BLOCKED
      then upd_lnk (list_add_tail Ready_Queue (Sched_Node t)) (set_state THREAD_READY t s)
      else s)"

definition sched_get_current_thread :: "nat \<Rightarrow> sys \<Rightarrow> nat option" where
  "sched_get_current_thread cpu s =
     (case current_thread s cpu of Some t \<Rightarrow> Some t | None \<Rightarrow> g_idle_threads s 0)"

definition sched_get_current_process :: "nat \<Rightarrow> sys \<Rightarrow> nat option" where
  "sched_get_current_process cpu s =
     (case sched_get_current_thread cpu s of None \<Rightarrow> None | Some t \<Rightarrow> tproc (thr s t))"

text \<open>The part of \<open>sched_init_cpu\<close> after the idle thread \<open>t\<close> has been created.\<close>

definition sched_init_cpu_idle :: "nat \<Rightarrow> nat \<Rightarrow> sys \<Rightarrow> sys" where
  "sched_init_cpu_idle cpu t s =
     (let s1 = upd_thr t (\<lambda>x. x\<lparr>running_cpu := -1\<rparr>) (upd_lnk (list_remove (Sched_Node t)) s);
          s2 = s1\<lparr>g_idle_threads := (g_idle_threads s1)(cpu := Some t)\<rparr>
      in if current_thread s2 cpu = None
         then s2\<lparr>current_thread := (current_thread s2)(cpu := Some t)\<rparr> else s2)"

section \<open>Switching threads\<close>

text \<open>The loop body that wakes the sleepers, and the walk over the sleeping queue.\<close>

definition wake_sleeper :: "nat \<Rightarrow> node \<Rightarrow> sys \<Rightarrow> bool \<times> sys" where
  "wake_sleeper ticks pos s =
     (case pos of
        Sched_Node t \<Rightarrow>
          if tstate (thr s t) = THREAD_ZOMBIE \<or> proc_zombie t s
          then (False, set_state THREAD_ZOMBIE t (upd_lnk (list_remove (Sched_Node t)) s))
          else if ticks \<ge> sleep_until_tick (thr s t)
          then (False, upd_lnk (list_add_tail Ready_Queue (Sched_Node t))
                  (set_state THREAD_READY t (upd_lnk (list_remove (Sched_Node t)) s)))
          else (False, s)
      | _ \<Rightarrow> (False, s))"

definition wake_sleepers :: "nat \<Rightarrow> nat \<Rightarrow> sys \<Rightarrow> sys option" where
  "wake_sleepers fuel ticks s =
     list_for_each_safe fuel lnk (wake_sleeper ticks) Sleeping_Queue (lnext (lnk s) Sleeping_Queue) s"

text \<open>The loop body that looks for the next thread; the second component is \<open>next\<close>.\<close>

definition try_candidate :: "nat \<Rightarrow> node \<Rightarrow> sys \<times> nat option \<Rightarrow> bool \<times> sys \<times> nat option" where
  "try_candidate cpu pos = (\<lambda>(s, nxt).
     (case pos of
        Sched_Node t \<Rightarrow>
          if tstate (thr s t) = THREAD_READY
          then if proc_zombie t s
               then (False, set_state THREAD_ZOMBIE t (upd_lnk (list_remove pos) s), nxt)
               else if running_cpu (thr s t) = -1 \<or> running_cpu (thr s t) = int cpu
               then (True, upd_lnk (list_remove pos) s, Some t)
               else (False, s, nxt)
          else (False, s, nxt)
      | _ \<Rightarrow> (False, s, nxt)))"

definition pick_next :: "nat \<Rightarrow> nat \<Rightarrow> sys \<Rightarrow> (sys \<times> nat option) option" where
  "pick_next fuel cpu s =
     list_for_each_safe fuel (lnk \<circ> fst) (try_candidate cpu) Ready_Queue (lnext (lnk s) Ready_Queue) (s, None)"

definition idle_of :: "nat \<Rightarrow> sys \<Rightarrow> nat option" where
  "idle_of cpu s = (case g_idle_threads s cpu of Some i \<Rightarrow> Some i | None \<Rightarrow> g_idle_threads s 0)"

definition requeue_prev :: "nat \<Rightarrow> sys \<Rightarrow> sys" where
  "requeue_prev cpu s =
     (case current_thread s cpu of
        None \<Rightarrow> s
      | Some p \<Rightarrow>
          if Some p \<noteq> idle_of cpu s \<and> tstate (thr s p) = THREAD_RUNNING
          then upd_lnk (list_add_tail Ready_Queue (Sched_Node p)) (set_state THREAD_READY p s)
          else s)"

text \<open>The CPU time accounting of the thread that leaves the CPU.\<close>

definition account_prev :: "nat \<Rightarrow> nat option \<Rightarrow> sys \<Rightarrow> sys" where
  "account_prev now_ns prev s =
     (case prev of
        None \<Rightarrow> s
      | Some p \<Rightarrow>
          (case tproc (thr s p) of
             None \<Rightarrow> s
           | Some pr \<Rightarrow>
               let started = scheduled_at_ns (thr s p);
                   s1 = upd_thr p (\<lambda>x. x\<lparr>scheduled_at_ns := 0\<rparr>) s
               in if started > 0 \<and> now_ns > started
                  then s1\<lparr>prc := (prc s1)(pr := (prc s1 pr)
                         \<lparr>cpu_time_ns := add64 (cpu_time_ns (prc s1 pr)) (now_ns - started)\<rparr>)\<rparr>
                  else s1))"

definition switch_to :: "nat \<Rightarrow> nat \<Rightarrow> nat \<Rightarrow> sys \<Rightarrow> sys" where
  "switch_to cpu now_ns nxt s =
     (let prev = current_thread s cpu;
          s1 = upd_thr nxt (\<lambda>x. x\<lparr>tstate := THREAD_RUNNING, running_cpu := int cpu\<rparr>) s;
          s2 = s1\<lparr>current_thread := (current_thread s1)(cpu := Some nxt)\<rparr>
      in if prev \<noteq> Some nxt
         then let s3 = account_prev now_ns prev s2;
                  s4 = upd_thr nxt (\<lambda>x. x\<lparr>scheduled_at_ns := now_ns\<rparr>) s3
              in s4\<lparr>switching := (switching s4)(cpu := (if prev \<noteq> idle_of cpu s then prev else None))\<rparr>
         else s2)"

text \<open>\<open>sched_yield\<close> up to the release of the lock.\<close>

definition sched_yield_locked :: "nat \<Rightarrow> nat \<Rightarrow> nat \<Rightarrow> nat \<Rightarrow> sys \<Rightarrow> sys option" where
  "sched_yield_locked fuel cpu ticks now_ns s =
     (case wake_sleepers fuel ticks (requeue_prev cpu s) of
        None \<Rightarrow> None
      | Some s1 \<Rightarrow>
          (case pick_next fuel cpu s1 of
             None \<Rightarrow> None
           | Some (s2, nxt) \<Rightarrow>
               (case (case nxt of Some t \<Rightarrow> Some t | None \<Rightarrow> idle_of cpu s2) of
                  None \<Rightarrow> None
                | Some t \<Rightarrow> Some (switch_to cpu now_ns t s2))))"

text \<open>
  The scheduling effect of \<open>arch_switch_context\<close>: once the registers of the old thread are on its
  stack, its \<open>running_cpu\<close> is cleared and other CPUs may pick it.
\<close>

definition arch_switch_context :: "nat \<Rightarrow> sys \<Rightarrow> sys" where
  "arch_switch_context cpu s =
     (case switching s cpu of
        None \<Rightarrow> s
      | Some p \<Rightarrow> (upd_thr p (\<lambda>x. x\<lparr>running_cpu := -1\<rparr>) s)\<lparr>switching := (switching s)(cpu := None)\<rparr>)"

definition sched_yield :: "nat \<Rightarrow> nat \<Rightarrow> nat \<Rightarrow> nat \<Rightarrow> sys \<Rightarrow> sys option" where
  "sched_yield fuel cpu ticks now_ns s =
     (if \<not> g_sched_started s then Some s
      else map_option (arch_switch_context cpu) (sched_yield_locked fuel cpu ticks now_ns s))"

section \<open>Blocking and sleeping\<close>

text \<open>
  What the current thread does after the first part of a blocking call: return to the caller,
  leave through \<open>process_exit\<close> with a code, or give up the CPU with \<open>sched_yield\<close>.
\<close>

datatype flow = Return | Exit int | Yield

definition zombie_exit :: "nat \<Rightarrow> sys \<Rightarrow> flow option" where
  "zombie_exit t s =
     (if tstate (thr s t) = THREAD_ZOMBIE \<or> proc_zombie t s
      then Some (case tproc (thr s t) of
             None \<Rightarrow> Return
           | Some p \<Rightarrow> Exit (if exit_code (prc s p) \<noteq> 0 then exit_code (prc s p) else 128))
      else None)"

definition sched_block_current_thread :: "nat \<Rightarrow> sys \<Rightarrow> flow \<times> sys" where
  "sched_block_current_thread cpu s =
     (case sched_get_current_thread cpu s of
        None \<Rightarrow> (Return, s)
      | Some t \<Rightarrow>
          (case zombie_exit t s of
             Some f \<Rightarrow> (f, s)
           | None \<Rightarrow> (Yield, set_state THREAD_BLOCKED t s)))"

text \<open>The check on the way out, once the thread runs again.\<close>

definition sched_block_resumed :: "nat \<Rightarrow> sys \<Rightarrow> flow" where
  "sched_block_resumed t s = (case zombie_exit t s of Some f \<Rightarrow> f | None \<Rightarrow> Return)"

definition ticks_to_sleep :: "nat \<Rightarrow> nat \<Rightarrow> nat" where
  "ticks_to_sleep ms freq = (let n = add64 (mul64 ms freq) 999 div 1000 in if n = 0 then 1 else n)"

definition thread_sleep :: "nat \<Rightarrow> nat \<Rightarrow> nat \<Rightarrow> nat \<Rightarrow> sys \<Rightarrow> flow \<times> sys" where
  "thread_sleep cpu ticks freq ms s =
     (case sched_get_current_thread cpu s of
        None \<Rightarrow> (Return, s)
      | Some t \<Rightarrow>
          (case zombie_exit t s of
             Some f \<Rightarrow> (f, s)
           | None \<Rightarrow>
               if (case tproc (thr s t) of None \<Rightarrow> False
                   | Some p \<Rightarrow> pending_signals (prc s p) AND NOT (blocked_signals (prc s p)) \<noteq> 0)
               then (Return, s)
               else if ms = 0 then (Yield, s)
               else (Yield, upd_lnk (list_add_tail Sleeping_Queue (Sched_Node t))
                       (upd_thr t (\<lambda>x. x\<lparr>tstate := THREAD_SLEEPING,
                          sleep_until_tick := add64 ticks (ticks_to_sleep ms freq)\<rparr>) s))))"

text \<open>The accounting of a timer tick; \<open>kernel_pagemap\<close> is the address of the kernel's page map.\<close>

definition sched_tick_account :: "nat \<Rightarrow> nat \<Rightarrow> sys \<Rightarrow> sys" where
  "sched_tick_account kernel_pagemap cpu s =
     (let idle = (if cpu < SMP_MAX_CPUS then g_idle_threads s cpu else g_idle_threads s 0) in
      case current_thread s cpu of
        None \<Rightarrow> s\<lparr>g_stat_idle_ticks := add64 (g_stat_idle_ticks s) 1\<rparr>
      | Some t \<Rightarrow>
          if Some t = idle \<or> (tproc (thr s t) \<noteq> None \<and> tproc (thr s t) = g_idle_proc s)
          then s\<lparr>g_stat_idle_ticks := add64 (g_stat_idle_ticks s) 1\<rparr>
          else (case tproc (thr s t) of
                  Some p \<Rightarrow>
                    if pagemap (prc s p) \<noteq> 0 \<and> pagemap (prc s p) \<noteq> kernel_pagemap
                    then s\<lparr>g_stat_user_ticks := add64 (g_stat_user_ticks s) 1\<rparr>
                    else s\<lparr>g_stat_sys_ticks := add64 (g_stat_sys_ticks s) 1\<rparr>
                | None \<Rightarrow> s\<lparr>g_stat_sys_ticks := add64 (g_stat_sys_ticks s) 1\<rparr>))"

definition sched_get_cpu_ticks :: "sys \<Rightarrow> nat \<times> nat \<times> nat" where
  "sched_get_cpu_ticks s = (g_stat_user_ticks s, g_stat_sys_ticks s, g_stat_idle_ticks s)"

section \<open>The queues\<close>

definition heads :: "node set" where
  "heads = {Ready_Queue, Sleeping_Queue} \<union> range Futex_Bucket \<union> range Wq_Head"

lemma heads_simps [simp]: "Ready_Queue \<in> heads" "Sleeping_Queue \<in> heads" "Futex_Bucket b \<in> heads" "Wq_Head w \<in> heads"
  "Sched_Node t \<notin> heads" "Futex_Node t \<notin> heads" "Wait_Node t \<notin> heads"
  by (auto simp: heads_def)

text \<open>
  \<open>squeues h q rs ss\<close>: the kernel's rings hold \<open>q\<close>, with the threads \<open>rs\<close> on the ready queue and
  \<open>ss\<close> on the sleeping queue, and no \<open>sched_node\<close> is in any other ring.
\<close>

definition squeues :: "node links \<Rightarrow> (node \<Rightarrow> node list) \<Rightarrow> nat list \<Rightarrow> nat list \<Rightarrow> bool" where
  "squeues h q rs ss \<longleftrightarrow> rings h heads q \<and> q Ready_Queue = map Sched_Node rs \<and>
     q Sleeping_Queue = map Sched_Node ss \<and>
     (\<forall>l \<in> heads - {Ready_Queue, Sleeping_Queue}. \<forall>t. Sched_Node t \<notin> set (q l))"

lemma squeuesD:
  assumes "squeues h q rs ss"
  shows "rings h heads q" "q Ready_Queue = map Sched_Node rs" "q Sleeping_Queue = map Sched_Node ss"
    "distinct rs" "distinct ss" "set rs \<inter> set ss = {}"
    "queued heads q (Sched_Node t) \<longleftrightarrow> t \<in> set rs \<union> set ss"
proof -
  show r: "rings h heads q" and q: "q Ready_Queue = map Sched_Node rs" "q Sleeping_Queue = map Sched_Node ss"
    using assms by (simp_all add: squeues_def)
  show "distinct rs" "distinct ss"
    using ringsD(4) [OF r, of Ready_Queue] ringsD(4) [OF r, of Sleeping_Queue] q
    by (simp_all add: distinct_map)
  show "set rs \<inter> set ss = {}"
    using ringsD(3) [OF r, of Ready_Queue Sleeping_Queue] q by auto
  show "queued heads q (Sched_Node t) \<longleftrightarrow> t \<in> set rs \<union> set ss"
    using assms bexI [of "\<lambda>l. Sched_Node t \<in> set (q l)" Ready_Queue heads]
      bexI [of "\<lambda>l. Sched_Node t \<in> set (q l)" Sleeping_Queue heads] by (auto simp: squeues_def queued_def)
qed

lemma squeues_add_ready:
  assumes "squeues h q rs ss" and "t \<notin> set rs" and "t \<notin> set ss"
  shows "squeues (list_add_tail Ready_Queue (Sched_Node t) h)
    (q(Ready_Queue := q Ready_Queue @ [Sched_Node t])) (rs @ [t]) ss"
  using rings_add_tail [OF squeuesD(1) [OF assms(1)], of Ready_Queue "Sched_Node t"] assms
    squeuesD(7) [OF assms(1), of t]
  by (auto simp: squeues_def)

lemma squeues_add_sleeping:
  assumes "squeues h q rs ss" and "t \<notin> set rs" and "t \<notin> set ss"
  shows "squeues (list_add_tail Sleeping_Queue (Sched_Node t) h)
    (q(Sleeping_Queue := q Sleeping_Queue @ [Sched_Node t])) rs (ss @ [t])"
  using rings_add_tail [OF squeuesD(1) [OF assms(1)], of Sleeping_Queue "Sched_Node t"] assms
    squeuesD(7) [OF assms(1), of t]
  by (auto simp: squeues_def)

lemma remove1_map_Sched: "remove1 (Sched_Node t) (map Sched_Node xs) = map Sched_Node (remove1 t xs)"
  by (induction xs) auto

lemma squeues_remove_ready:
  assumes "squeues h q rs ss" and "t \<in> set rs"
  shows "squeues (list_remove (Sched_Node t) h) (q(Ready_Queue := remove1 (Sched_Node t) (q Ready_Queue))) (remove1 t rs) ss"
  using rings_remove [OF squeuesD(1) [OF assms(1)], of Ready_Queue "Sched_Node t"] assms
  by (auto simp: squeues_def remove1_map_Sched)

lemma squeues_remove_sleeping:
  assumes "squeues h q rs ss" and "t \<in> set ss"
  shows "squeues (list_remove (Sched_Node t) h) (q(Sleeping_Queue := remove1 (Sched_Node t) (q Sleeping_Queue))) rs (remove1 t ss)"
  using rings_remove [OF squeuesD(1) [OF assms(1)], of Sleeping_Queue "Sched_Node t"] assms
  by (auto simp: squeues_def remove1_map_Sched)

text \<open>\<open>same_other q q'\<close>: the rings that do not belong to the scheduler hold the same nodes.\<close>

definition same_other :: "(node \<Rightarrow> node list) \<Rightarrow> (node \<Rightarrow> node list) \<Rightarrow> bool" where
  "same_other q q' \<longleftrightarrow> (\<forall>l. l \<noteq> Ready_Queue \<longrightarrow> l \<noteq> Sleeping_Queue \<longrightarrow> q' l = q l)"

lemma same_other_refl [simp]: "same_other q q"
  by (simp add: same_other_def)

lemma same_other_upd [simp]:
  "same_other q (q'(Ready_Queue := xs)) = same_other q q'"
  "same_other q (q'(Sleeping_Queue := xs)) = same_other q q'"
  by (auto simp: same_other_def)

section \<open>What waking and picking do\<close>

lemma upd_sel [simp]:
  "lnk (upd_thr t f s) = lnk s" "thr (upd_thr t f s) = (thr s)(t := f (thr s t))" "prc (upd_thr t f s) = prc s"
  "lnk (upd_lnk g s) = g (lnk s)" "thr (upd_lnk g s) = thr s" "prc (upd_lnk g s) = prc s"
  "current_thread (upd_thr t f s) = current_thread s" "current_thread (upd_lnk g s) = current_thread s"
  "g_idle_threads (upd_thr t f s) = g_idle_threads s" "g_idle_threads (upd_lnk g s) = g_idle_threads s"
  "switching (upd_thr t f s) = switching s" "switching (upd_lnk g s) = switching s"
  "g_sched_started (upd_thr t f s) = g_sched_started s" "g_sched_started (upd_lnk g s) = g_sched_started s"
  by (simp_all add: upd_thr_def upd_lnk_def)

definition dead :: "sys \<Rightarrow> nat \<Rightarrow> bool" where
  "dead s t \<longleftrightarrow> tstate (thr s t) = THREAD_ZOMBIE \<or> proc_zombie t s"

definition due :: "nat \<Rightarrow> sys \<Rightarrow> nat \<Rightarrow> bool" where
  "due ticks s t \<longleftrightarrow> \<not> dead s t \<and> sleep_until_tick (thr s t) \<le> ticks"

definition asleep :: "nat \<Rightarrow> sys \<Rightarrow> nat \<Rightarrow> bool" where
  "asleep ticks s t \<longleftrightarrow> \<not> dead s t \<and> ticks < sleep_until_tick (thr s t)"

definition woken_thr :: "nat \<Rightarrow> sys \<Rightarrow> nat set \<Rightarrow> nat \<Rightarrow> thread" where
  "woken_thr ticks s D t =
     (if t \<in> D \<and> dead s t then (thr s t)\<lparr>tstate := THREAD_ZOMBIE\<rparr>
      else if t \<in> D \<and> due ticks s t then (thr s t)\<lparr>tstate := THREAD_READY\<rparr> else thr s t)"

lemma woken_thr_empty [simp]: "woken_thr ticks s {} = thr s"
  by (simp add: woken_thr_def fun_eq_iff)

lemma proc_zombie_cong: "tproc (thr s' t) = tproc (thr s t) \<Longrightarrow> prc s' = prc s \<Longrightarrow> proc_zombie t s' = proc_zombie t s"
  by (simp add: proc_zombie_def split: option.split)

text \<open>The state of the walk over the sleeping queue once the threads \<open>ds\<close> have been visited.\<close>

definition wake_state :: "nat \<Rightarrow> sys \<Rightarrow> (node \<Rightarrow> node list) \<Rightarrow> nat list \<Rightarrow> nat list \<Rightarrow> nat list \<Rightarrow> sys \<Rightarrow> bool" where
  "wake_state ticks s q rs ds ys s' \<longleftrightarrow>
     (\<exists>q'. squeues (lnk s') q' (rs @ filter (due ticks s) ds) (filter (asleep ticks s) ds @ ys) \<and> same_other q q') \<and>
     s' = s\<lparr>lnk := lnk s', thr := woken_thr ticks s (set ds)\<rparr>"

lemma woken_thr_insert:
  "t \<notin> D \<Longrightarrow> woken_thr ticks s (insert t D) = (woken_thr ticks s D)(t :=
     if dead s t then (thr s t)\<lparr>tstate := THREAD_ZOMBIE\<rparr>
     else if due ticks s t then (thr s t)\<lparr>tstate := THREAD_READY\<rparr> else thr s t)"
  by (auto simp: woken_thr_def)

lemma wake_stateI:
  assumes "s' = s\<lparr>lnk := h, thr := woken_thr ticks s (set ds)\<rparr>" and "s'' = s'\<lparr>lnk := h', thr := f\<rparr>"
    and "f = woken_thr ticks s (set (ds @ [t]))"
    and "squeues h' q' (rs @ filter (due ticks s) (ds @ [t])) (filter (asleep ticks s) (ds @ [t]) @ ys)"
    and "same_other q q'"
  shows "wake_state ticks s q rs (ds @ [t]) ys s''"
  using assms(4,5) unfolding wake_state_def assms(1,2,3) by auto

lemma wake_step:
  assumes w: "wake_state ticks s q rs ds (t # ys) s'" and d: "distinct (ds @ t # ys)"
    and st: "tstate (thr s t) = THREAD_SLEEPING"
  shows "lnext (lnk s') (Sched_Node t) = hd (map Sched_Node ys @ [Sleeping_Queue])"
    and "\<not> fst (wake_sleeper ticks (Sched_Node t) s')"
    and "wake_state ticks s q rs (ds @ [t]) ys (snd (wake_sleeper ticks (Sched_Node t) s'))"
proof -
  obtain q' where q: "squeues (lnk s') q' (rs @ filter (due ticks s) ds) (filter (asleep ticks s) ds @ t # ys)"
    "same_other q q'" and s': "s' = s\<lparr>lnk := lnk s', thr := woken_thr ticks s (set ds)\<rparr>"
    using w by (auto simp: wake_state_def)
  have tt: "thr s' t = thr s t" "prc s' = prc s"
    using d by (subst s', simp add: woken_thr_def)+
  then have dd: "tstate (thr s' t) = THREAD_ZOMBIE \<or> proc_zombie t s' \<longleftrightarrow> dead s t"
    using proc_zombie_cong [of s' t s] by (simp add: dead_def)
  show "lnext (lnk s') (Sched_Node t) = hd (map Sched_Node ys @ [Sleeping_Queue])"
    using klist_lnext [of "lnk s'" Sleeping_Queue "map Sched_Node (filter (asleep ticks s) ds)" "Sched_Node t" "map Sched_Node ys"]
      ringsD(1) [OF squeuesD(1) [OF q(1)], of Sleeping_Queue] squeuesD(3) [OF q(1)] by simp
  show "\<not> fst (wake_sleeper ticks (Sched_Node t) s')"
    by (simp add: wake_sleeper_def)
  have nt: "t \<notin> set (rs @ filter (due ticks s) ds)" "t \<notin> set (filter (asleep ticks s) ds)"
    using squeuesD(6) [OF q(1)] d by auto
  have rm: "squeues (list_remove (Sched_Node t) (lnk s'))
      (q'(Sleeping_Queue := remove1 (Sched_Node t) (q' Sleeping_Queue))) (rs @ filter (due ticks s) ds)
      (filter (asleep ticks s) ds @ ys)"
    using squeues_remove_sleeping [OF q(1), of t] d by (simp add: remove1_append)
  have ins: "woken_thr ticks s (set (ds @ [t])) = (woken_thr ticks s (set ds))(t :=
     if dead s t then (thr s t)\<lparr>tstate := THREAD_ZOMBIE\<rparr>
     else if due ticks s t then (thr s t)\<lparr>tstate := THREAD_READY\<rparr> else thr s t)"
    using d woken_thr_insert [of t "set ds"] by simp
  have th: "thr s' = woken_thr ticks s (set ds)"
    by (subst s') simp
  consider (dead) "dead s t" "\<not> due ticks s t" "\<not> asleep ticks s t"
    | (due) "due ticks s t" "\<not> dead s t" "\<not> asleep ticks s t"
    | (asleep) "asleep ticks s t" "\<not> dead s t" "\<not> due ticks s t"
    unfolding due_def asleep_def by linarith
  then show "wake_state ticks s q rs (ds @ [t]) ys (snd (wake_sleeper ticks (Sched_Node t) s'))"
  proof cases
    case dead
    then have e: "snd (wake_sleeper ticks (Sched_Node t) s') = s'\<lparr>lnk := list_remove (Sched_Node t) (lnk s'),
        thr := (thr s')(t := (thr s' t)\<lparr>tstate := THREAD_ZOMBIE\<rparr>)\<rparr>"
      using dd by (simp add: wake_sleeper_def set_state_def upd_thr_def upd_lnk_def)
    have f: "(thr s')(t := (thr s' t)\<lparr>tstate := THREAD_ZOMBIE\<rparr>) = woken_thr ticks s (set (ds @ [t]))"
      using dead by (simp only: ins th [symmetric] tt if_True)
    show ?thesis
      by (rule wake_stateI [OF s' e f, where q' = "q'(Sleeping_Queue := remove1 (Sched_Node t) (q' Sleeping_Queue))"])
        (use dead rm q(2) in simp_all)
  next
    case due
    then have e: "snd (wake_sleeper ticks (Sched_Node t) s') =
        s'\<lparr>lnk := list_add_tail Ready_Queue (Sched_Node t) (list_remove (Sched_Node t) (lnk s')),
          thr := (thr s')(t := (thr s' t)\<lparr>tstate := THREAD_READY\<rparr>)\<rparr>"
      using dd tt by (simp add: wake_sleeper_def set_state_def upd_thr_def upd_lnk_def due_def)
    have "t \<notin> set (filter (asleep ticks s) ds @ ys)"
      using d by auto
    note add = squeues_add_ready [OF rm nt(1) this]
    have f: "(thr s')(t := (thr s' t)\<lparr>tstate := THREAD_READY\<rparr>) = woken_thr ticks s (set (ds @ [t]))"
      using due by (simp only: ins th [symmetric] tt if_True if_False)
    show ?thesis
      by (rule wake_stateI [OF s' e f _ iffD2 [OF same_other_upd(1) iffD2 [OF same_other_upd(2) q(2)]]])
        (use due add in simp)
  next
    case asleep
    then have e: "snd (wake_sleeper ticks (Sched_Node t) s') = s'\<lparr>lnk := lnk s', thr := thr s'\<rparr>"
      using dd tt by (simp add: wake_sleeper_def asleep_def)
    have f: "thr s' = woken_thr ticks s (set (ds @ [t]))"
      unfolding ins th [symmetric] using asleep tt(1) by (simp add: fun_upd_idem)
    show ?thesis
      by (rule wake_stateI [OF s' e f _ q(2)]) (use asleep q(1) in simp)
  qed
qed

lemma wake_sleepers_result:
  assumes q: "squeues (lnk s) q rs ss" and st: "\<forall>t \<in> set ss. tstate (thr s t) = THREAD_SLEEPING"
    and fuel: "length ss < fuel"
  obtains s' where "wake_sleepers fuel ticks s = Some s'"
    "wake_state ticks s q rs ss [] s'"
proof -
  let ?P = "\<lambda>ns s'. \<exists>ds ys. ss = ds @ ys \<and> ns = map Sched_Node ys \<and> wake_state ticks s q rs ds ys s'"
  have 0: "?P (map Sched_Node ss) s"
    using q by (intro exI [of _ "[]"] exI [of _ ss]) (auto simp: wake_state_def)
  have step: "lnext (lnk s') x = hd (ns @ [Sleeping_Queue]) \<and>
      (if fst (wake_sleeper ticks x s') then wake_state ticks s q rs ss [] (snd (wake_sleeper ticks x s'))
       else ?P ns (snd (wake_sleeper ticks x s')))" if "?P (x # ns) s'" for x ns s'
  proof -
    from that obtain ds t ys where w: "ss = ds @ t # ys" "x = Sched_Node t" "ns = map Sched_Node ys"
        "wake_state ticks s q rs ds (t # ys) s'"
      by (auto simp: Cons_eq_map_conv)
    have "distinct (ds @ t # ys)" "tstate (thr s t) = THREAD_SLEEPING"
      using squeuesD(5) [OF q] st w(1) by auto
    note ws = wake_step [OF w(4) this]
    have "?P ns (snd (wake_sleeper ticks x s'))"
      using ws(3) w by (intro exI [of _ "ds @ [t]"] exI [of _ ys]) simp
    with ws(1,2) w show ?thesis
      by simp
  qed
  have "\<exists>s'. list_for_each_safe fuel lnk (wake_sleeper ticks) Sleeping_Queue
      (hd (map Sched_Node ss @ [Sleeping_Queue])) s = Some s' \<and> wake_state ticks s q rs ss [] s'"
    by (rule list_for_each_safe_inv [where P = ?P]) (use 0 step fuel in auto)
  then show thesis
    using that ringsD(5) [OF squeuesD(1) [OF q], of Sleeping_Queue] squeuesD(3) [OF q]
    by (auto simp: wake_sleepers_def)
qed

text \<open>A thread that the CPU may take: its process is alive and its registers are saved, or it is here.\<close>

definition eligible :: "nat \<Rightarrow> sys \<Rightarrow> nat \<Rightarrow> bool" where
  "eligible cpu s t \<longleftrightarrow> \<not> proc_zombie t s \<and> (running_cpu (thr s t) = -1 \<or> running_cpu (thr s t) = int cpu)"

definition reaped_thr :: "sys \<Rightarrow> nat set \<Rightarrow> nat \<Rightarrow> thread" where
  "reaped_thr s D t = (if t \<in> D \<and> proc_zombie t s then (thr s t)\<lparr>tstate := THREAD_ZOMBIE\<rparr> else thr s t)"

lemma reaped_thr_empty [simp]: "reaped_thr s {} = thr s"
  by (simp add: reaped_thr_def fun_eq_iff)

text \<open>The walk over the ready queue: \<open>ds\<close> have been passed over, \<open>ys\<close> remain queued behind them.\<close>

definition pick_state :: "nat \<Rightarrow> sys \<Rightarrow> (node \<Rightarrow> node list) \<Rightarrow> nat list \<Rightarrow> nat list \<Rightarrow> nat list \<Rightarrow> sys \<Rightarrow> bool" where
  "pick_state cpu s q ss ds ys s' \<longleftrightarrow>
     (\<exists>q'. squeues (lnk s') q' (filter (\<lambda>t. \<not> proc_zombie t s) ds @ ys) ss \<and> same_other q q') \<and>
     (\<forall>t \<in> set ds. \<not> eligible cpu s t) \<and> s' = s\<lparr>lnk := lnk s', thr := reaped_thr s (set ds)\<rparr>"

lemma pick_step:
  assumes w: "pick_state cpu s q ss ds (t # ys) s'" and d: "distinct (ds @ t # ys)"
    and st: "tstate (thr s t) = THREAD_READY"
  shows "lnext (lnk s') (Sched_Node t) = hd (map Sched_Node ys @ [Ready_Queue])"
    and "eligible cpu s t \<Longrightarrow> \<exists>u. try_candidate cpu (Sched_Node t) (s', nxt) = (True, u, Some t) \<and>
      pick_state cpu s q ss ds ys u"
    and "\<not> eligible cpu s t \<Longrightarrow> \<exists>u. try_candidate cpu (Sched_Node t) (s', nxt) = (False, u, nxt) \<and>
      pick_state cpu s q ss (ds @ [t]) ys u"
proof -
  let ?f = "filter (\<lambda>t. \<not> proc_zombie t s)"
  obtain q' where q: "squeues (lnk s') q' (?f ds @ t # ys) ss" "same_other q q'"
    and ne: "\<forall>t \<in> set ds. \<not> eligible cpu s t" and s': "s' = s\<lparr>lnk := lnk s', thr := reaped_thr s (set ds)\<rparr>"
    using w by (auto simp: pick_state_def)
  have tt: "thr s' t = thr s t" "prc s' = prc s" "thr s' = reaped_thr s (set ds)"
    using d by (subst s', simp add: reaped_thr_def)+
  then have pz: "proc_zombie t s' = proc_zombie t s"
    by (intro proc_zombie_cong) simp_all
  show "lnext (lnk s') (Sched_Node t) = hd (map Sched_Node ys @ [Ready_Queue])"
    using klist_lnext [of "lnk s'" Ready_Queue "map Sched_Node (?f ds)" "Sched_Node t" "map Sched_Node ys"]
      ringsD(1) [OF squeuesD(1) [OF q(1)], of Ready_Queue] squeuesD(2) [OF q(1)] by simp
  have rm: "squeues (list_remove (Sched_Node t) (lnk s'))
      (q'(Ready_Queue := remove1 (Sched_Node t) (q' Ready_Queue))) (?f ds @ ys) ss"
    using squeues_remove_ready [OF q(1), of t] d by (simp add: remove1_append)
  show "\<exists>u. try_candidate cpu (Sched_Node t) (s', nxt) = (True, u, Some t) \<and> pick_state cpu s q ss ds ys u"
    if "eligible cpu s t"
  proof -
    have "pick_state cpu s q ss ds ys (s'\<lparr>lnk := list_remove (Sched_Node t) (lnk s')\<rparr>)"
      unfolding pick_state_def using rm q(2) ne by (auto simp: tt(3)) (subst s', simp)
    then show ?thesis
      using that st by (simp add: try_candidate_def tt(1) pz eligible_def upd_lnk_def)
  qed
  show "\<exists>u. try_candidate cpu (Sched_Node t) (s', nxt) = (False, u, nxt) \<and> pick_state cpu s q ss (ds @ [t]) ys u"
    if e: "\<not> eligible cpu s t"
  proof (cases "proc_zombie t s")
    case True
    let ?u = "s'\<lparr>lnk := list_remove (Sched_Node t) (lnk s'), thr := (thr s')(t := (thr s' t)\<lparr>tstate := THREAD_ZOMBIE\<rparr>)\<rparr>"
    have "(thr s')(t := (thr s' t)\<lparr>tstate := THREAD_ZOMBIE\<rparr>) = reaped_thr s (set (ds @ [t]))"
      using True by (auto simp: tt reaped_thr_def)
    then have "pick_state cpu s q ss (ds @ [t]) ys ?u"
      unfolding pick_state_def using rm q(2) ne e True by (auto simp del: fun_upd_apply) (subst s', simp)
    then show ?thesis
      using True st by (simp add: try_candidate_def tt(1) pz upd_lnk_def upd_thr_def set_state_def)
  next
    case False
    have "reaped_thr s (set (ds @ [t])) = reaped_thr s (set ds)"
      using False by (auto simp: reaped_thr_def)
    then have "pick_state cpu s q ss (ds @ [t]) ys s'"
      unfolding pick_state_def using q ne e False s' by auto
    then show ?thesis
      using False e st by (simp add: try_candidate_def tt(1) pz eligible_def)
  qed
qed

lemma pick_next_result:
  assumes q: "squeues (lnk s) q rs ss" and st: "\<forall>t \<in> set rs. tstate (thr s t) = THREAD_READY"
    and fuel: "length rs < fuel"
  obtains (none) s' where "pick_next fuel cpu s = Some (s', None)" "pick_state cpu s q ss rs [] s'"
  | (found) s' t ds ys where "pick_next fuel cpu s = Some (s', Some t)" "rs = ds @ t # ys"
      "eligible cpu s t" "pick_state cpu s q ss ds ys s'"
proof -
  let ?P = "\<lambda>ns (s', nxt). nxt = None \<and> (\<exists>ds ys. rs = ds @ ys \<and> ns = map Sched_Node ys \<and> pick_state cpu s q ss ds ys s')"
  let ?Q = "\<lambda>(s', nxt). nxt = None \<and> pick_state cpu s q ss rs [] s' \<or>
    (\<exists>t ds ys. nxt = Some t \<and> rs = ds @ t # ys \<and> eligible cpu s t \<and> pick_state cpu s q ss ds ys s')"
  have 0: "?P (map Sched_Node rs) (s, None)"
  proof -
    have "pick_state cpu s q ss [] rs s"
      using q by (auto simp: pick_state_def)
    then show ?thesis
      by auto
  qed
  have step: "lnext ((lnk \<circ> fst) p) x = hd (ns @ [Ready_Queue]) \<and>
      (if fst (try_candidate cpu x p) then ?Q (snd (try_candidate cpu x p)) else ?P ns (snd (try_candidate cpu x p)))"
    if "?P (x # ns) p" for x ns p
  proof -
    from that obtain s' ds t ys where w: "p = (s', None)" "rs = ds @ t # ys" "x = Sched_Node t" "ns = map Sched_Node ys"
        "pick_state cpu s q ss ds (t # ys) s'"
      by (auto simp: Cons_eq_map_conv)
    have "distinct (ds @ t # ys)" "tstate (thr s t) = THREAD_READY"
      using squeuesD(4) [OF q] st w(2) by auto
    note ps = pick_step [OF w(5) this]
    show ?thesis
    proof (cases "eligible cpu s t")
      case True
      then show ?thesis
        using ps(1) ps(2) [OF True, of None] w by auto
    next
      case False
      obtain u where u: "try_candidate cpu (Sched_Node t) (s', None) = (False, u, None)"
          "pick_state cpu s q ss (ds @ [t]) ys u"
        using ps(3) [OF False, of None] by auto
      have "?P ns (u, None)"
        using u(2) w by (simp, intro exI [of _ "ds @ [t]"] exI [of _ ys]) simp
      then show ?thesis
        using ps(1) u(1) w by simp
    qed
  qed
  have "\<exists>p. list_for_each_safe fuel (lnk \<circ> fst) (try_candidate cpu) Ready_Queue
      (hd (map Sched_Node rs @ [Ready_Queue])) (s, None) = Some p \<and> ?Q p"
  proof (rule list_for_each_safe_inv [where P = ?P and Q = ?Q])
    show "?Q p" if "?P [] p" for p
      using that by auto
    show "lnext ((lnk \<circ> fst) p) x = hd (ns @ [Ready_Queue]) \<and>
        (if fst (try_candidate cpu x p) then ?Q (snd (try_candidate cpu x p)) else ?P ns (snd (try_candidate cpu x p)))"
      if "?P (x # ns) p" for x ns p
      using that by (rule step)
    show "?P (map Sched_Node rs) (s, None)"
      by (rule 0)
  qed (use fuel in auto)
  then obtain p where p: "list_for_each_safe fuel (lnk \<circ> fst) (try_candidate cpu) Ready_Queue
      (hd (map Sched_Node rs @ [Ready_Queue])) (s, None) = Some p" "?Q p"
    by blast
  have "lnext (lnk s) Ready_Queue = hd (map Sched_Node rs @ [Ready_Queue])"
    using ringsD(5) [OF squeuesD(1) [OF q], of Ready_Queue] squeuesD(2) [OF q] by simp
  with p(1) have "pick_next fuel cpu s = Some p"
    by (simp only: pick_next_def)
  with p(2) show thesis
    using none found by (cases p) blast
qed

section \<open>The scheduler invariant\<close>

definition is_idle :: "sys \<Rightarrow> nat \<Rightarrow> bool" where
  "is_idle s t \<longleftrightarrow> (\<exists>c. g_idle_threads s c = Some t)"

text \<open>
  Queues and states agree: exactly the ready threads are on the ready queue and exactly the
  sleeping ones on the sleeping queue; idle threads are on neither. \<open>X\<close> exempts a thread that is
  between two queues.
\<close>

definition queue_inv :: "nat set \<Rightarrow> sys \<Rightarrow> (node \<Rightarrow> node list) \<Rightarrow> nat list \<Rightarrow> nat list \<Rightarrow> bool" where
  "queue_inv X s q rs ss \<longleftrightarrow> squeues (lnk s) q rs ss \<and>
     (\<forall>t \<in> set rs. tstate (thr s t) = THREAD_READY \<and> \<not> is_idle s t) \<and>
     (\<forall>t \<in> set ss. tstate (thr s t) = THREAD_SLEEPING \<and> \<not> is_idle s t) \<and>
     (\<forall>t. tstate (thr s t) = THREAD_READY \<and> \<not> is_idle s t \<and> t \<notin> X \<longrightarrow> t \<in> set rs) \<and>
     (\<forall>t. tstate (thr s t) = THREAD_SLEEPING \<and> \<not> is_idle s t \<and> t \<notin> X \<longrightarrow> t \<in> set ss)"

text \<open>
  Threads and CPUs agree: \<open>running_cpu\<close> of a thread names the CPU that executes it or is still
  saving its registers and is \<open>-1\<close> for all others; an idle thread only runs on its own CPU; a
  running thread is the current one of some CPU.
\<close>

definition on_cpu :: "sys \<Rightarrow> nat \<Rightarrow> nat \<Rightarrow> bool" where
  "on_cpu s c t \<longleftrightarrow> current_thread s c = Some t \<or> switching s c = Some t"

definition cpu_inv :: "sys \<Rightarrow> bool" where
  "cpu_inv s \<longleftrightarrow>
     (\<forall>c d i. g_idle_threads s c = Some i \<and> g_idle_threads s d = Some i \<longrightarrow> c = d) \<and>
     (\<forall>c t. current_thread s c = Some t \<and> is_idle s t \<longrightarrow> g_idle_threads s c = Some t) \<and>
     (\<forall>c t. switching s c = Some t \<longrightarrow> \<not> is_idle s t \<and> current_thread s c \<noteq> Some t) \<and>
     (\<forall>c t. on_cpu s c t \<and> \<not> is_idle s t \<longrightarrow> running_cpu (thr s t) = int c) \<and>
     (\<forall>t. \<not> is_idle s t \<and> running_cpu (thr s t) \<noteq> -1 \<longrightarrow> (\<exists>c. on_cpu s c t)) \<and>
     (\<forall>t. tstate (thr s t) = THREAD_RUNNING \<and> \<not> is_idle s t \<longrightarrow> (\<exists>c. current_thread s c = Some t))"

definition sched_inv :: "sys \<Rightarrow> bool" where
  "sched_inv s \<longleftrightarrow> cpu_inv s \<and> (\<exists>q rs ss. queue_inv {} s q rs ss)"

lemma cpu_inv_unique:
  assumes "cpu_inv s" and "on_cpu s c t" and "on_cpu s d t"
  shows "c = d"
proof (cases "is_idle s t")
  case True
  then have "g_idle_threads s c = Some t" "g_idle_threads s d = Some t"
    using assms unfolding cpu_inv_def on_cpu_def by blast+
  then show ?thesis
    using assms(1) unfolding cpu_inv_def by blast
next
  case False
  then have "int c = int d"
    using assms unfolding cpu_inv_def by metis
  then show ?thesis
    by simp
qed

lemma is_idle_upd [simp]: "is_idle (upd_thr t f s) = is_idle s" "is_idle (upd_lnk g s) = is_idle s"
  "is_idle (set_state st t s) = is_idle s"
  by (simp_all add: is_idle_def fun_eq_iff set_state_def)

lemma on_cpu_upd [simp]: "on_cpu (upd_thr t f s) = on_cpu s" "on_cpu (upd_lnk g s) = on_cpu s"
  by (simp_all add: on_cpu_def fun_eq_iff)

text \<open>A change of states that makes nothing running keeps the CPU part of the invariant.\<close>

lemma cpu_inv_mono:
  assumes "cpu_inv s" and "current_thread s' = current_thread s" "g_idle_threads s' = g_idle_threads s"
    "switching s' = switching s"
    and "\<And>t. running_cpu (thr s' t) = running_cpu (thr s t)"
    and "\<And>t. tstate (thr s' t) = THREAD_RUNNING \<Longrightarrow> tstate (thr s t) = THREAD_RUNNING"
  shows "cpu_inv s'"
proof -
  have "is_idle s' = is_idle s" "on_cpu s' = on_cpu s"
    using assms(2-4) by (simp_all add: is_idle_def on_cpu_def fun_eq_iff)
  with assms show ?thesis
    by (simp add: cpu_inv_def)
qed

lemma queue_invD:
  assumes "queue_inv X s q rs ss"
  shows "squeues (lnk s) q rs ss" "\<forall>t \<in> set rs. tstate (thr s t) = THREAD_READY"
    "\<forall>t \<in> set ss. tstate (thr s t) = THREAD_SLEEPING" "t \<in> set rs \<Longrightarrow> \<not> is_idle s t" "t \<in> set ss \<Longrightarrow> \<not> is_idle s t"
    "tstate (thr s t) = THREAD_READY \<Longrightarrow> \<not> is_idle s t \<Longrightarrow> t \<notin> X \<Longrightarrow> t \<in> set rs"
    "tstate (thr s t) = THREAD_SLEEPING \<Longrightarrow> \<not> is_idle s t \<Longrightarrow> t \<notin> X \<Longrightarrow> t \<in> set ss"
  using assms unfolding queue_inv_def by blast+

lemma queue_invI:
  assumes "squeues (lnk s) q rs ss" "is_idle s = is_idle r"
    and "\<And>t. t \<in> set rs \<Longrightarrow> tstate (thr s t) = THREAD_READY \<and> \<not> is_idle r t"
    and "\<And>t. t \<in> set ss \<Longrightarrow> tstate (thr s t) = THREAD_SLEEPING \<and> \<not> is_idle r t"
    and "\<And>t. tstate (thr s t) = THREAD_READY \<Longrightarrow> \<not> is_idle r t \<Longrightarrow> t \<notin> X \<Longrightarrow> t \<in> set rs"
    and "\<And>t. tstate (thr s t) = THREAD_SLEEPING \<Longrightarrow> \<not> is_idle r t \<Longrightarrow> t \<notin> X \<Longrightarrow> t \<in> set ss"
  shows "queue_inv X s q rs ss"
  unfolding queue_inv_def assms(2) using assms(1,3-6) by blast

lemma queue_inv_ready:
  assumes q: "queue_inv X s q rs ss" and "\<not> is_idle s p" and "p \<notin> set ss"
    and "squeues h q' (rs @ [p]) ss"
  shows "queue_inv X ((set_state THREAD_READY p s)\<lparr>lnk := h\<rparr>) q' (rs @ [p]) ss"
proof -
  let ?s = "(set_state THREAD_READY p s)\<lparr>lnk := h\<rparr>"
  have i: "is_idle ?s = is_idle s" and t: "thr ?s = (thr s)(p := (thr s p)\<lparr>tstate := THREAD_READY\<rparr>)"
    by (simp_all add: is_idle_def fun_eq_iff set_state_def)
  show ?thesis
  proof (rule queue_invI [OF _ i])
    fix u
    show "u \<in> set (rs @ [p]) \<Longrightarrow> tstate (thr ?s u) = THREAD_READY \<and> \<not> is_idle s u"
      unfolding t using queue_invD(2,4) [OF q] assms(2) by (cases "u = p") auto
    show "u \<in> set ss \<Longrightarrow> tstate (thr ?s u) = THREAD_SLEEPING \<and> \<not> is_idle s u"
      unfolding t using queue_invD(3,5) [OF q] assms(3) by (cases "u = p") auto
    show "tstate (thr ?s u) = THREAD_READY \<Longrightarrow> \<not> is_idle s u \<Longrightarrow> u \<notin> X \<Longrightarrow> u \<in> set (rs @ [p])"
      unfolding t using queue_invD(6) [OF q, of u] by (cases "u = p") simp_all
    show "tstate (thr ?s u) = THREAD_SLEEPING \<Longrightarrow> \<not> is_idle s u \<Longrightarrow> u \<notin> X \<Longrightarrow> u \<in> set ss"
      unfolding t using queue_invD(7) [OF q, of u] by (cases "u = p") simp_all
  qed (simp add: assms(4))
qed

lemma requeue_prev_inv:
  assumes q: "queue_inv {} s q rs ss" and c: "cpu_inv s"
  obtains q' rs' where "queue_inv {} (requeue_prev cpu s) q' rs' ss" "cpu_inv (requeue_prev cpu s)"
    "length rs' \<le> Suc (length rs)" "same_other q q'"
    "\<And>p. current_thread s cpu = Some p \<Longrightarrow> \<not> is_idle s p \<Longrightarrow> tstate (thr (requeue_prev cpu s) p) \<noteq> THREAD_RUNNING"
proof (cases "requeue_prev cpu s = s")
  case True
  moreover have "tstate (thr s p) \<noteq> THREAD_RUNNING" if p: "current_thread s cpu = Some p" "\<not> is_idle s p" for p
  proof
    assume r: "tstate (thr s p) = THREAD_RUNNING"
    have "Some p \<noteq> idle_of cpu s"
      using p(2) by (auto simp: idle_of_def is_idle_def split: option.splits)
    then have "lnk (requeue_prev cpu s) = list_add_tail Ready_Queue (Sched_Node p) (lnk s)"
      "tstate (thr (requeue_prev cpu s) p) = THREAD_READY"
      using p(1) r by (simp_all add: requeue_prev_def set_state_def)
    with True r show False
      by simp
  qed
  ultimately show thesis
    using that [of q rs] q c by simp
next
  case False
  then obtain p where p: "current_thread s cpu = Some p" "Some p \<noteq> idle_of cpu s" "tstate (thr s p) = THREAD_RUNNING"
    by (auto simp: requeue_prev_def split: option.splits if_splits)
  then have e: "requeue_prev cpu s = upd_lnk (list_add_tail Ready_Queue (Sched_Node p)) (set_state THREAD_READY p s)"
    by (simp add: requeue_prev_def)
  have ni: "\<not> is_idle s p"
    using c p by (auto simp: cpu_inv_def idle_of_def)
  have n: "p \<notin> set rs" "p \<notin> set ss"
    using queue_invD(2,3) [OF q] p(3) by auto
  have "queue_inv {} (requeue_prev cpu s) (q(Ready_Queue := q Ready_Queue @ [Sched_Node p])) (rs @ [p]) ss"
    using squeues_add_ready [OF queue_invD(1) [OF q] n] q ni n(2) unfolding e
    using queue_inv_ready [OF q ni n(2)] by (simp add: upd_lnk_def set_state_def)
  moreover have "cpu_inv (requeue_prev cpu s)"
    by (rule cpu_inv_mono [OF c]) (auto simp: e set_state_def split: if_splits)
  ultimately show thesis
    using p(1) by (intro that) (auto simp: e set_state_def)
qed

lemma wake_sleepers_inv:
  assumes q: "queue_inv {} s q rs ss" and c: "cpu_inv s" and fuel: "length ss < fuel"
  obtains s' q' where "wake_sleepers fuel ticks s = Some s'" "cpu_inv s'"
    "queue_inv {} s' q' (rs @ filter (due ticks s) ss) (filter (asleep ticks s) ss)" "same_other q q'"
    "s' = s\<lparr>lnk := lnk s', thr := woken_thr ticks s (set ss)\<rparr>"
proof -
  obtain s' where w: "wake_sleepers fuel ticks s = Some s'" "wake_state ticks s q rs ss [] s'"
    using wake_sleepers_result [OF queue_invD(1,3) [OF q] fuel] by blast
  then obtain q' where q': "squeues (lnk s') q' (rs @ filter (due ticks s) ss) (filter (asleep ticks s) ss)" "same_other q q'"
    and s': "s' = s\<lparr>lnk := lnk s', thr := woken_thr ticks s (set ss)\<rparr>"
    by (auto simp: wake_state_def)
  have sel: "thr s' = woken_thr ticks s (set ss)" "current_thread s' = current_thread s"
    "g_idle_threads s' = g_idle_threads s" "switching s' = switching s"
    by (subst s', simp)+
  then have idle: "is_idle s' = is_idle s"
    by (simp add: is_idle_def fun_eq_iff)
  have "cpu_inv s'"
    by (rule cpu_inv_mono [OF c]) (auto simp: sel woken_thr_def split: if_splits)
  moreover have "queue_inv {} s' q' (rs @ filter (due ticks s) ss) (filter (asleep ticks s) ss)"
  proof (rule queue_invI [OF q'(1) idle])
    fix t
    show "tstate (thr s' t) = THREAD_READY \<and> \<not> is_idle s t" if "t \<in> set (rs @ filter (due ticks s) ss)"
      unfolding sel(1) using that queue_invD(2,4,5) [OF q] squeuesD(6) [OF queue_invD(1) [OF q]]
      by (auto simp: woken_thr_def due_def)
    show "tstate (thr s' t) = THREAD_SLEEPING \<and> \<not> is_idle s t" if "t \<in> set (filter (asleep ticks s) ss)"
      unfolding sel(1) using that queue_invD(3,5) [OF q] by (auto simp: woken_thr_def due_def asleep_def)
    show "t \<in> set (rs @ filter (due ticks s) ss)"
      if "tstate (thr s' t) = THREAD_READY" "\<not> is_idle s t" "t \<notin> {}"
      using that queue_invD(6) [OF q, of t] unfolding sel(1) by (auto simp: woken_thr_def split: if_splits)
    show "t \<in> set (filter (asleep ticks s) ss)"
      if "tstate (thr s' t) = THREAD_SLEEPING" "\<not> is_idle s t" "t \<notin> {}"
      using that queue_invD(7) [OF q, of t] unfolding sel(1)
      by (auto simp: woken_thr_def due_def asleep_def split: if_splits)
  qed
  ultimately show thesis
    using that w(1) q'(2) s' by blast
qed

lemma pick_state_inv:
  assumes q: "queue_inv {} s q (ds @ zs @ ys) ss" and c: "cpu_inv s" and w: "pick_state cpu s q ss ds ys s'"
    and d: "distinct (ds @ zs @ ys)"
  obtains q' where "queue_inv (set zs) s' q' (filter (\<lambda>t. \<not> proc_zombie t s) ds @ ys) ss" "cpu_inv s'" "same_other q q'"
    "thr s' = reaped_thr s (set ds)" "current_thread s' = current_thread s"
    "g_idle_threads s' = g_idle_threads s" "switching s' = switching s" "prc s' = prc s"
    "g_sched_started s' = g_sched_started s"
proof -
  let ?rs = "filter (\<lambda>t. \<not> proc_zombie t s) ds @ ys"
  obtain q' where q': "squeues (lnk s') q' ?rs ss" "same_other q q'"
    and s': "s' = s\<lparr>lnk := lnk s', thr := reaped_thr s (set ds)\<rparr>"
    using w by (auto simp: pick_state_def)
  have sel: "thr s' = reaped_thr s (set ds)" "current_thread s' = current_thread s"
    "g_idle_threads s' = g_idle_threads s" "switching s' = switching s" "prc s' = prc s"
    "g_sched_started s' = g_sched_started s"
    by (subst s', simp)+
  then have idle: "is_idle s' = is_idle s"
    by (simp add: is_idle_def fun_eq_iff)
  have "cpu_inv s'"
    by (rule cpu_inv_mono [OF c]) (auto simp: sel reaped_thr_def split: if_splits)
  moreover have "queue_inv (set zs) s' q' ?rs ss"
  proof (rule queue_invI [OF q'(1) idle])
    fix t
    show "tstate (thr s' t) = THREAD_READY \<and> \<not> is_idle s t" if "t \<in> set ?rs"
      unfolding sel(1) using that queue_invD(2,4) [OF q] d by (auto simp: reaped_thr_def)
    show "tstate (thr s' t) = THREAD_SLEEPING \<and> \<not> is_idle s t" if "t \<in> set ss"
      unfolding sel(1) using that queue_invD(3,5) [OF q] squeuesD(6) [OF queue_invD(1) [OF q]]
      by (auto simp: reaped_thr_def)
    show "t \<in> set ?rs" if "tstate (thr s' t) = THREAD_READY" "\<not> is_idle s t" "t \<notin> set zs"
      using that queue_invD(6) [OF q, of t] unfolding sel(1) by (auto simp: reaped_thr_def split: if_splits)
    show "t \<in> set ss" if "tstate (thr s' t) = THREAD_SLEEPING" "\<not> is_idle s t" "t \<notin> set zs"
      using that queue_invD(7) [OF q, of t] unfolding sel(1) by (auto simp: reaped_thr_def split: if_splits)
  qed
  ultimately show thesis
    using that q'(2) sel by blast
qed

lemma account_prev_sel [simp]:
  "lnk (account_prev now p s) = lnk s" "tstate (thr (account_prev now p s) t) = tstate (thr s t)"
  "running_cpu (thr (account_prev now p s) t) = running_cpu (thr s t)"
  "current_thread (account_prev now p s) = current_thread s" "g_idle_threads (account_prev now p s) = g_idle_threads s"
  "switching (account_prev now p s) = switching s" "g_sched_started (account_prev now p s) = g_sched_started s"
  by (auto simp: account_prev_def Let_def upd_thr_def split: option.splits)

lemma switch_to_sel:
  "lnk (switch_to cpu now nxt s) = lnk s" "g_idle_threads (switch_to cpu now nxt s) = g_idle_threads s"
  "tstate (thr (switch_to cpu now nxt s) t) = (if t = nxt then THREAD_RUNNING else tstate (thr s t))"
  "running_cpu (thr (switch_to cpu now nxt s) t) = (if t = nxt then int cpu else running_cpu (thr s t))"
  "current_thread (switch_to cpu now nxt s) = (current_thread s)(cpu := Some nxt)"
  "switching (switch_to cpu now nxt s) =
     (if current_thread s cpu = Some nxt then switching s
      else (switching s)(cpu := if current_thread s cpu \<noteq> idle_of cpu s then current_thread s cpu else None))"
  "g_sched_started (switch_to cpu now nxt s) = g_sched_started s"
  by (auto simp: switch_to_def Let_def)

lemma switch_to_queue_inv:
  assumes q: "queue_inv X s q rs ss" and n: "nxt \<notin> set rs" "nxt \<notin> set ss" "X \<subseteq> {nxt}"
  shows "queue_inv {} (switch_to cpu now nxt s) q rs ss"
proof (rule queue_invI [where r = s])
  let ?s = "switch_to cpu now nxt s"
  show "squeues (lnk ?s) q rs ss"
    using queue_invD(1) [OF q] by (simp add: switch_to_sel)
  show "is_idle ?s = is_idle s"
    by (simp add: is_idle_def fun_eq_iff switch_to_sel)
  fix t
  show "t \<in> set rs \<Longrightarrow> tstate (thr ?s t) = THREAD_READY \<and> \<not> is_idle s t"
    using queue_invD(2,4) [OF q] n(1) by (auto simp: switch_to_sel)
  show "t \<in> set ss \<Longrightarrow> tstate (thr ?s t) = THREAD_SLEEPING \<and> \<not> is_idle s t"
    using queue_invD(3,5) [OF q] n(2) by (auto simp: switch_to_sel)
  show "tstate (thr ?s t) = THREAD_READY \<Longrightarrow> \<not> is_idle s t \<Longrightarrow> t \<notin> {} \<Longrightarrow> t \<in> set rs"
    using queue_invD(6) [OF q, of t] n(3) by (cases "t = nxt") (auto simp: switch_to_sel)
  show "tstate (thr ?s t) = THREAD_SLEEPING \<Longrightarrow> \<not> is_idle s t \<Longrightarrow> t \<notin> {} \<Longrightarrow> t \<in> set ss"
    using queue_invD(7) [OF q, of t] n(3) by (cases "t = nxt") (auto simp: switch_to_sel)
qed

lemma cpu_invD:
  assumes "cpu_inv s"
  shows "g_idle_threads s c = Some i \<Longrightarrow> g_idle_threads s d = Some i \<Longrightarrow> c = d"
    "current_thread s c = Some t \<Longrightarrow> is_idle s t \<Longrightarrow> g_idle_threads s c = Some t"
    "switching s c = Some t \<Longrightarrow> \<not> is_idle s t" "switching s c = Some t \<Longrightarrow> current_thread s c \<noteq> Some t"
    "on_cpu s c t \<Longrightarrow> \<not> is_idle s t \<Longrightarrow> running_cpu (thr s t) = int c"
    "\<not> is_idle s t \<Longrightarrow> running_cpu (thr s t) \<noteq> -1 \<Longrightarrow> \<exists>c. on_cpu s c t"
    "tstate (thr s t) = THREAD_RUNNING \<Longrightarrow> \<not> is_idle s t \<Longrightarrow> \<exists>c. current_thread s c = Some t"
  using assms unfolding cpu_inv_def by blast+

lemma cpu_invI:
  assumes "is_idle s = is_idle r"
    and "\<And>c d i. g_idle_threads s c = Some i \<Longrightarrow> g_idle_threads s d = Some i \<Longrightarrow> c = d"
    and "\<And>c t. current_thread s c = Some t \<Longrightarrow> is_idle r t \<Longrightarrow> g_idle_threads s c = Some t"
    and "\<And>c t. switching s c = Some t \<Longrightarrow> \<not> is_idle r t \<and> current_thread s c \<noteq> Some t"
    and "\<And>c t. on_cpu s c t \<Longrightarrow> \<not> is_idle r t \<Longrightarrow> running_cpu (thr s t) = int c"
    and "\<And>t. \<not> is_idle r t \<Longrightarrow> running_cpu (thr s t) \<noteq> -1 \<Longrightarrow> \<exists>c. on_cpu s c t"
    and "\<And>t. tstate (thr s t) = THREAD_RUNNING \<Longrightarrow> \<not> is_idle r t \<Longrightarrow> \<exists>c. current_thread s c = Some t"
  shows "cpu_inv s"
  unfolding cpu_inv_def assms(1) using assms(2-7) by blast

lemma switch_to_cpu_inv:
  assumes c: "cpu_inv s" and sw: "switching s cpu = None" and idle: "g_idle_threads s cpu = Some i"
    and nxt: "is_idle s nxt \<Longrightarrow> nxt = i"
      "\<not> is_idle s nxt \<Longrightarrow> running_cpu (thr s nxt) = -1 \<or> running_cpu (thr s nxt) = int cpu"
    and prev: "\<And>p. current_thread s cpu = Some p \<Longrightarrow> \<not> is_idle s p \<Longrightarrow> tstate (thr s p) \<noteq> THREAD_RUNNING"
  shows "cpu_inv (switch_to cpu now nxt s)"
proof (rule cpu_invI [where r = s])
  let ?s = "switch_to cpu now nxt s"
  have io: "idle_of cpu s = Some i"
    using idle by (simp add: idle_of_def)
  have on: "on_cpu ?s d t \<longleftrightarrow> (if d = cpu then t = nxt \<or> current_thread s cpu = Some t \<and> t \<noteq> i else on_cpu s d t)" for d t
    using sw by (auto simp: on_cpu_def switch_to_sel io)
  show "is_idle ?s = is_idle s"
    by (simp add: is_idle_def fun_eq_iff switch_to_sel)
  show "a = b" if "g_idle_threads ?s a = Some j" "g_idle_threads ?s b = Some j" for a b j
    using that cpu_invD(1) [OF c] by (simp add: switch_to_sel)
  show "g_idle_threads ?s d = Some t" if "current_thread ?s d = Some t" "is_idle s t" for d t
    using that cpu_invD(2) [OF c, of d t] nxt(1) idle by (auto simp: switch_to_sel split: if_splits)
  show "\<not> is_idle s t \<and> current_thread ?s d \<noteq> Some t" if "switching ?s d = Some t" for d t
    using that sw cpu_invD(2) [OF c, of cpu t] cpu_invD(3,4) [OF c, of d t] idle
    by (auto simp: switch_to_sel io split: if_splits)
  show "running_cpu (thr ?s t) = int d" if "on_cpu ?s d t" "\<not> is_idle s t" for d t
  proof (cases "t = nxt")
    case True
    then have "d = cpu"
      using that nxt(2) cpu_invD(5) [OF c, of d t] by (auto simp: on split: if_splits)
    with True show ?thesis
      by (simp add: switch_to_sel)
  next
    case False
    then have "on_cpu s d t"
      using that(1) unfolding on by (auto simp: on_cpu_def split: if_splits)
    with False that(2) show ?thesis
      using cpu_invD(5) [OF c] by (simp add: switch_to_sel)
  qed
  show "\<exists>d. on_cpu ?s d t" if h: "\<not> is_idle s t" "running_cpu (thr ?s t) \<noteq> -1" for t
  proof (cases "t = nxt")
    case True
    then show ?thesis
      by (intro exI [of _ cpu]) (simp add: on)
  next
    case False
    then obtain d where d: "on_cpu s d t"
      using cpu_invD(6) [OF c h(1)] h(2) by (auto simp: switch_to_sel)
    have "t \<noteq> i"
      using h(1) idle by (auto simp: is_idle_def)
    with d sw show ?thesis
      by (intro exI [of _ d]) (auto simp: on, auto simp: on_cpu_def)
  qed
  show "\<exists>d. current_thread ?s d = Some t" if h: "tstate (thr ?s t) = THREAD_RUNNING" "\<not> is_idle s t" for t
  proof (cases "t = nxt")
    case True
    then show ?thesis
      by (intro exI [of _ cpu]) (simp add: switch_to_sel)
  next
    case False
    then have r: "tstate (thr s t) = THREAD_RUNNING"
      using h(1) by (simp add: switch_to_sel)
    then obtain d where d: "current_thread s d = Some t"
      using cpu_invD(7) [OF c _ h(2)] by blast
    have "d \<noteq> cpu"
      using prev [of t] d r h(2) by auto
    with d show ?thesis
      by (intro exI [of _ d]) (simp add: switch_to_sel)
  qed
qed

text \<open>
  The first half of \<open>sched_yield\<close>: the thread that gives up the CPU is queued, then the sleepers
  that are due.
\<close>

lemma yield_prepare:
  assumes q: "queue_inv {} s q rs ss" and c: "cpu_inv s" and fuel: "Suc (length rs + length ss) < fuel"
  obtains s2 q2 rs2 ss2 where "wake_sleepers fuel ticks (requeue_prev cpu s) = Some s2" "cpu_inv s2"
    "queue_inv {} s2 q2 rs2 ss2" "same_other q q2" "length rs2 < fuel"
    "current_thread s2 = current_thread s" "g_idle_threads s2 = g_idle_threads s" "switching s2 = switching s"
    "\<And>p. current_thread s2 cpu = Some p \<Longrightarrow> \<not> is_idle s2 p \<Longrightarrow> tstate (thr s2 p) \<noteq> THREAD_RUNNING"
proof -
  let ?s1 = "requeue_prev cpu s"
  obtain q1 rs1 where r: "queue_inv {} ?s1 q1 rs1 ss" "cpu_inv ?s1"
      "length rs1 \<le> Suc (length rs)" "same_other q q1"
      "\<And>p. current_thread s cpu = Some p \<Longrightarrow> \<not> is_idle s p \<Longrightarrow> tstate (thr ?s1 p) \<noteq> THREAD_RUNNING"
    using requeue_prev_inv [OF q c, of cpu] by metis
  have s1: "current_thread ?s1 = current_thread s" "g_idle_threads ?s1 = g_idle_threads s" "switching ?s1 = switching s"
    by (auto simp: requeue_prev_def set_state_def split: option.splits)
  have "length ss < fuel"
    using fuel by simp
  from wake_sleepers_inv [OF r(1,2) this, of ticks] obtain s2 q2 where
    w: "wake_sleepers fuel ticks ?s1 = Some s2" "cpu_inv s2"
      "queue_inv {} s2 q2 (rs1 @ filter (due ticks ?s1) ss) (filter (asleep ticks ?s1) ss)" "same_other q1 q2"
      "s2 = ?s1\<lparr>lnk := lnk s2, thr := woken_thr ticks ?s1 (set ss)\<rparr>"
    by metis
  have s2: "current_thread s2 = current_thread s" "g_idle_threads s2 = g_idle_threads s" "switching s2 = switching s"
    "thr s2 = woken_thr ticks ?s1 (set ss)"
    by (subst w(5), simp add: s1)+
  have "is_idle s2 = is_idle s"
    by (simp add: is_idle_def fun_eq_iff s2)
  then have "tstate (thr s2 p) \<noteq> THREAD_RUNNING" if "current_thread s2 cpu = Some p" "\<not> is_idle s2 p" for p
    using r(5) [of p] that by (auto simp: s2(1,4) woken_thr_def)
  moreover have "length (rs1 @ filter (due ticks ?s1) ss) < fuel"
    unfolding length_append using fuel r(3) length_filter_le [of "due ticks ?s1" ss] by linarith
  moreover have "same_other q q2"
    using r(4) w(4) by (simp add: same_other_def)
  ultimately show thesis
    using that w(1-3) s2(1-3) by blast
qed

text \<open>
  The second half: the first eligible thread of the ready queue, or the idle thread, becomes the
  current one; the threads of dead processes that the search passes are taken off the queue.
\<close>

lemma yield_commit:
  assumes q: "queue_inv {} s q rs ss" and c: "cpu_inv s" and fuel: "length rs < fuel"
    and sw: "switching s cpu = None" and idle: "g_idle_threads s cpu = Some i"
    and prev: "\<And>p. current_thread s cpu = Some p \<Longrightarrow> \<not> is_idle s p \<Longrightarrow> tstate (thr s p) \<noteq> THREAD_RUNNING"
  obtains s3 nxt n ds q' ys where "pick_next fuel cpu s = Some (s3, nxt)" "n = (case nxt of Some t \<Rightarrow> t | None \<Rightarrow> i)"
    "g_idle_threads s3 = g_idle_threads s" "thr s3 = reaped_thr s (set ds)" "prc s3 = prc s"
    "current_thread s3 = current_thread s" "switching s3 = switching s" "g_sched_started s3 = g_sched_started s"
    "cpu_inv (switch_to cpu now n s3)" "same_other q q'"
    "queue_inv {} (switch_to cpu now n s3) q' (filter (\<lambda>t. \<not> proc_zombie t s) ds @ ys) ss"
    "\<forall>t \<in> set ds. \<not> eligible cpu s t" "rs = ds \<and> ys = [] \<and> n = i \<or> rs = ds @ n # ys \<and> eligible cpu s n"
proof -
  have dist: "distinct rs"
    by (rule squeuesD(4) [OF queue_invD(1) [OF q]])
  have ii: "is_idle s i" "i \<notin> set rs" "i \<notin> set ss"
    using idle queue_invD(4,5) [OF q, of i] by (auto simp: is_idle_def)
  show thesis
  proof (cases rule: pick_next_result [OF queue_invD(1,2) [OF q] fuel, of cpu, case_names none found])
    case (none s3)
    have "queue_inv {} s q (rs @ [] @ []) ss" "distinct (rs @ [] @ [])"
      using q dist by simp_all
    from pick_state_inv [OF this(1) c none(2) this(2)] obtain q' where
      p: "queue_inv {} s3 q' (filter (\<lambda>t. \<not> proc_zombie t s) rs @ []) ss" "cpu_inv s3" "same_other q q'"
        "thr s3 = reaped_thr s (set rs)" "current_thread s3 = current_thread s"
        "g_idle_threads s3 = g_idle_threads s" "switching s3 = switching s" "prc s3 = prc s"
        "g_sched_started s3 = g_sched_started s"
      by auto
    have "is_idle s3 = is_idle s"
      by (simp add: is_idle_def fun_eq_iff p)
    then have "cpu_inv (switch_to cpu now i s3)"
      using ii prev sw idle by (intro switch_to_cpu_inv [OF p(2)]) (auto simp: p reaped_thr_def)
    moreover have "queue_inv {} (switch_to cpu now i s3) q' (filter (\<lambda>t. \<not> proc_zombie t s) rs @ []) ss"
      by (rule switch_to_queue_inv [OF p(1)]) (use ii in auto)
    moreover have "\<forall>t \<in> set rs. \<not> eligible cpu s t"
      using none(2) by (simp add: pick_state_def)
    ultimately show thesis
      using that [OF none(1), of i rs q' "[]"] p by simp
  next
    case (found s3 t ds ys)
    have "queue_inv {} s q (ds @ [t] @ ys) ss" and d: "distinct (ds @ [t] @ ys)"
      using q dist found(2) by simp_all
    from pick_state_inv [OF this(1) c found(4) d] obtain q' where
      p: "queue_inv {t} s3 q' (filter (\<lambda>t. \<not> proc_zombie t s) ds @ ys) ss" "cpu_inv s3" "same_other q q'"
        "thr s3 = reaped_thr s (set ds)" "current_thread s3 = current_thread s"
        "g_idle_threads s3 = g_idle_threads s" "switching s3 = switching s" "prc s3 = prc s"
        "g_sched_started s3 = g_sched_started s"
      by auto
    have tt: "\<not> is_idle s t" "t \<notin> set ss" "thr s3 t = thr s t"
      using queue_invD(4) [OF q, of t] squeuesD(6) [OF queue_invD(1) [OF q]] found(2) d by (auto simp: p(4) reaped_thr_def)
    have "is_idle s3 = is_idle s"
      by (simp add: is_idle_def fun_eq_iff p)
    then have "cpu_inv (switch_to cpu now t s3)"
      using tt found(3) prev sw idle
      by (intro switch_to_cpu_inv [OF p(2)]) (auto simp: p(4-7) eligible_def reaped_thr_def)
    moreover have "queue_inv {} (switch_to cpu now t s3) q' (filter (\<lambda>t. \<not> proc_zombie t s) ds @ ys) ss"
      by (rule switch_to_queue_inv [OF p(1)]) (use tt d in auto)
    moreover have "\<forall>t \<in> set ds. \<not> eligible cpu s t"
      using found(4) by (simp add: pick_state_def)
    ultimately show thesis
      using that [OF found(1), of t ds q' ys] p found(2,3) by simp
  qed
qed

section \<open>The steps of the machine\<close>

text \<open>
  A thread as \<open>thread_create\<close> hands it to the scheduler, in a slot of the table that no thread
  uses (an unused slot reads as a zombie that is on no CPU).
\<close>

definition new_thread :: "nat option \<Rightarrow> thread" where
  "new_thread p = \<lparr>tstate = THREAD_READY, tproc = p, running_cpu = -1, sleep_until_tick = 0,
     scheduled_at_ns = 0, futex_uaddr = 0, futex_proc = None\<rparr>"

definition unused :: "sys \<Rightarrow> nat \<Rightarrow> bool" where
  "unused s t \<longleftrightarrow> tstate (thr s t) = THREAD_ZOMBIE \<and> (\<forall>c. \<not> on_cpu s c t) \<and> \<not> is_idle s t"

text \<open>A CPU executes kernel code of its thread: it is not inside a switch and the thread runs.\<close>

definition executing :: "sys \<Rightarrow> nat \<Rightarrow> nat \<Rightarrow> bool" where
  "executing s cpu t \<longleftrightarrow> current_thread s cpu = Some t \<and> switching s cpu = None \<and>
     tstate (thr s t) = THREAD_RUNNING \<and> \<not> is_idle s t"

text \<open>
  The interleavings: each step is one critical section of some CPU, or the moment a CPU has saved
  the registers of the thread it leaves. Processes may change at any time (\<open>process_exit\<close>,
  signals). Between blocking or going to sleep and the \<open>sched_yield\<close> that follows, other CPUs may
  do anything, in particular wake the thread up again.
\<close>

inductive sched_step :: "sys \<Rightarrow> sys \<Rightarrow> bool" where
  create: "unused s t \<Longrightarrow> sched_step s (sched_add_thread t (upd_thr t (\<lambda>_. new_thread p) s))"
| init_cpu: "unused s t \<Longrightarrow> g_idle_threads s cpu = None \<Longrightarrow> current_thread s cpu = None \<Longrightarrow>
    sched_step s (sched_init_cpu_idle cpu t (sched_add_thread t (upd_thr t (\<lambda>_. new_thread p) s)))"
| yield: "switching s cpu = None \<Longrightarrow> g_idle_threads s cpu \<noteq> None \<Longrightarrow>
    sched_yield_locked fuel cpu ticks now s = Some s' \<Longrightarrow> sched_step s s'"
| switched: "sched_step s (arch_switch_context cpu s)"
| block: "executing s cpu t \<Longrightarrow> sched_block_current_thread cpu s = (f, s') \<Longrightarrow> sched_step s s'"
| sleep: "executing s cpu t \<Longrightarrow> thread_sleep cpu ticks freq ms s = (f, s') \<Longrightarrow> sched_step s s'"
| unblock: "\<not> is_idle s t \<Longrightarrow> sched_step s (sched_unblock_thread t s)"
| remove: "\<not> is_idle s t \<Longrightarrow> sched_step s (sched_remove_thread t s)"
| processes: "sched_step s (s\<lparr>prc := f\<rparr>)"

inductive_cases sched_stepE: "sched_step s s'"

inductive sched_reach :: "sys \<Rightarrow> sys \<Rightarrow> bool" where
  start: "sched_reach s s"
| more: "sched_reach s t \<Longrightarrow> sched_step t u \<Longrightarrow> sched_reach s u"

text \<open>The machine before any CPU has been set up.\<close>

definition boot_sys :: sys where
  "boot_sys = sched_init \<lparr>lnk = \<lparr>lprev = id, lnext = id\<rparr>,
     thr = (\<lambda>_. \<lparr>tstate = THREAD_ZOMBIE, tproc = None, running_cpu = -1, sleep_until_tick = 0,
        scheduled_at_ns = 0, futex_uaddr = 0, futex_proc = None\<rparr>),
     prc = (\<lambda>_. \<lparr>pstatus = PROCESS_ACTIVE, exit_code = 0, pagemap = 0, pending_signals = 0,
        blocked_signals = 0, cpu_time_ns = 0\<rparr>),
     current_thread = (\<lambda>_. None), g_idle_threads = (\<lambda>_. None), switching = (\<lambda>_. None),
     g_sched_started = True, g_idle_proc = None, g_stat_user_ticks = 0, g_stat_sys_ticks = 0,
     g_stat_idle_ticks = 0\<rparr>"

lemma list_init_id [simp]: "list_init l \<lparr>lprev = id, lnext = id\<rparr> = \<lparr>lprev = id, lnext = id\<rparr>"
  by (simp add: list_init_def set_prev_def set_next_def fun_upd_idem)

lemma boot_sys_inv: "sched_inv boot_sys"
proof -
  have "queue_inv {} boot_sys (\<lambda>_. []) [] []"
    using rings_init [of heads]
    by (simp add: queue_inv_def squeues_def boot_sys_def sched_init_def upd_lnk_def)
  moreover have "cpu_inv boot_sys"
    by (simp add: cpu_inv_def boot_sys_def sched_init_def upd_lnk_def is_idle_def on_cpu_def)
  ultimately show ?thesis
    unfolding sched_inv_def by blast
qed

text \<open>Changing one thread that is in no queue to a state that no queue goes with.\<close>

lemma queue_inv_upd_thr:
  assumes q: "queue_inv {} s q rs ss" and t: "t \<notin> set rs" "t \<notin> set ss"
    and f: "tstate (f (thr s t)) \<notin> {THREAD_READY, THREAD_SLEEPING}"
  shows "queue_inv {} (upd_thr t f s) q rs ss"
proof (rule queue_invI [where r = s])
  fix u
  show "u \<in> set rs \<Longrightarrow> tstate (thr (upd_thr t f s) u) = THREAD_READY \<and> \<not> is_idle s u"
    using queue_invD(2,4) [OF q] t by (cases "u = t") auto
  show "u \<in> set ss \<Longrightarrow> tstate (thr (upd_thr t f s) u) = THREAD_SLEEPING \<and> \<not> is_idle s u"
    using queue_invD(3,5) [OF q] t by (cases "u = t") auto
  show "tstate (thr (upd_thr t f s) u) = THREAD_READY \<Longrightarrow> \<not> is_idle s u \<Longrightarrow> u \<notin> {} \<Longrightarrow> u \<in> set rs"
    using queue_invD(6) [OF q, of u] f by (cases "u = t") auto
  show "tstate (thr (upd_thr t f s) u) = THREAD_SLEEPING \<Longrightarrow> \<not> is_idle s u \<Longrightarrow> u \<notin> {} \<Longrightarrow> u \<in> set ss"
    using queue_invD(7) [OF q, of u] f by (cases "u = t") auto
qed (use queue_invD(1) [OF q] in simp_all)

lemma create_inv:
  fixes p :: "nat option"
  assumes q: "queue_inv {} s q rs ss" and c: "cpu_inv s" and u: "unused s t"
  defines "s' \<equiv> sched_add_thread t (upd_thr t (\<lambda>_. new_thread p) s)"
  shows "queue_inv {} s' (q(Ready_Queue := q Ready_Queue @ [Sched_Node t])) (rs @ [t]) ss" "cpu_inv s'"
proof -
  have u': "tstate (thr s t) = THREAD_ZOMBIE" "\<not> is_idle s t" "\<And>c. \<not> on_cpu s c t"
    using u by (simp_all add: unused_def)
  have n: "t \<notin> set rs" "t \<notin> set ss"
    using queue_invD(2,3) [OF q] u'(1) by auto
  let ?s0 = "upd_thr t (\<lambda>x. (new_thread p)\<lparr>tstate := THREAD_ZOMBIE\<rparr>) s"
  have q0: "queue_inv {} ?s0 q rs ss"
    by (rule queue_inv_upd_thr [OF q n]) simp
  have "s' = (set_state THREAD_READY t ?s0)\<lparr>lnk := list_add_tail Ready_Queue (Sched_Node t) (lnk s)\<rparr>"
    by (simp add: s'_def sched_add_thread_def set_state_def upd_thr_def upd_lnk_def new_thread_def)
  then show "queue_inv {} s' (q(Ready_Queue := q Ready_Queue @ [Sched_Node t])) (rs @ [t]) ss"
    using queue_inv_ready [OF q0 _ n(2) squeues_add_ready [OF queue_invD(1) [OF q] n]] u'(2) by simp
  have sel: "is_idle s' = is_idle s" "on_cpu s' = on_cpu s" "g_idle_threads s' = g_idle_threads s"
    "current_thread s' = current_thread s" "switching s' = switching s"
    "thr s' = (thr s)(t := new_thread p)"
    by (simp_all add: s'_def sched_add_thread_def set_state_def new_thread_def)
  show "cpu_inv s'"
  proof (rule cpu_invI [OF sel(1)])
    fix d x
    show "running_cpu (thr s' x) = int d" if "on_cpu s' d x" "\<not> is_idle s x"
      using that cpu_invD(5) [OF c, of d x] u'(3) by (auto simp: sel)
    show "\<exists>c. on_cpu s' c x" if "\<not> is_idle s x" "running_cpu (thr s' x) \<noteq> -1"
      using that cpu_invD(6) [OF c, of x] by (cases "x = t") (auto simp: sel new_thread_def)
    show "\<exists>c. current_thread s' c = Some x" if "tstate (thr s' x) = THREAD_RUNNING" "\<not> is_idle s x"
      using that cpu_invD(7) [OF c, of x] by (cases "x = t") (auto simp: sel new_thread_def)
  qed (use cpu_invD(1-4) [OF c] in \<open>auto simp: sel\<close>)
qed

lemma init_cpu_inv:
  assumes q: "queue_inv {} s q rs ss" and c: "cpu_inv s" and u: "unused s t"
    and n: "g_idle_threads s cpu = None" "current_thread s cpu = None"
  shows "sched_inv (sched_init_cpu_idle cpu t (sched_add_thread t (upd_thr t (\<lambda>_. new_thread p) s)))"
proof -
  let ?s1 = "sched_add_thread t (upd_thr t (\<lambda>_. new_thread p) s)"
  let ?s2 = "sched_init_cpu_idle cpu t ?s1"
  note cr = create_inv [OF q c u, of p]
  have u': "\<not> is_idle s t" "\<And>d. \<not> on_cpu s d t" "t \<notin> set rs" "t \<notin> set ss"
    using u queue_invD(2,3) [OF q] by (auto simp: unused_def)
  have sel: "lnk ?s2 = list_remove (Sched_Node t) (lnk ?s1)"
    "thr ?s2 = (thr s)(t := new_thread p)"
    "g_idle_threads ?s2 = (g_idle_threads s)(cpu := Some t)" "current_thread ?s2 = (current_thread s)(cpu := Some t)"
    "switching ?s2 = switching s"
    using n(2) by (auto simp: sched_init_cpu_idle_def sched_add_thread_def set_state_def new_thread_def Let_def)
  have idle: "is_idle ?s2 x \<longleftrightarrow> is_idle s x \<or> x = t" for x
    unfolding is_idle_def sel using n(1) by (metis fun_upd_apply option.inject option.distinct(1))
  have on: "on_cpu ?s2 d x \<longleftrightarrow> (if d = cpu \<and> x = t then True else on_cpu s d x)" for d x
    using n(2) by (auto simp: on_cpu_def sel)
  have "squeues (lnk ?s2) (q(Ready_Queue := remove1 (Sched_Node t) (q Ready_Queue @ [Sched_Node t]))) rs ss"
    unfolding sel using squeues_remove_ready [OF queue_invD(1) [OF cr(1)], of t] u'(3) by (simp add: remove1_append)
  then have "queue_inv {} ?s2 (q(Ready_Queue := remove1 (Sched_Node t) (q Ready_Queue @ [Sched_Node t]))) rs ss"
  proof (rule queue_invI [OF _ refl])
    fix x
    show "x \<in> set rs \<Longrightarrow> tstate (thr ?s2 x) = THREAD_READY \<and> \<not> is_idle ?s2 x"
      unfolding idle sel using queue_invD(2,4) [OF q] u'(3) by auto
    show "x \<in> set ss \<Longrightarrow> tstate (thr ?s2 x) = THREAD_SLEEPING \<and> \<not> is_idle ?s2 x"
      unfolding idle sel using queue_invD(3,5) [OF q] u'(4) by auto
    show "tstate (thr ?s2 x) = THREAD_READY \<Longrightarrow> \<not> is_idle ?s2 x \<Longrightarrow> x \<notin> {} \<Longrightarrow> x \<in> set rs"
      unfolding idle sel using queue_invD(6) [OF q, of x] by auto
    show "tstate (thr ?s2 x) = THREAD_SLEEPING \<Longrightarrow> \<not> is_idle ?s2 x \<Longrightarrow> x \<notin> {} \<Longrightarrow> x \<in> set ss"
      unfolding idle sel using queue_invD(7) [OF q, of x] by auto
  qed
  moreover have "cpu_inv ?s2"
  proof (rule cpu_invI [OF refl])
    fix d e x
    show "d = e" if "g_idle_threads ?s2 d = Some x" "g_idle_threads ?s2 e = Some x"
      using that u'(1) cpu_invD(1) [OF c, of d x e] by (auto simp: sel is_idle_def split: if_splits)
    show "g_idle_threads ?s2 d = Some x" if "current_thread ?s2 d = Some x" "is_idle ?s2 x"
      using that u'(2) [of d] n(1) cpu_invD(2) [OF c, of d x] unfolding idle
      by (auto simp: sel on_cpu_def split: if_splits)
    show "\<not> is_idle ?s2 x \<and> current_thread ?s2 d \<noteq> Some x" if "switching ?s2 d = Some x"
      using that u'(2) [of d] cpu_invD(3,4) [OF c, of d x] unfolding idle by (auto simp: sel on_cpu_def)
    show "running_cpu (thr ?s2 x) = int d" if "on_cpu ?s2 d x" "\<not> is_idle ?s2 x"
      using that cpu_invD(5) [OF c, of d x] unfolding idle on sel by auto
    show "\<exists>d. on_cpu ?s2 d x" if "\<not> is_idle ?s2 x" "running_cpu (thr ?s2 x) \<noteq> -1"
      using that cpu_invD(6) [OF c, of x] unfolding idle on sel by auto
    show "\<exists>d. current_thread ?s2 d = Some x" if h: "tstate (thr ?s2 x) = THREAD_RUNNING" "\<not> is_idle ?s2 x"
    proof -
      obtain d where "current_thread s d = Some x"
        using h cpu_invD(7) [OF c, of x] unfolding idle sel by auto
      with n(2) show ?thesis
        by (intro exI [of _ d]) (auto simp: sel)
    qed
  qed
  ultimately show ?thesis
    unfolding sched_inv_def by blast
qed

lemma sched_yield_locked_mono:
  assumes "sched_yield_locked fuel cpu ticks now s = Some r" and "fuel \<le> fuel'"
  shows "sched_yield_locked fuel' cpu ticks now s = Some r"
proof -
  obtain s1 where s1: "wake_sleepers fuel ticks (requeue_prev cpu s) = Some s1"
    using assms(1) by (auto simp: sched_yield_locked_def split: option.splits)
  obtain p where p: "pick_next fuel cpu s1 = Some p"
    using assms(1) s1 by (auto simp: sched_yield_locked_def split: option.splits)
  have "wake_sleepers fuel' ticks (requeue_prev cpu s) = Some s1"
    using list_for_each_safe_mono [OF s1 [unfolded wake_sleepers_def] assms(2)] by (simp only: wake_sleepers_def)
  moreover have "pick_next fuel' cpu s1 = Some p"
    using list_for_each_safe_mono [OF p [unfolded pick_next_def] assms(2)] by (simp only: pick_next_def)
  ultimately show ?thesis
    using s1 p assms(1) by (simp add: sched_yield_locked_def)
qed

lemma sched_yield_locked_inv:
  assumes q: "queue_inv {} s q rs ss" and c: "cpu_inv s" and fuel: "Suc (length rs + length ss) < fuel"
    and sw: "switching s cpu = None" and idle: "g_idle_threads s cpu = Some i"
  obtains t q' rs' ss' where "sched_yield_locked fuel cpu ticks now s = Some t" "cpu_inv t"
    "queue_inv {} t q' rs' ss'" "same_other q q'"
proof -
  obtain s2 q2 rs2 ss2 where p: "wake_sleepers fuel ticks (requeue_prev cpu s) = Some s2" "cpu_inv s2"
    "queue_inv {} s2 q2 rs2 ss2" "same_other q q2" "length rs2 < fuel"
    "current_thread s2 = current_thread s" "g_idle_threads s2 = g_idle_threads s" "switching s2 = switching s"
    "\<And>p. current_thread s2 cpu = Some p \<Longrightarrow> \<not> is_idle s2 p \<Longrightarrow> tstate (thr s2 p) \<noteq> THREAD_RUNNING"
    using yield_prepare [OF q c fuel, of ticks cpu] by metis
  have sw2: "switching s2 cpu = None" "g_idle_threads s2 cpu = Some i"
    using sw idle p(7,8) by simp_all
  obtain s3 nxt q' ds n ys where y: "pick_next fuel cpu s2 = Some (s3, nxt)" "n = (case nxt of Some t \<Rightarrow> t | None \<Rightarrow> i)"
    "g_idle_threads s3 = g_idle_threads s2" "cpu_inv (switch_to cpu now n s3)" "same_other q2 q'"
    "queue_inv {} (switch_to cpu now n s3) q' (filter (\<lambda>t. \<not> proc_zombie t s2) ds @ ys) ss2"
    by (rule yield_commit [OF p(3,2,5) sw2 p(9), of now]) blast+
  have "sched_yield_locked fuel cpu ticks now s = Some (switch_to cpu now n s3)"
    using p(1) y(1-3) sw2(2) by (simp add: sched_yield_locked_def idle_of_def split: option.split)
  moreover have "same_other q q'"
    using p(4) y(5) by (simp add: same_other_def)
  ultimately show thesis
    using that y(4,6) by blast
qed

lemma yield_inv:
  assumes "sched_inv s" and sw: "switching s cpu = None" and idle: "g_idle_threads s cpu \<noteq> None"
    and y: "sched_yield_locked fuel cpu ticks now s = Some s'"
  shows "sched_inv s'"
proof -
  obtain q rs ss where q: "queue_inv {} s q rs ss" and c: "cpu_inv s"
    using assms(1) by (auto simp: sched_inv_def)
  obtain i where i: "g_idle_threads s cpu = Some i"
    using idle by blast
  let ?fuel = "fuel + length rs + length ss + 2"
  have f: "Suc (length rs + length ss) < ?fuel" "fuel \<le> ?fuel"
    by simp_all
  obtain t q' rs' ss' where t: "sched_yield_locked ?fuel cpu ticks now s = Some t" "cpu_inv t" "queue_inv {} t q' rs' ss'"
    using sched_yield_locked_inv [OF q c f(1) sw i, of ticks now] by metis
  moreover have "s' = t"
    using sched_yield_locked_mono [OF y f(2)] t(1) by simp
  ultimately show ?thesis
    unfolding sched_inv_def by blast
qed

lemma arch_switch_context_sel:
  "lnk (arch_switch_context cpu s) = lnk s" "g_idle_threads (arch_switch_context cpu s) = g_idle_threads s"
  "current_thread (arch_switch_context cpu s) = current_thread s" "prc (arch_switch_context cpu s) = prc s"
  "switching (arch_switch_context cpu s) = (switching s)(cpu := None)"
  "thr (arch_switch_context cpu s) t = (if switching s cpu = Some t then (thr s t)\<lparr>running_cpu := -1\<rparr> else thr s t)"
  "g_sched_started (arch_switch_context cpu s) = g_sched_started s"
  by (auto simp: arch_switch_context_def split: option.splits)

lemma switched_queue_inv:
  assumes q: "queue_inv X s q rs ss"
  shows "queue_inv X (arch_switch_context cpu s) q rs ss"
proof -
  let ?s = "arch_switch_context cpu s"
  have idle: "is_idle ?s = is_idle s"
    by (simp add: is_idle_def fun_eq_iff arch_switch_context_sel)
  have st: "tstate (thr ?s x) = tstate (thr s x)" for x
    by (simp add: arch_switch_context_sel)
  show ?thesis
    using q unfolding queue_inv_def idle st arch_switch_context_sel(1) .
qed

lemma switched_cpu_inv:
  assumes c: "cpu_inv s"
  shows "cpu_inv (arch_switch_context cpu s)"
proof (cases "switching s cpu")
  case None
  with assms show ?thesis
    by (simp add: arch_switch_context_def)
next
  case (Some p)
  let ?s = "arch_switch_context cpu s"
  note sel = arch_switch_context_sel [of cpu s]
  have idle: "is_idle ?s = is_idle s"
    by (simp add: is_idle_def fun_eq_iff sel)
  have st: "tstate (thr ?s x) = tstate (thr s x)" for x
    by (simp add: sel)
  have pc: "\<not> on_cpu s d p" if "d \<noteq> cpu" for d
    using that cpu_inv_unique [OF c, of d p cpu] Some by (auto simp: on_cpu_def)
  have np: "current_thread s d \<noteq> Some p" for d
    using cpu_invD(4) [OF c Some] pc [of d] by (cases "d = cpu") (auto simp: on_cpu_def)
  show ?thesis
  proof (rule cpu_invI [OF idle])
    fix d x
    show "running_cpu (thr ?s x) = int d" if "on_cpu ?s d x" "\<not> is_idle s x"
    proof -
      have "on_cpu s d x" "x \<noteq> p"
        using that(1) np [of d] pc [of d] by (auto simp: on_cpu_def sel split: if_splits)
      with that(2) show ?thesis
        using cpu_invD(5) [OF c, of d x] Some by (simp add: sel)
    qed
    show "\<exists>d. on_cpu ?s d x" if h: "\<not> is_idle s x" "running_cpu (thr ?s x) \<noteq> -1"
    proof -
      have "x \<noteq> p"
        using h(2) Some by (auto simp: sel)
      then obtain d where "on_cpu s d x"
        using cpu_invD(6) [OF c h(1)] h(2) Some by (auto simp: sel)
      with \<open>x \<noteq> p\<close> Some show ?thesis
        by (intro exI [of _ d]) (auto simp: on_cpu_def sel)
    qed
    show "\<exists>d. current_thread ?s d = Some x" if "tstate (thr ?s x) = THREAD_RUNNING" "\<not> is_idle s x"
      using that cpu_invD(7) [OF c, of x] unfolding st sel(3) by blast
  qed (use cpu_invD(1-4) [OF c] in \<open>auto simp: sel split: if_splits\<close>)
qed

lemma switched_inv: "sched_inv s \<Longrightarrow> sched_inv (arch_switch_context cpu s)"
  unfolding sched_inv_def using switched_cpu_inv switched_queue_inv by blast

text \<open>The current thread leaves the running state.\<close>

lemma executing_facts:
  assumes q: "queue_inv {} s q rs ss" and e: "executing s cpu t"
  shows "t \<notin> set rs" "t \<notin> set ss" "\<not> is_idle s t" "sched_get_current_thread cpu s = Some t"
  using queue_invD(2,3) [OF q] e by (auto simp: executing_def sched_get_current_thread_def)

lemma block_inv:
  assumes "sched_inv s" and e: "executing s cpu t" and b: "sched_block_current_thread cpu s = (f, s')"
  shows "sched_inv s'"
proof -
  obtain q rs ss where q: "queue_inv {} s q rs ss" and c: "cpu_inv s"
    using assms by (auto simp: sched_inv_def)
  note x = executing_facts [OF q e]
  have "s' = s \<or> s' = set_state THREAD_BLOCKED t s"
    using b x(4) by (auto simp: sched_block_current_thread_def split: option.splits)
  moreover have "queue_inv {} (set_state THREAD_BLOCKED t s) q rs ss"
    unfolding set_state_def by (rule queue_inv_upd_thr [OF q x(1,2)]) simp
  moreover have "cpu_inv (set_state THREAD_BLOCKED t s)"
    by (rule cpu_inv_mono [OF c]) (auto simp: set_state_def split: if_splits)
  ultimately show ?thesis
    using assms(1) unfolding sched_inv_def by blast
qed

lemma queue_inv_sleep:
  assumes q: "queue_inv {} s q rs ss" and t: "t \<notin> set rs" "t \<notin> set ss" "\<not> is_idle s t"
    and f: "tstate (f (thr s t)) = THREAD_SLEEPING"
  shows "queue_inv {} (upd_lnk (list_add_tail Sleeping_Queue (Sched_Node t)) (upd_thr t f s))
    (q(Sleeping_Queue := q Sleeping_Queue @ [Sched_Node t])) rs (ss @ [t])"
proof (rule queue_invI [where r = s])
  let ?s = "upd_lnk (list_add_tail Sleeping_Queue (Sched_Node t)) (upd_thr t f s)"
  show "squeues (lnk ?s) (q(Sleeping_Queue := q Sleeping_Queue @ [Sched_Node t])) rs (ss @ [t])"
    using squeues_add_sleeping [OF queue_invD(1) [OF q] t(1,2)] by simp
  fix x
  show "x \<in> set rs \<Longrightarrow> tstate (thr ?s x) = THREAD_READY \<and> \<not> is_idle s x"
    using queue_invD(2,4) [OF q] t by auto
  show "x \<in> set (ss @ [t]) \<Longrightarrow> tstate (thr ?s x) = THREAD_SLEEPING \<and> \<not> is_idle s x"
    using queue_invD(3,5) [OF q] t f by auto
  show "tstate (thr ?s x) = THREAD_READY \<Longrightarrow> \<not> is_idle s x \<Longrightarrow> x \<notin> {} \<Longrightarrow> x \<in> set rs"
    using queue_invD(6) [OF q, of x] f by (cases "x = t") simp_all
  show "tstate (thr ?s x) = THREAD_SLEEPING \<Longrightarrow> \<not> is_idle s x \<Longrightarrow> x \<notin> {} \<Longrightarrow> x \<in> set (ss @ [t])"
    using queue_invD(7) [OF q, of x] by (cases "x = t") simp_all
qed simp

lemma sleep_inv:
  assumes "sched_inv s" and e: "executing s cpu t" and b: "thread_sleep cpu ticks freq ms s = (f, s')"
  shows "sched_inv s'"
proof -
  obtain q rs ss where q: "queue_inv {} s q rs ss" and c: "cpu_inv s"
    using assms by (auto simp: sched_inv_def)
  note x = executing_facts [OF q e]
  define g :: "thread \<Rightarrow> thread" where "g = (\<lambda>x. x\<lparr>tstate := THREAD_SLEEPING, sleep_until_tick := add64 ticks (ticks_to_sleep ms freq)\<rparr>)"
  let ?s = "upd_lnk (list_add_tail Sleeping_Queue (Sched_Node t)) (upd_thr t g s)"
  have "s' = s \<or> s' = ?s"
    using b x(4) by (auto simp: thread_sleep_def g_def split: option.splits if_splits)
  moreover have "queue_inv {} ?s (q(Sleeping_Queue := q Sleeping_Queue @ [Sched_Node t])) rs (ss @ [t])"
    by (rule queue_inv_sleep [OF q x(1-3)]) (simp add: g_def)
  moreover have "cpu_inv ?s"
    by (rule cpu_inv_mono [OF c]) (auto simp: g_def split: if_splits)
  ultimately show ?thesis
    using assms(1) unfolding sched_inv_def by blast
qed

lemma unblock_inv:
  assumes "sched_inv s" and i: "\<not> is_idle s t"
  shows "sched_inv (sched_unblock_thread t s)"
proof (cases "tstate (thr s t) = THREAD_BLOCKED")
  case True
  let ?s = "upd_lnk (list_add_tail Ready_Queue (Sched_Node t)) (set_state THREAD_READY t s)"
  obtain q rs ss where q: "queue_inv {} s q rs ss" and c: "cpu_inv s"
    using assms by (auto simp: sched_inv_def)
  have n: "t \<notin> set rs" "t \<notin> set ss"
    using queue_invD(2,3) [OF q] True by auto
  have "queue_inv {} ?s (q(Ready_Queue := q Ready_Queue @ [Sched_Node t])) (rs @ [t]) ss"
    using queue_inv_ready [OF q i n(2) squeues_add_ready [OF queue_invD(1) [OF q] n]]
    by (simp add: upd_lnk_def set_state_def)
  moreover have "cpu_inv ?s"
    by (rule cpu_inv_mono [OF c]) (auto simp: set_state_def split: if_splits)
  ultimately show ?thesis
    using True unfolding sched_inv_def sched_unblock_thread_def by auto
next
  case False
  with assms show ?thesis
    by (simp add: sched_unblock_thread_def)
qed

lemma remove_inv:
  assumes "sched_inv s" and i: "\<not> is_idle s t"
  shows "sched_inv (sched_remove_thread t s)"
proof -
  let ?s = "sched_remove_thread t s"
  obtain q rs ss where q: "queue_inv {} s q rs ss" and c: "cpu_inv s"
    using assms by (auto simp: sched_inv_def)
  have sel: "lnk ?s = list_remove (Sched_Node t) (lnk s)" "thr ?s = (thr s)(t := (thr s t)\<lparr>tstate := THREAD_ZOMBIE\<rparr>)"
    "is_idle ?s = is_idle s"
    by (simp_all add: sched_remove_thread_def set_state_def)
  note D = squeuesD [OF queue_invD(1) [OF q]]
  have "\<exists>q'. squeues (lnk ?s) q' (remove1 t rs) (remove1 t ss)"
  proof (cases "t \<in> set rs \<union> set ss")
    case True
    then consider "t \<in> set rs" "t \<notin> set ss" | "t \<in> set ss" "t \<notin> set rs"
      using D(6) by auto
    then show ?thesis
      using squeues_remove_ready [OF queue_invD(1) [OF q], of t] squeues_remove_sleeping [OF queue_invD(1) [OF q], of t]
      by cases (auto simp: sel remove1_idem)
  next
    case False
    then have "lnk ?s = lnk s"
      using rings_remove_unlinked [OF D(1), of "Sched_Node t"] D(7) [of t] by (simp add: sel)
    with False queue_invD(1) [OF q] show ?thesis
      by (auto simp: remove1_idem)
  qed
  then obtain q' where q': "squeues (lnk ?s) q' (remove1 t rs) (remove1 t ss)"
    by blast
  have "queue_inv {} ?s q' (remove1 t rs) (remove1 t ss)"
  proof (rule queue_invI [OF q' sel(3)])
    fix x
    show "x \<in> set (remove1 t rs) \<Longrightarrow> tstate (thr ?s x) = THREAD_READY \<and> \<not> is_idle s x"
      using queue_invD(2,4) [OF q] D(4) by (auto simp: sel(2))
    show "x \<in> set (remove1 t ss) \<Longrightarrow> tstate (thr ?s x) = THREAD_SLEEPING \<and> \<not> is_idle s x"
      using queue_invD(3,5) [OF q] D(5) by (auto simp: sel(2))
    show "tstate (thr ?s x) = THREAD_READY \<Longrightarrow> \<not> is_idle s x \<Longrightarrow> x \<notin> {} \<Longrightarrow> x \<in> set (remove1 t rs)"
      using queue_invD(6) [OF q, of x] D(4) by (cases "x = t") (simp_all add: sel(2))
    show "tstate (thr ?s x) = THREAD_SLEEPING \<Longrightarrow> \<not> is_idle s x \<Longrightarrow> x \<notin> {} \<Longrightarrow> x \<in> set (remove1 t ss)"
      using queue_invD(7) [OF q, of x] D(5) by (cases "x = t") (simp_all add: sel(2))
  qed
  moreover have "cpu_inv ?s"
    by (rule cpu_inv_mono [OF c]) (auto simp: sched_remove_thread_def set_state_def split: if_splits)
  ultimately show ?thesis
    unfolding sched_inv_def by blast
qed

lemma sched_inv_prc: "sched_inv s \<Longrightarrow> sched_inv (s\<lparr>prc := f\<rparr>)"
proof -
  have "is_idle (s\<lparr>prc := f\<rparr>) = is_idle s" "on_cpu (s\<lparr>prc := f\<rparr>) = on_cpu s"
    by (simp_all add: is_idle_def on_cpu_def fun_eq_iff)
  then show "sched_inv s \<Longrightarrow> sched_inv (s\<lparr>prc := f\<rparr>)"
    by (simp add: sched_inv_def queue_inv_def cpu_inv_def)
qed

lemma sched_invI: "queue_inv {} s q rs ss \<Longrightarrow> cpu_inv s \<Longrightarrow> sched_inv s"
  unfolding sched_inv_def by (intro conjI exI)

lemma sched_step_inv: "sched_step s s' \<Longrightarrow> sched_inv s \<Longrightarrow> sched_inv s'"
proof (induction rule: sched_step.induct)
  case (create s t p)
  then obtain q rs ss where "queue_inv {} s q rs ss" "cpu_inv s"
    unfolding sched_inv_def by (elim conjE exE)
  from create_inv [OF this create(1)] show ?case
    by (rule sched_invI)
next
  case (init_cpu s t cpu p)
  then obtain q rs ss where "queue_inv {} s q rs ss" "cpu_inv s"
    unfolding sched_inv_def by (elim conjE exE)
  from init_cpu_inv [OF this init_cpu(1-3)] show ?case .
next
  case (yield s cpu fuel ticks now s')
  show ?case
    by (rule yield_inv [OF yield(4,1,2,3)])
next
  case (switched s cpu)
  then show ?case
    by (rule switched_inv)
next
  case (block s cpu t f s')
  show ?case
    by (rule block_inv [OF block(3,1,2)])
next
  case (sleep s cpu t ticks freq ms f s')
  show ?case
    by (rule sleep_inv [OF sleep(3,1,2)])
next
  case (unblock s t)
  show ?case
    by (rule unblock_inv [OF unblock(2,1)])
next
  case (remove s t)
  show ?case
    by (rule remove_inv [OF remove(2,1)])
next
  case (processes s f)
  then show ?case
    by (rule sched_inv_prc)
qed

lemma sched_reach_inv: "sched_reach s t \<Longrightarrow> sched_inv s \<Longrightarrow> sched_inv t"
  by (induction rule: sched_reach.induct) (auto intro: sched_step_inv)

section \<open>Round robin\<close>

text \<open>
  One CPU left to itself: the thread \<open>p\<close> executes, the threads \<open>rs\<close> wait in this order, nobody
  sleeps, no process has died and no other CPU holds any of the threads.
\<close>

definition rr_state :: "sys \<Rightarrow> nat \<Rightarrow> nat \<Rightarrow> nat list \<Rightarrow> bool" where
  "rr_state s cpu p rs \<longleftrightarrow> (\<exists>q. queue_inv {} s q rs []) \<and> cpu_inv s \<and> executing s cpu p \<and>
     g_idle_threads s cpu \<noteq> None \<and> g_sched_started s \<and>
     (\<forall>t \<in> set (p # rs). \<not> proc_zombie t s) \<and> (\<forall>t \<in> set rs. running_cpu (thr s t) = -1)"

lemma requeue_executing:
  assumes "queue_inv {} s q rs ss" and "executing s cpu p" and "g_idle_threads s cpu = Some i"
  defines "s1 \<equiv> upd_lnk (list_add_tail Ready_Queue (Sched_Node p)) (set_state THREAD_READY p s)"
  shows "requeue_prev cpu s = s1"
    "queue_inv {} s1 (q(Ready_Queue := q Ready_Queue @ [Sched_Node p])) (rs @ [p]) ss"
proof -
  have "Some p \<noteq> idle_of cpu s"
    using assms(2,3) by (auto simp: executing_def idle_of_def is_idle_def)
  then show "requeue_prev cpu s = s1"
    using assms(2) by (simp add: requeue_prev_def executing_def s1_def)
  note x = executing_facts [OF assms(1,2)]
  show "queue_inv {} s1 (q(Ready_Queue := q Ready_Queue @ [Sched_Node p])) (rs @ [p]) ss"
    using queue_inv_ready [OF assms(1) x(3,2) squeues_add_ready [OF queue_invD(1) [OF assms(1)] x(1,2)]]
    by (simp add: s1_def upd_lnk_def set_state_def)
qed

lemma proc_zombie_switch: "proc_zombie t (switch_to cpu now n s) = proc_zombie t s"
proof -
  have "tproc (thr (switch_to cpu now n s) t) = tproc (thr s t)"
    "pstatus (prc (switch_to cpu now n s) p) = pstatus (prc s p)" for p
    by (auto simp: switch_to_def account_prev_def Let_def upd_thr_def split: option.splits)
  then show ?thesis
    by (simp add: proc_zombie_def split: option.split)
qed

lemma rr_step:
  assumes r: "rr_state s cpu p (n # rs)" and fuel: "length rs + 2 < fuel"
  shows "\<exists>t. sched_yield fuel cpu ticks now s = Some t \<and> rr_state t cpu n (rs @ [p])"
proof -
  obtain q i where q: "queue_inv {} s q (n # rs) []" and c: "cpu_inv s" and e: "executing s cpu p"
    and i: "g_idle_threads s cpu = Some i" and z: "\<forall>t \<in> set (p # n # rs). \<not> proc_zombie t s"
    and rc: "\<forall>t \<in> set (n # rs). running_cpu (thr s t) = -1" and st: "g_sched_started s"
    using r by (auto simp: rr_state_def)
  let ?s1 = "upd_lnk (list_add_tail Ready_Queue (Sched_Node p)) (set_state THREAD_READY p s)"
  note rq = requeue_executing [OF q e i]
  have c1: "cpu_inv ?s1"
    by (rule cpu_inv_mono [OF c]) (auto simp: set_state_def split: if_splits)
  obtain s2 q2 where w: "wake_sleepers fuel ticks ?s1 = Some s2" "cpu_inv s2" "queue_inv {} s2 q2 (n # rs @ [p]) []"
      "s2 = ?s1\<lparr>lnk := lnk s2, thr := woken_thr ticks ?s1 (set [])\<rparr>"
    using wake_sleepers_inv [OF rq(2) c1, of fuel ticks] fuel by (metis append_Cons append_Nil2 filter.simps(1) list.size(3) not_less_zero gr_zeroI)
  have s2: "current_thread s2 = current_thread s" "g_idle_threads s2 = g_idle_threads s" "switching s2 = switching s"
    "prc s2 = prc s" "g_sched_started s2 = g_sched_started s"
    "thr s2 = (thr s)(p := (thr s p)\<lparr>tstate := THREAD_READY\<rparr>)"
    by (subst w(4), simp add: set_state_def)+
  have pz2: "proc_zombie t s2 = proc_zombie t s" for t
    by (rule proc_zombie_cong) (simp_all add: s2)
  have ep: "current_thread s cpu = Some p" "switching s cpu = None" "\<not> is_idle s p"
    using e by (simp_all add: executing_def)
  have np: "p \<noteq> n" "p \<notin> set rs"
    using executing_facts(1) [OF q e] by auto
  have "is_idle s2 = is_idle s"
    by (simp add: is_idle_def fun_eq_iff s2)
  have fl: "length (n # rs @ [p]) < fuel"
    using fuel by simp
  have el: "eligible cpu s2 n"
    using z rc np(1) by (simp add: eligible_def pz2 s2(6))
  have pr: "tstate (thr s2 x) \<noteq> THREAD_RUNNING" if "current_thread s2 cpu = Some x" "\<not> is_idle s2 x" for x
    using that ep(1) by (simp add: s2)
  have idl: "switching s2 cpu = None" "g_idle_threads s2 cpu = Some i"
    using ep(2) i by (simp_all add: s2)
  obtain s3 nxt n' ds q' ys where y: "pick_next fuel cpu s2 = Some (s3, nxt)" "n' = (case nxt of Some t \<Rightarrow> t | None \<Rightarrow> i)"
    "g_idle_threads s3 = g_idle_threads s2" "thr s3 = reaped_thr s2 (set ds)" "prc s3 = prc s2"
    "current_thread s3 = current_thread s2" "switching s3 = switching s2" "g_sched_started s3 = g_sched_started s2"
    "cpu_inv (switch_to cpu now n' s3)"
    "queue_inv {} (switch_to cpu now n' s3) q' (filter (\<lambda>t. \<not> proc_zombie t s2) ds @ ys) []"
    "\<forall>t \<in> set ds. \<not> eligible cpu s2 t" "n # rs @ [p] = ds \<and> ys = [] \<and> n' = i \<or> n # rs @ [p] = ds @ n' # ys \<and> eligible cpu s2 n'"
    by (rule yield_commit [OF w(3,2) fl idl pr, of now]) blast+
  have d: "ds = []" "n' = n" "ys = rs @ [p]"
    using y(11,12) el by (cases ds; auto)+
  let ?t = "arch_switch_context cpu (switch_to cpu now n s3)"
  have th: "thr s3 = thr s2"
    using y(4) d(1) by simp
  have "sched_yield fuel cpu ticks now s = Some ?t"
    using st w(1) y(1-3) d(2) idl(2)
    by (simp add: sched_yield_def sched_yield_locked_def rq(1) idle_of_def split: option.split)
  moreover have "rr_state ?t cpu n (rs @ [p])"
    unfolding rr_state_def
  proof (intro conjI exI)
    show "queue_inv {} ?t q' (rs @ [p]) []"
      using switched_queue_inv [OF y(10)] d by simp
    show "cpu_inv ?t"
      using switched_cpu_inv [OF y(9)] d(2) by simp
    have "n \<noteq> i" "p \<noteq> i"
      using queue_invD(4) [OF q, of n] i ep(3) by (auto simp: is_idle_def)
    have sw: "switching (switch_to cpu now n s3) cpu = Some p"
      using ep(1) np(1) \<open>p \<noteq> i\<close> i by (simp add: switch_to_sel y(3,6) s2 idle_of_def)
    have "is_idle ?t = is_idle s"
      by (simp add: is_idle_def fun_eq_iff arch_switch_context_sel switch_to_sel y(3) s2)
    then show "executing ?t cpu n"
      using queue_invD(4) [OF q, of n] by (simp add: executing_def arch_switch_context_sel switch_to_sel)
    show "g_idle_threads ?t cpu \<noteq> None" "g_sched_started ?t"
      using i st by (simp_all add: arch_switch_context_sel switch_to_sel y(3,8) s2)
    have "proc_zombie x ?t = proc_zombie x s" for x
    proof -
      have "proc_zombie x ?t = proc_zombie x (switch_to cpu now n s3)"
        by (rule proc_zombie_cong) (simp_all add: arch_switch_context_sel)
      also have "\<dots> = proc_zombie x s2"
        unfolding proc_zombie_switch by (rule proc_zombie_cong) (simp_all add: th y(5))
      finally show ?thesis
        by (simp add: pz2)
    qed
    then show "\<forall>x \<in> set (n # rs @ [p]). \<not> proc_zombie x ?t"
      using z by simp
    have "n \<notin> set rs"
      using squeuesD(4) [OF queue_invD(1) [OF q]] by simp
    then show "\<forall>x \<in> set (rs @ [p]). running_cpu (thr ?t x) = -1"
      using rc sw np by (auto simp: arch_switch_context_sel switch_to_sel th s2)
  qed
  ultimately show ?thesis
    by blast
qed

text \<open>Successive calls of \<open>sched_yield\<close> on one CPU, with the tick and clock values they read.\<close>

fun yields :: "nat \<Rightarrow> nat \<Rightarrow> (nat \<times> nat) list \<Rightarrow> sys \<Rightarrow> sys option" where
  "yields fuel cpu [] s = Some s"
| "yields fuel cpu ((ticks, now) # ts) s =
     (case sched_yield fuel cpu ticks now s of None \<Rightarrow> None | Some s' \<Rightarrow> yields fuel cpu ts s')"

lemma yields_rotate:
  assumes "rr_state s cpu p rs" and "length ts \<le> length rs" and "length rs + 2 < fuel"
  shows "\<exists>t. yields fuel cpu ts s = Some t \<and> rr_state t cpu ((p # rs) ! length ts) (drop (length ts) rs @ take (length ts) (p # rs))"
  using assms
proof (induction ts arbitrary: s p rs)
  case Nil
  then show ?case
    by simp
next
  case (Cons tn ts)
  obtain ticks now where tn: "tn = (ticks, now)"
    by fastforce
  obtain n rs' where rs: "rs = n # rs'"
    using Cons.prems(2) by (cases rs) auto
  obtain u where u: "sched_yield fuel cpu ticks now s = Some u" "rr_state u cpu n (rs' @ [p])"
    using rr_step [of s cpu p n rs' fuel ticks now] Cons.prems rs by auto
  obtain t where t: "yields fuel cpu ts u = Some t"
      "rr_state t cpu ((n # rs' @ [p]) ! length ts) (drop (length ts) (rs' @ [p]) @ take (length ts) (n # rs' @ [p]))"
    using Cons.IH [OF u(2)] Cons.prems rs by auto
  have "(n # rs' @ [p]) ! length ts = (p # rs) ! Suc (length ts)"
    using Cons.prems(2) rs by (cases "length ts") (auto simp: nth_append)
  moreover have "drop (length ts) (rs' @ [p]) @ take (length ts) (n # rs' @ [p]) =
      drop (Suc (length ts)) rs @ take (Suc (length ts)) (p # rs)"
    using Cons.prems(2) rs by (simp add: take_Cons' split: nat.split)
  ultimately show ?case
    using t u(1) tn by simp
qed

section \<open>Properties\<close>

text \<open>The state of a machine with one CPU, thread 0 idle and the threads 1 and 2 ready.\<close>

definition sched_demo :: sys where
  "sched_demo = sched_add_thread 2 (upd_thr 2 (\<lambda>_. new_thread None)
     (sched_add_thread 1 (upd_thr 1 (\<lambda>_. new_thread None)
       (sched_init_cpu_idle 0 0 (sched_add_thread 0 (upd_thr 0 (\<lambda>_. new_thread None) boot_sys))))))"

lemma sched_demo_reach: "sched_reach boot_sys sched_demo"
proof -
  have boot: "unused boot_sys t" "g_idle_threads boot_sys c = None" "current_thread boot_sys c = None" for t c
    by (simp_all add: unused_def boot_sys_def sched_init_def upd_lnk_def is_idle_def on_cpu_def)
  let ?a = "sched_init_cpu_idle 0 0 (sched_add_thread 0 (upd_thr 0 (\<lambda>_. new_thread None) boot_sys))"
  have a: "sched_reach boot_sys ?a"
    by (rule sched_reach.more [OF sched_reach.start sched_step.init_cpu]) (rule boot)+
  have sa: "thr ?a = (thr boot_sys)(0 := new_thread None)" "current_thread ?a = (\<lambda>_. None)(0 := Some 0)"
    "g_idle_threads ?a = (\<lambda>_. None)(0 := Some 0)" "switching ?a = (\<lambda>_. None)"
    by (auto simp: sched_init_cpu_idle_def Let_def sched_add_thread_def set_state_def boot_sys_def
        sched_init_def upd_lnk_def upd_thr_def new_thread_def)
  have "unused ?a t" if "t \<noteq> 0" for t
    using that boot(1) [of t] by (simp add: unused_def sa is_idle_def on_cpu_def)
  then have b: "sched_reach boot_sys (sched_add_thread 1 (upd_thr 1 (\<lambda>_. new_thread None) ?a))" (is "sched_reach _ ?b")
    by (intro sched_reach.more [OF a] sched_step.create) simp
  have "unused ?b 2"
    using \<open>\<And>t. t \<noteq> 0 \<Longrightarrow> unused ?a t\<close> [of 2]
    by (simp add: unused_def sched_add_thread_def set_state_def on_cpu_def)
  then show ?thesis
    unfolding sched_demo_def by (intro sched_reach.more [OF b] sched_step.create)
qed

text \<open>
  C1: no thread is ever on two CPUs. In every state that the CPUs can reach from boot by any
  interleaving of creating threads, yielding, blocking, sleeping, waking, removing and process
  exits, a thread that one CPU executes, or whose registers it is still saving, is on no other
  CPU; and \<open>running_cpu\<close> says which CPU it is.
\<close>

theorem thread_on_one_cpu:
  assumes "sched_reach boot_sys s" and "on_cpu s c t" and "on_cpu s d t"
  shows "c = d \<and> (\<not> is_idle s t \<longrightarrow> running_cpu (thr s t) = int c)"
proof -
  have "cpu_inv s"
    using sched_reach_inv [OF assms(1) boot_sys_inv] by (simp add: sched_inv_def)
  then show ?thesis
    using cpu_inv_unique assms(2,3) cpu_invD(5) by blast
qed

theorem thread_on_one_cpu_witness:
  "sched_reach boot_sys sched_demo \<and> on_cpu sched_demo 0 0 \<and> \<not> on_cpu sched_demo 1 0"
proof -
  have o: "on_cpu sched_demo 0 0"
    by (simp add: on_cpu_def sched_demo_def sched_init_cpu_idle_def Let_def sched_add_thread_def set_state_def
        boot_sys_def sched_init_def upd_lnk_def upd_thr_def)
  show ?thesis
    using sched_demo_reach o thread_on_one_cpu [OF sched_demo_reach o, of 1] by auto
qed



text \<open>
  C18: the scheduler is a fair round robin. On a CPU left to itself, with the threads \<open>rs\<close> waiting
  in this order, the thread at position \<open>k\<close> runs after exactly \<open>k + 1\<close> calls of \<open>sched_yield\<close>, which
  all return; what is queued then is the rotated queue.
\<close>

theorem round_robin:
  assumes "rr_state s cpu p rs" and "length ts = Suc k" and "k < length rs" and "length rs + 2 < fuel"
  shows "\<exists>t. yields fuel cpu ts s = Some t \<and> current_thread t cpu = Some (rs ! k) \<and>
    rr_state t cpu (rs ! k) (drop (Suc k) rs @ take (Suc k) (p # rs))"
proof -
  obtain t where t: "yields fuel cpu ts s = Some t"
      "rr_state t cpu ((p # rs) ! length ts) (drop (length ts) rs @ take (length ts) (p # rs))"
    using yields_rotate [OF assms(1) _ assms(4), of ts] assms(2,3) by auto
  then have "rr_state t cpu (rs ! k) (drop (Suc k) rs @ take (Suc k) (p # rs))"
    by (simp add: assms(2))
  moreover from this have "current_thread t cpu = Some (rs ! k)"
    by (simp add: rr_state_def executing_def)
  ultimately show ?thesis
    using t(1) by blast
qed

definition rr_demo :: sys where
  "rr_demo = sched_add_thread 2 (upd_thr 2 (\<lambda>_. new_thread None)
     (boot_sys\<lparr>current_thread := (\<lambda>_. None)(0 := Some 1), g_idle_threads := (\<lambda>_. None)(0 := Some 0),
        thr := (thr boot_sys)(1 := (new_thread None)\<lparr>tstate := THREAD_RUNNING, running_cpu := 0\<rparr>)\<rparr>))"

lemma rr_demo_state: "rr_state rr_demo 0 1 [2]"
proof -
  let ?b = "boot_sys\<lparr>current_thread := (\<lambda>_. None)(0 := Some 1), g_idle_threads := (\<lambda>_. None)(0 := Some 0),
        thr := (thr boot_sys)(1 := (new_thread None)\<lparr>tstate := THREAD_RUNNING, running_cpu := 0\<rparr>)\<rparr>"
  have sel: "lnk ?b = \<lparr>lprev = id, lnext = id\<rparr>" "switching ?b = (\<lambda>_. None)" "g_sched_started ?b"
    "thr ?b = (\<lambda>x. if x = 1 then (new_thread None)\<lparr>tstate := THREAD_RUNNING, running_cpu := 0\<rparr>
       else (new_thread None)\<lparr>tstate := THREAD_ZOMBIE\<rparr>)"
    by (auto simp: boot_sys_def sched_init_def upd_lnk_def new_thread_def)
  have i: "is_idle ?b x \<longleftrightarrow> x = 0" "on_cpu ?b c x \<longleftrightarrow> c = 0 \<and> x = 1" for c x
    unfolding is_idle_def on_cpu_def sel(2) by auto
  have q: "queue_inv {} ?b (\<lambda>_. []) [] []"
    using rings_init [of heads] unfolding queue_inv_def squeues_def sel(1,4) by (simp add: new_thread_def)
  have c: "cpu_inv ?b"
    unfolding cpu_inv_def i sel by (auto simp: new_thread_def)
  have u: "unused ?b 2"
    unfolding unused_def i sel by (simp add: new_thread_def)
  note cr = create_inv [OF q c u, of None, folded rr_demo_def]
  have d: "thr rr_demo = (thr ?b)(2 := new_thread None)" "current_thread rr_demo = current_thread ?b"
    "switching rr_demo = switching ?b" "g_idle_threads rr_demo = g_idle_threads ?b" "g_sched_started rr_demo"
    "is_idle rr_demo x \<longleftrightarrow> x = 0" for x
    unfolding rr_demo_def
    by (simp_all add: sched_add_thread_def set_state_def new_thread_def)
      (simp add: boot_sys_def sched_init_def upd_lnk_def, simp add: is_idle_def)
  have "executing rr_demo 0 1"
    unfolding executing_def d sel by (simp add: new_thread_def)
  moreover have "\<not> proc_zombie x rr_demo" for x
    unfolding proc_zombie_def d sel by (simp add: new_thread_def)
  moreover have "running_cpu (thr rr_demo 2) = -1"
    unfolding d by (simp add: new_thread_def)
  ultimately show ?thesis
    unfolding rr_state_def using cr d(4,5) by auto
qed

theorem round_robin_witness:
  "rr_state rr_demo 0 1 [2] \<and> (\<exists>t. yields 4 0 [(0, 0)] rr_demo = Some t \<and> current_thread t 0 = Some 2)"
proof -
  have "length [(0::nat, 0::nat)] = Suc 0" "0 < length [2::nat]" "length [2::nat] + 2 < 4"
    by simp_all
  from round_robin [OF rr_demo_state this] rr_demo_state show ?thesis
    by auto
qed

end
