(* ===== verification/Waitqueue.thy ===== *)
theory Waitqueue
  imports Sched
begin

text \<open>
  The wait queues of \<^verbatim>\<open>kernel/src/sched/waitqueue.c\<close>. A waiter is a node on the stack of the
  waiting thread; \<open>wsys\<close> adds the fields of these nodes to the scheduler's state. The queue's own
  lock makes each section one function; \<open>wait_queue_wait\<close> is the section that queues the node, the
  blocking call of the scheduler, and the clean-up once the thread runs again.
\<close>

section \<open>Operations\<close>

record wsys =
  base :: sys
  wthread :: "nat \<Rightarrow> nat"
  woken :: "nat \<Rightarrow> bool"

definition wait_queue_init :: "nat \<Rightarrow> wsys \<Rightarrow> wsys" where
  "wait_queue_init wq s = s\<lparr>base := upd_lnk (list_init (Wq_Head wq)) (base s)\<rparr>"

text \<open>Queueing the waiter \<open>w\<close> of the current thread; \<open>None\<close> when there is no current thread.\<close>

definition wait_queue_enter :: "nat \<Rightarrow> nat \<Rightarrow> nat \<Rightarrow> wsys \<Rightarrow> wsys option" where
  "wait_queue_enter cpu wq w s =
     (case sched_get_current_thread cpu (base s) of
        None \<Rightarrow> None
      | Some t \<Rightarrow>
          Some (s\<lparr>wthread := (wthread s)(w := t), woken := (woken s)(w := False),
                  base := upd_lnk (list_add_tail (Wq_Head wq) (Wait_Node w))
                            (upd_lnk (list_init (Wait_Node w)) (base s))\<rparr>))"

definition wait_queue_leave :: "nat \<Rightarrow> wsys \<Rightarrow> wsys" where
  "wait_queue_leave w s =
     (if lnext (lnk (base s)) (Wait_Node w) \<noteq> Wait_Node w
      then s\<lparr>base := upd_lnk (list_remove (Wait_Node w)) (base s)\<rparr> else s)"

text \<open>The whole of \<open>wait_queue_wait\<close> up to the switch: the node is queued, then the thread blocks.\<close>

definition wait_queue_wait :: "nat \<Rightarrow> nat \<Rightarrow> nat \<Rightarrow> wsys \<Rightarrow> flow \<times> wsys" where
  "wait_queue_wait cpu wq w s =
     (case wait_queue_enter cpu wq w s of
        None \<Rightarrow> (Return, s)
      | Some s1 \<Rightarrow>
          (case sched_block_current_thread cpu (base s1) of (f, b) \<Rightarrow> (f, s1\<lparr>base := b\<rparr>)))"

definition wake_node :: "node \<Rightarrow> wsys \<Rightarrow> wsys" where
  "wake_node pos s =
     (case pos of
        Wait_Node w \<Rightarrow>
          let s1 = s\<lparr>base := upd_lnk (list_remove pos) (base s), woken := (woken s)(w := True)\<rparr>
          in s1\<lparr>base := sched_unblock_thread (wthread s1 w) (base s1)\<rparr>
      | _ \<Rightarrow> s)"

definition wait_queue_wake_one :: "nat \<Rightarrow> wsys \<Rightarrow> wsys" where
  "wait_queue_wake_one wq s =
     (if \<not> list_is_empty (Wq_Head wq) (lnk (base s))
      then wake_node (lnext (lnk (base s)) (Wq_Head wq)) s else s)"

definition wait_queue_wake_all :: "nat \<Rightarrow> nat \<Rightarrow> wsys \<Rightarrow> wsys option" where
  "wait_queue_wake_all fuel wq s =
     list_for_each_safe fuel (lnk \<circ> base) (\<lambda>pos s. (False, wake_node pos s)) (Wq_Head wq)
       (lnext (lnk (base s)) (Wq_Head wq)) s"

section \<open>Waiters\<close>

text \<open>The queue \<open>wq\<close> holds the waiters \<open>ws\<close>, whose threads are blocked and distinct.\<close>

definition waiting :: "wsys \<Rightarrow> (node \<Rightarrow> node list) \<Rightarrow> nat \<Rightarrow> nat list \<Rightarrow> nat list \<Rightarrow> nat list \<Rightarrow> bool" where
  "waiting s q wq ws rs ss \<longleftrightarrow> squeues (lnk (base s)) q rs ss \<and> q (Wq_Head wq) = map Wait_Node ws \<and>
     distinct (map (wthread s) ws) \<and>
     (\<forall>w \<in> set ws. tstate (thr (base s) (wthread s w)) = THREAD_BLOCKED \<and>
        wthread s w \<notin> set rs \<and> wthread s w \<notin> set ss)"

lemma remove1_map_Wait: "remove1 (Wait_Node t) (map Wait_Node xs) = map Wait_Node (remove1 t xs)"
  by (induction xs) auto

lemma squeues_remove_other:
  assumes q: "squeues h q rs ss" and l: "l \<in> heads" "l \<noteq> Ready_Queue" "l \<noteq> Sleeping_Queue" and n: "n \<in> set (q l)"
  shows "squeues (list_remove n h) (q(l := remove1 n (q l))) rs ss"
proof -
  have "set (remove1 n (q l)) \<subseteq> set (q l)"
    by (rule set_remove1_subset)
  then show ?thesis
    using rings_remove [OF squeuesD(1) [OF q] l(1) n] q l by (auto simp: squeues_def)
qed

lemma squeues_add_other:
  assumes q: "squeues h q rs ss" and l: "l \<in> heads" "l \<noteq> Ready_Queue" "l \<noteq> Sleeping_Queue"
    and n: "n \<notin> heads" "\<not> queued heads q n" "\<And>t. n \<noteq> Sched_Node t"
  shows "squeues (list_add_tail l n h) (q(l := q l @ [n])) rs ss"
  using rings_add_tail [OF squeuesD(1) [OF q] l(1) n(1,2)] q l n(3) by (auto simp: squeues_def)

text \<open>Waking the first waiter: it leaves the queue and its thread is the youngest ready one.\<close>

lemma wake_node_first:
  assumes w: "waiting s q wq (w # ws) rs ss"
  defines "t \<equiv> wthread s w"
  shows "\<exists>q'. waiting (wake_node (Wait_Node w) s) q' wq ws (rs @ [t]) ss"
    "tstate (thr (base (wake_node (Wait_Node w) s)) t) = THREAD_READY"
    "woken (wake_node (Wait_Node w) s) = (woken s)(w := True)" "wthread (wake_node (Wait_Node w) s) = wthread s"
    "\<And>x. x \<noteq> t \<Longrightarrow> thr (base (wake_node (Wait_Node w) s)) x = thr (base s) x"
proof -
  have sq: "squeues (lnk (base s)) q rs ss" and qw: "q (Wq_Head wq) = map Wait_Node (w # ws)"
    and b: "tstate (thr (base s) t) = THREAD_BLOCKED" "t \<notin> set rs" "t \<notin> set ss"
    using w by (simp_all add: waiting_def t_def)
  let ?u = "wake_node (Wait_Node w) s"
  let ?h = "list_remove (Wait_Node w) (lnk (base s))" and ?q = "q(Wq_Head wq := remove1 (Wait_Node w) (q (Wq_Head wq)))"
  have bu: "base ?u = sched_unblock_thread t (upd_lnk (list_remove (Wait_Node w)) (base s))"
    and st: "woken ?u = (woken s)(w := True)" "wthread ?u = wthread s"
    by (simp_all add: wake_node_def Let_def t_def)
  have lu: "lnk (base ?u) = list_add_tail Ready_Queue (Sched_Node t) ?h"
    and tu: "thr (base ?u) = (thr (base s))(t := (thr (base s) t)\<lparr>tstate := THREAD_READY\<rparr>)"
    using b(1) by (simp_all add: bu sched_unblock_thread_def set_state_def)
  have "squeues ?h ?q rs ss"
    by (rule squeues_remove_other [OF sq]) (simp_all add: qw)
  from squeues_add_ready [OF this b(2,3)]
  have "squeues (lnk (base ?u)) (?q(Ready_Queue := ?q Ready_Queue @ [Sched_Node t])) (rs @ [t]) ss"
    by (simp only: lu)
  moreover have "(?q(Ready_Queue := ?q Ready_Queue @ [Sched_Node t])) (Wq_Head wq) = map Wait_Node ws"
    by (simp add: qw)
  moreover have "t \<notin> wthread s ` set ws"
    using w by (simp add: waiting_def t_def)
  then have "\<forall>x \<in> set ws. wthread s x \<noteq> t"
    by blast
  ultimately show "\<exists>q'. waiting ?u q' wq ws (rs @ [t]) ss"
    using w unfolding waiting_def st tu by (intro exI conjI) (assumption | simp)+
  show "tstate (thr (base ?u) t) = THREAD_READY" "woken ?u = (woken s)(w := True)" "wthread ?u = wthread s"
    "\<And>x. x \<noteq> t \<Longrightarrow> thr (base ?u) x = thr (base s) x"
    by (simp_all add: tu st)
qed

lemma waiting_lnext:
  "waiting s q wq ws rs ss \<Longrightarrow> lnext (lnk (base s)) (Wq_Head wq) = hd (map Wait_Node ws @ [Wq_Head wq])"
  using ringsD(5) [OF squeuesD(1), of "lnk (base s)" q rs ss "Wq_Head wq"] by (auto simp: waiting_def)

lemma waiting_lnext_first:
  assumes "waiting s q wq (w # ws) rs ss"
  shows "lnext (lnk (base s)) (Wait_Node w) = hd (map Wait_Node ws @ [Wq_Head wq])"
  using klist_lnext [of "lnk (base s)" "Wq_Head wq" "[]" "Wait_Node w" "map Wait_Node ws"]
    ringsD(1) [OF squeuesD(1), of "lnk (base s)" q rs ss "Wq_Head wq"] assms by (auto simp: waiting_def)

text \<open>The walk of \<open>wait_queue_wake_all\<close> once the waiters \<open>ds\<close> have been woken.\<close>

definition wake_all_state :: "nat \<Rightarrow> wsys \<Rightarrow> nat list \<Rightarrow> nat list \<Rightarrow> nat list \<Rightarrow> nat list \<Rightarrow> wsys \<Rightarrow> bool" where
  "wake_all_state wq s rs ss ds ys t \<longleftrightarrow> wthread t = wthread s \<and>
     (\<exists>q'. waiting t q' wq ys (rs @ map (wthread s) ds) ss) \<and>
     (\<forall>w \<in> set ds. woken t w \<and> tstate (thr (base t) (wthread s w)) = THREAD_READY)"

lemma wake_all_step:
  assumes "wake_all_state wq s rs ss ds (w # ys) t" and "wthread s w \<notin> wthread s ` set ds"
  shows "lnext (lnk (base t)) (Wait_Node w) = hd (map Wait_Node ys @ [Wq_Head wq])"
    "wake_all_state wq s rs ss (ds @ [w]) ys (wake_node (Wait_Node w) t)"
proof -
  obtain q' where q': "waiting t q' wq (w # ys) (rs @ map (wthread s) ds) ss" and th: "wthread t = wthread s"
    and ds: "\<forall>w \<in> set ds. woken t w \<and> tstate (thr (base t) (wthread s w)) = THREAD_READY"
    using assms(1) by (auto simp: wake_all_state_def)
  show "lnext (lnk (base t)) (Wait_Node w) = hd (map Wait_Node ys @ [Wq_Head wq])"
    by (rule waiting_lnext_first [OF q'])
  note f = wake_node_first [OF q', unfolded th]
  have "thr (base (wake_node (Wait_Node w) t)) (wthread s d) = thr (base t) (wthread s d)" if "d \<in> set ds" for d
    by (rule f(5), rule notI) (metis assms(2) imageI that)
  with ds f(2,3) have "\<forall>d \<in> set (ds @ [w]). woken (wake_node (Wait_Node w) t) d \<and>
      tstate (thr (base (wake_node (Wait_Node w) t)) (wthread s d)) = THREAD_READY"
    by simp
  with f(1,4) show "wake_all_state wq s rs ss (ds @ [w]) ys (wake_node (Wait_Node w) t)"
    unfolding wake_all_state_def by simp
qed

lemma wake_all_result:
  assumes "waiting s q wq ws rs ss" and "length ws < fuel"
  obtains t where "wait_queue_wake_all fuel wq s = Some t" "wake_all_state wq s rs ss ws [] t"
proof -
  let ?body = "\<lambda>pos s. (False, wake_node pos s)"
  let ?P = "\<lambda>ns t. \<exists>ds ys. ws = ds @ ys \<and> ns = map Wait_Node ys \<and> wake_all_state wq s rs ss ds ys t"
  have "\<exists>t. list_for_each_safe fuel (lnk \<circ> base) ?body (Wq_Head wq) (hd (map Wait_Node ws @ [Wq_Head wq])) s = Some t \<and>
      wake_all_state wq s rs ss ws [] t"
  proof (rule list_for_each_safe_inv [where P = ?P and Q = "wake_all_state wq s rs ss ws []"])
    have "wake_all_state wq s rs ss [] ws s"
      using assms(1) by (auto simp: wake_all_state_def)
    then show "?P (map Wait_Node ws) s"
      by auto
    show "lnext ((lnk \<circ> base) t) x = hd (ns @ [Wq_Head wq]) \<and>
      (if fst (?body x t) then wake_all_state wq s rs ss ws [] (snd (?body x t)) else ?P ns (snd (?body x t)))"
      if P: "?P (x # ns) t" for x ns t
    proof -
      from P obtain ds w ys where h: "ws = ds @ w # ys" "x = Wait_Node w" "ns = map Wait_Node ys"
          "wake_all_state wq s rs ss ds (w # ys) t"
        by (auto simp: Cons_eq_map_conv)
      have "wthread s w \<notin> wthread s ` set ds"
        using assms(1) h(1) by (auto simp: waiting_def)
      note st = wake_all_step [OF h(4) this]
      have "?P ns (wake_node x t)"
        using st(2) h by (intro exI [of _ "ds @ [w]"] exI [of _ ys]) simp
      with st(1) h(2,3) show ?thesis
        by simp
    qed
  qed (use assms(2) in auto)
  then show thesis
    using that unfolding wait_queue_wake_all_def waiting_lnext [OF assms(1)] by blast
qed

lemma wake_one_result:
  assumes "waiting s q wq ws rs ss"
  shows "wait_queue_wake_one wq s = (case ws of [] \<Rightarrow> s | w # _ \<Rightarrow> wake_node (Wait_Node w) s)"
  using waiting_lnext [OF assms] by (cases ws) (simp_all add: wait_queue_wake_one_def list_is_empty_def)

section \<open>Properties\<close>

text \<open>
  C29: waking is first in, first out and complete. \<open>wait_queue_wake_all\<close> on a queue of blocked
  waiters returns, empties the queue, marks every waiter woken and appends their threads to the
  ready queue in the order in which they came; \<open>wait_queue_wake_one\<close> does this for the first waiter.
\<close>

theorem wake_all_fifo:
  assumes "waiting s q wq ws rs ss" and "length ws < fuel"
  shows "(\<exists>t q'. wait_queue_wake_all fuel wq s = Some t \<and> waiting t q' wq [] (rs @ map (wthread s) ws) ss \<and>
      (\<forall>w \<in> set ws. woken t w \<and> tstate (thr (base t) (wthread s w)) = THREAD_READY)) \<and>
    (ws \<noteq> [] \<longrightarrow> (\<exists>q'. waiting (wait_queue_wake_one wq s) q' wq (tl ws) (rs @ [wthread s (hd ws)]) ss)) \<and>
    (ws = [] \<longrightarrow> wait_queue_wake_one wq s = s)"
proof (intro conjI impI)
  show "\<exists>t q'. wait_queue_wake_all fuel wq s = Some t \<and> waiting t q' wq [] (rs @ map (wthread s) ws) ss \<and>
      (\<forall>w \<in> set ws. woken t w \<and> tstate (thr (base t) (wthread s w)) = THREAD_READY)"
    using wake_all_result [OF assms] unfolding wake_all_state_def by metis
  show "\<exists>q'. waiting (wait_queue_wake_one wq s) q' wq (tl ws) (rs @ [wthread s (hd ws)]) ss" if "ws \<noteq> []"
    using that wake_one_result [OF assms(1)] wake_node_first(1) [of s q wq "hd ws" "tl ws" rs ss] assms(1)
    by (cases ws) simp_all
  show "wait_queue_wake_one wq s = s" if "ws = []"
    using that wake_one_result [OF assms(1)] by simp
qed

text \<open>Thread 1 blocked as the waiter 7 on the wait queue 0 of an otherwise empty machine.\<close>

definition wait_demo :: wsys where
  "wait_demo = \<lparr>base = upd_lnk (list_add_tail (Wq_Head 0) (Wait_Node 7)) (set_state THREAD_BLOCKED 1 boot_sys),
     wthread = (\<lambda>_. 1), woken = (\<lambda>_. False)\<rparr>"

lemma wait_demo_waiting: "waiting wait_demo ((\<lambda>_. [])(Wq_Head 0 := [Wait_Node 7])) 0 [7] [] []"
proof -
  have "squeues \<lparr>lprev = id, lnext = id\<rparr> (\<lambda>_. []) [] []"
    using rings_init [of heads] by (simp add: squeues_def)
  from squeues_add_other [OF this, of "Wq_Head 0" "Wait_Node 7"] show ?thesis
    by (simp add: waiting_def wait_demo_def set_state_def boot_sys_def sched_init_def upd_lnk_def upd_thr_def queued_def)
qed

theorem wake_all_fifo_witness:
  "waiting wait_demo ((\<lambda>_. [])(Wq_Head 0 := [Wait_Node 7])) 0 [7] [] [] \<and>
   (\<exists>t. wait_queue_wake_all 2 0 wait_demo = Some t \<and> woken t 7 \<and> tstate (thr (base t) 1) = THREAD_READY)"
proof -
  have "wthread wait_demo 7 = 1"
    by (simp add: wait_demo_def)
  then show ?thesis
    using wait_demo_waiting wake_all_fifo [OF wait_demo_waiting, of 2] by auto
qed

text \<open>
  C30: a wake-up between the two halves of \<open>wait_queue_wait\<close> is lost. The node is queued and the
  queue's lock released before the thread blocks; if another CPU calls \<open>wait_queue_wake_one\<close> in
  between, the thread is still running and is not made ready, the node leaves the queue, and then
  the thread blocks: it is neither in the wait queue nor ready.
\<close>

theorem wait_queue_lost_wakeup:
  assumes "wait_queue_enter cpu wq w s = Some s1" and "executing (base s) cpu t" and "zombie_exit t (base s) = None"
    and "squeues (lnk (base s)) q rs ss" and "q (Wq_Head wq) = []" and "\<not> queued heads q (Wait_Node w)"
    and "sched_block_current_thread cpu (base (wait_queue_wake_one wq s1)) = (f, b)"
  shows "f = Yield \<and> tstate (thr b t) = THREAD_BLOCKED \<and> list_is_empty (Wq_Head wq) (lnk b) \<and>
    klist (lnk b) Ready_Queue (map Sched_Node rs) \<and> woken (wait_queue_wake_one wq s1) w"
proof -
  have cur: "sched_get_current_thread cpu (base s) = Some t" "current_thread (base s) cpu = Some t"
    and run: "tstate (thr (base s) t) = THREAD_RUNNING"
    using assms(2) by (simp_all add: executing_def sched_get_current_thread_def)
  let ?h = "list_add_tail (Wq_Head wq) (Wait_Node w) (lnk (base s))"
  have "list_init (Wait_Node w) (lnk (base s)) = lnk (base s)"
    using rings_unlinked [OF squeuesD(1) [OF assms(4)] _ assms(6)] 
    by (simp add: unlinked_def list_init_def set_prev_def set_next_def fun_upd_idem)
  then have s1: "s1 = s\<lparr>wthread := (wthread s)(w := t), woken := (woken s)(w := False), base := (base s)\<lparr>lnk := ?h\<rparr>\<rparr>"
    using assms(1) cur by (simp add: wait_queue_enter_def upd_lnk_def)
  let ?q = "q(Wq_Head wq := [Wait_Node w])"
  have q1: "squeues ?h ?q rs ss"
    using squeues_add_other [OF assms(4), of "Wq_Head wq" "Wait_Node w"] assms(5,6) by simp
  have first: "lnext ?h (Wq_Head wq) = Wait_Node w"
    using ringsD(5) [OF squeuesD(1) [OF q1], of "Wq_Head wq"] by simp
  let ?h2 = "list_remove (Wait_Node w) ?h"
  have q2: "squeues ?h2 (?q(Wq_Head wq := [])) rs ss"
    using squeues_remove_other [OF q1, of "Wq_Head wq" "Wait_Node w"] by simp
  have w1: "wait_queue_wake_one wq s1 = s1\<lparr>woken := (woken s)(w := True), base := (base s)\<lparr>lnk := ?h2\<rparr>\<rparr>"
    using run first by (simp add: s1 wait_queue_wake_one_def list_is_empty_def wake_node_def Let_def
        sched_unblock_thread_def upd_lnk_def)
  have "zombie_exit t ((base s)\<lparr>lnk := ?h2\<rparr>) = None"
    using assms(3) by (simp add: zombie_exit_def proc_zombie_def split: option.splits if_splits)
  then have b: "f = Yield" "b = set_state THREAD_BLOCKED t ((base s)\<lparr>lnk := ?h2\<rparr>)"
    using assms(7) cur by (simp_all add: w1 sched_block_current_thread_def sched_get_current_thread_def split: option.splits)
  have "klist ?h2 Ready_Queue (map Sched_Node rs)" "klist ?h2 (Wq_Head wq) []"
    using ringsD(1) [OF squeuesD(1) [OF q2], of Ready_Queue] ringsD(1) [OF squeuesD(1) [OF q2], of "Wq_Head wq"]
      squeuesD(2) [OF q2] by simp_all
  then show ?thesis
    using b w1 klist_is_empty [of ?h2 "Wq_Head wq" "[]"] by (simp add: set_state_def s1)
qed

text \<open>Thread 1 runs on CPU 0 of an otherwise empty machine.\<close>

definition run_demo :: wsys where
  "run_demo = \<lparr>base = upd_thr 1 (\<lambda>_. (new_thread None)\<lparr>tstate := THREAD_RUNNING, running_cpu := 0\<rparr>)
      (boot_sys\<lparr>current_thread := (\<lambda>_. None)(0 := Some 1)\<rparr>), wthread = (\<lambda>_. 0), woken = (\<lambda>_. False)\<rparr>"

theorem wait_queue_lost_wakeup_witness:
  "\<exists>s1 b. wait_queue_enter 0 0 7 run_demo = Some s1 \<and>
     sched_block_current_thread 0 (base (wait_queue_wake_one 0 s1)) = (Yield, b) \<and>
     tstate (thr b 1) = THREAD_BLOCKED \<and> list_is_empty (Wq_Head 0) (lnk b)"
proof -
  have q: "squeues (lnk (base run_demo)) (\<lambda>_. []) [] []"
    using rings_init [of heads]
    by (simp add: squeues_def run_demo_def upd_thr_def boot_sys_def sched_init_def upd_lnk_def)
  have e: "executing (base run_demo) 0 1" "zombie_exit 1 (base run_demo) = None"
    by (simp_all add: executing_def run_demo_def upd_thr_def boot_sys_def sched_init_def upd_lnk_def zombie_exit_def
        proc_zombie_def new_thread_def is_idle_def)
  obtain s1 where s1: "wait_queue_enter 0 0 7 run_demo = Some s1"
    using e by (cases "wait_queue_enter 0 0 7 run_demo")
      (auto simp: wait_queue_enter_def sched_get_current_thread_def executing_def)
  obtain f b where fb: "sched_block_current_thread 0 (base (wait_queue_wake_one 0 s1)) = (f, b)"
    by fastforce
  from wait_queue_lost_wakeup [OF s1 e q _ _ fb] s1 fb show ?thesis
    by (simp add: queued_def)
qed

end
