(* ===== verification/Cmem.thy ===== *)
theory Cmem
  imports Prelude
begin

text \<open>
  Byte-addressed memory and the loop shapes of C code that walks along it. Addresses are natural
  numbers and memory maps each of them to a byte; pointer arithmetic past the end of the address
  space, undefined in C, is left out. \<open>while_inc c i\<close> is \<^verbatim>\<open>while (c(i)) i++;\<close>, which may
  never end, and \<open>for_while n c i\<close> is \<^verbatim>\<open>for (; i < n && c(i); i++);\<close>, which always does. The
  string instructions \<^verbatim>\<open>rep movsq\<close>, \<^verbatim>\<open>rep movsb\<close>, \<^verbatim>\<open>rep stosq\<close> and
  \<^verbatim>\<open>rep stosb\<close> are here because the kernel's and the C library's memory functions are both
  written with them.
\<close>

type_synonym mem = "nat \<Rightarrow> u8"

section \<open>Loops\<close>

partial_function (option) while_inc :: "(nat \<Rightarrow> bool) \<Rightarrow> nat \<Rightarrow> nat option" where
  "while_inc c i = (if c i then while_inc c (i + 1) else Some i)"

declare while_inc.simps [code]

text \<open>The same with two pointers: \<^verbatim>\<open>while (c(a, b)) { a++; b++; }\<close>.\<close>

partial_function (option) while_pair :: "(nat \<Rightarrow> nat \<Rightarrow> bool) \<Rightarrow> nat \<Rightarrow> nat \<Rightarrow> (nat \<times> nat) option" where
  "while_pair c a b = (if c a b then while_pair c (a + 1) (b + 1) else Some (a, b))"

declare while_pair.simps [code]

function for_while :: "nat \<Rightarrow> (nat \<Rightarrow> bool) \<Rightarrow> nat \<Rightarrow> nat" where
  "for_while n c i = (if i < n \<and> c i then for_while n c (i + 1) else i)"
  by auto
termination
  by (relation "measure (\<lambda>(n, c, i). n - i)") auto

declare for_while.simps [simp del]

section \<open>Copying and filling\<close>

text \<open>Memory after \<open>n\<close> bytes at \<open>s\<close> have been copied to \<open>d\<close> at once, and after a fill.\<close>

definition copied :: "nat \<Rightarrow> nat \<Rightarrow> nat \<Rightarrow> mem \<Rightarrow> mem" where
  "copied d s n m = (\<lambda>a. if d \<le> a \<and> a < d + n then m (s + (a - d)) else m a)"

definition filled :: "nat \<Rightarrow> u8 \<Rightarrow> nat \<Rightarrow> mem \<Rightarrow> mem" where
  "filled d b n m = (\<lambda>a. if d \<le> a \<and> a < d + n then b else m a)"

text \<open>One transfer of \<open>movsq\<close> or \<open>movsb\<close>: the bytes are read before any of them is written.\<close>

fun rep_movs :: "nat \<Rightarrow> nat \<Rightarrow> nat \<Rightarrow> nat \<Rightarrow> mem \<Rightarrow> mem" where
  "rep_movs w 0 d s m = m"
| "rep_movs w (Suc k) d s m = rep_movs w k (d + w) (s + w) (copied d s w m)"

text \<open>A backward loop \<open>*--d = *--s\<close> over items of width \<open>w\<close>; the pointers start past the end.\<close>

fun back_copy :: "nat \<Rightarrow> nat \<Rightarrow> nat \<Rightarrow> nat \<Rightarrow> mem \<Rightarrow> mem" where
  "back_copy w 0 d s m = m"
| "back_copy w (Suc k) d s m = back_copy w k (d - w) (s - w) (copied (d - w) (s - w) w m)"

definition le_byte :: "u64 \<Rightarrow> nat \<Rightarrow> u8" where
  "le_byte v i = ucast (drop_bit (8 * i) v)"

definition store64 :: "nat \<Rightarrow> u64 \<Rightarrow> mem \<Rightarrow> mem" where
  "store64 d v m = (\<lambda>a. if d \<le> a \<and> a < d + 8 then le_byte v (a - d) else m a)"

fun rep_stosq :: "nat \<Rightarrow> nat \<Rightarrow> u64 \<Rightarrow> mem \<Rightarrow> mem" where
  "rep_stosq 0 d v m = m"
| "rep_stosq (Suc k) d v m = rep_stosq k (d + 8) v (store64 d v m)"

fun rep_stosb :: "nat \<Rightarrow> nat \<Rightarrow> u8 \<Rightarrow> mem \<Rightarrow> mem" where
  "rep_stosb 0 d b m = m"
| "rep_stosb (Suc k) d b m = rep_stosb k (d + 1) b (m(d := b))"

section \<open>C strings\<close>

definition bytes_at :: "mem \<Rightarrow> nat \<Rightarrow> u8 list \<Rightarrow> bool" where
  "bytes_at m p xs \<longleftrightarrow> (\<forall>i < length xs. m (p + i) = xs ! i)"

definition cstr :: "mem \<Rightarrow> nat \<Rightarrow> u8 list \<Rightarrow> bool" where
  "cstr m p xs \<longleftrightarrow> p \<noteq> 0 \<and> 0 \<notin> set xs \<and> bytes_at m p (xs @ [0])"

section \<open>Lemmas on the loops\<close>

lemma while_inc_found:
  assumes "i \<le> j" and "\<not> c j" and "\<And>k. i \<le> k \<Longrightarrow> k < j \<Longrightarrow> c k"
  shows "while_inc c i = Some j"
  using assms
proof (induction "j - i" arbitrary: i)
  case 0
  then show ?case
    by (simp add: while_inc.simps)
next
  case (Suc n)
  then have "while_inc c (i + 1) = Some j"
    by (intro Suc.hyps(1)) auto
  with Suc show ?case
    by (subst while_inc.simps) auto
qed

lemma while_pair_found:
  assumes "\<not> c (a + j) (b + j)" and "\<And>k. k < j \<Longrightarrow> c (a + k) (b + k)"
  shows "while_pair c a b = Some (a + j, b + j)"
  using assms
proof (induction j arbitrary: a b)
  case 0
  then show ?case
    by (simp add: while_pair.simps)
next
  case (Suc j)
  have "while_pair c (a + 1) (b + 1) = Some (a + 1 + j, b + 1 + j)"
    using Suc.prems(1) Suc.prems(2) [of "Suc _"] by (intro Suc.IH) simp_all
  then show ?case
    using Suc.prems(2) [of 0] by (subst while_pair.simps) simp
qed

lemma for_while_found:
  assumes "i \<le> j" and "j \<le> n" and "j < n \<Longrightarrow> \<not> c j" and "\<And>k. i \<le> k \<Longrightarrow> k < j \<Longrightarrow> c k"
  shows "for_while n c i = j"
  using assms
proof (induction "j - i" arbitrary: i)
  case 0
  then show ?case
    by (subst for_while.simps) auto
next
  case (Suc k)
  then have "for_while n c (i + 1) = j"
    by (intro Suc.hyps(1)) auto
  with Suc show ?case
    by (subst for_while.simps) auto
qed

lemma for_while_bounds:
  "i \<le> n \<Longrightarrow> i \<le> for_while n c i \<and> for_while n c i \<le> n"
  by (induction n c i rule: for_while.induct) (subst (1 2) for_while.simps, fastforce)

lemma for_while_stop: "for_while n c i < n \<Longrightarrow> \<not> c (for_while n c i)"
  by (induction n c i rule: for_while.induct) (metis for_while.simps)

lemma for_while_before: "i \<le> k \<Longrightarrow> k < for_while n c i \<Longrightarrow> c k"
proof (induction n c i rule: for_while.induct)
  case (1 n c i)
  show ?case
  proof (cases "i < n \<and> c i")
    case True
    then have "for_while n c i = for_while n c (i + 1)"
      by (simp add: for_while.simps)
    then show ?thesis
      using 1 True by (cases "k = i") auto
  next
    case False
    then have "for_while n c i = i"
      by (subst for_while.simps) auto
    then show ?thesis
      using 1 by simp
  qed
qed

section \<open>Lemmas on copying and filling\<close>

lemma copied_0 [simp]: "copied d s 0 m = m"
  by (auto simp: copied_def fun_eq_iff)

lemma copied_same [simp]: "copied d d n m = m"
  by (auto simp: copied_def fun_eq_iff)

lemma copied_inside: "i < n \<Longrightarrow> copied d s n m (d + i) = m (s + i)"
  by (simp add: copied_def)

lemma copied_outside: "a < d \<or> d + n \<le> a \<Longrightarrow> copied d s n m a = m a"
  by (auto simp: copied_def)

text \<open>Two transfers make one, forwards when the target is not above the source, backwards when
  it is not below; either way when the regions are apart.\<close>

lemma copied_forward:
  assumes "d \<le> s \<or> s + (j + k) \<le> d"
  shows "copied (d + j) (s + j) k (copied d s j m) = copied d s (j + k) m"
  using assms by (auto simp: copied_def fun_eq_iff)

lemma copied_backward:
  assumes "s \<le> d \<or> d + (j + k) \<le> s"
  shows "copied d s j (copied (d + j) (s + j) k m) = copied d s (j + k) m"
  using assms by (auto simp: copied_def fun_eq_iff)

lemma rep_movs_copied:
  "d \<le> s \<or> s + w * k \<le> d \<Longrightarrow> rep_movs w k d s m = copied d s (w * k) m"
proof (induction k arbitrary: d s m)
  case (Suc k)
  have "rep_movs w (Suc k) d s m = copied (d + w) (s + w) (w * k) (copied d s w m)"
    using Suc.prems Suc.IH [of "d + w" "s + w"] by auto
  also have "\<dots> = copied d s (w + w * k) m"
    using Suc.prems by (intro copied_forward) simp
  finally show ?case
    by simp
qed simp

lemma back_copy_copied:
  "s \<le> d \<Longrightarrow> w * k \<le> s \<Longrightarrow> back_copy w k d s m = copied (d - w * k) (s - w * k) (w * k) m"
proof (induction k arbitrary: d s m)
  case (Suc k)
  let ?d = "d - (w + w * k)" and ?s = "s - (w + w * k)"
  have e: "d - w = ?d + w * k" "s - w = ?s + w * k"
    using Suc.prems by simp_all
  have "back_copy w (Suc k) d s m = copied ?d ?s (w * k) (copied (d - w) (s - w) w m)"
    using Suc.prems by (simp add: Suc.IH)
  also have "\<dots> = copied ?d ?s (w * k + w) m"
    unfolding e using Suc.prems by (intro copied_backward) auto
  finally show ?case
    by (simp add: add.commute)
qed simp

lemma filled_0 [simp]: "filled d b 0 m = m"
  by (auto simp: filled_def fun_eq_iff)

lemma filled_append: "filled (d + j) b k (filled d b j m) = filled d b (j + k) m"
  by (auto simp: filled_def fun_eq_iff)

lemma rep_stosb_filled: "rep_stosb k d b m = filled d b k m"
proof (induction k arbitrary: d m)
  case (Suc k)
  have "m(d := b) = filled d b 1 m"
    by (auto simp: filled_def fun_eq_iff)
  then show ?case
    using Suc filled_append [of d 1 b k m] by simp
qed simp

text \<open>Multiplying a byte by \<open>0x0101010101010101\<close> repeats it in all eight bytes.\<close>

primrec repunit :: "nat \<Rightarrow> nat" where
  "repunit 0 = 1"
| "repunit (Suc k) = 256 * repunit k + 1"

lemma repunit_mod: "b < 256 \<Longrightarrow> repunit k * b mod 256 = b"
  by (cases k) (simp_all add: distrib_right mult.assoc mod_add_left_eq)

lemma repunit_div: "b < 256 \<Longrightarrow> repunit (Suc k) * b div 256 = repunit k * b"
  by (simp add: distrib_right mult.assoc)

lemma repunit_digit: "b < 256 \<Longrightarrow> i \<le> k \<Longrightarrow> repunit k * b div 256 ^ i mod 256 = b"
proof (induction i arbitrary: k)
  case 0
  then show ?case
    by (simp add: repunit_mod)
next
  case (Suc i)
  then obtain k' where k: "k = Suc k'" "i \<le> k'"
    by (cases k) auto
  have "repunit k * b div 256 ^ Suc i = repunit k * b div 256 div 256 ^ i"
    by (simp add: div_mult2_eq)
  also have "\<dots> = repunit k' * b div 256 ^ i"
    using Suc.prems by (simp only: k(1) repunit_div)
  finally show ?case
    using Suc.IH [OF Suc.prems(1) k(2)] by simp
qed

lemma le_byte_repeat:
  assumes "i < 8"
  shows "le_byte (0x0101010101010101 * ucast b) i = b"
proof -
  let ?v = "0x0101010101010101 * ucast b :: u64"
  have b: "unat b < 256"
    using unsigned_less [of b] by simp
  have "unat ?v = 72340172838076673 * unat b"
    using b by (simp add: unat_word_ariths unsigned_ucast_eq take_bit_eq_mod)
  moreover have "repunit (Suc (Suc (Suc (Suc (Suc (Suc (Suc 0))))))) = 72340172838076673"
    by simp
  ultimately have v: "unat ?v = repunit (Suc (Suc (Suc (Suc (Suc (Suc (Suc 0))))))) * unat b"
    by simp
  have "unat ?v div 256 ^ i mod 256 = unat b"
    unfolding v using assms by (intro repunit_digit [OF b]) simp
  moreover have lt: "unat ?v < 18446744073709551616"
    using unsigned_less [of ?v] by simp
  have "unat (le_byte ?v i) = drop_bit (8 * i) (unat ?v) mod 256"
    unfolding le_byte_def by (simp add: unsigned_ucast_eq unsigned_drop_bit_eq take_bit_eq_mod mod_less [OF lt])
  then have "unat (le_byte ?v i) = unat ?v div 256 ^ i mod 256"
    by (simp only: drop_bit_eq_div power_mult) simp
  ultimately show ?thesis
    by (simp only: unsigned_word_eqI)
qed

lemma rep_stosq_filled: "rep_stosq k d (0x0101010101010101 * ucast b) m = filled d b (8 * k) m"
proof (induction k arbitrary: d m)
  case (Suc k)
  have "store64 d (0x0101010101010101 * ucast b) m = filled d b 8 m"
    by (auto simp: store64_def filled_def fun_eq_iff le_byte_repeat)
  then show ?case
    using Suc filled_append [of d 8 b "8 * k" m] by simp
qed simp

section \<open>Lemmas on strings\<close>

lemma bytes_at_nth: "bytes_at m p xs \<Longrightarrow> i < length xs \<Longrightarrow> m (p + i) = xs ! i"
  by (simp add: bytes_at_def)

lemma cstrD:
  assumes "cstr m p xs"
  shows "p \<noteq> 0" and "i < length xs \<Longrightarrow> m (p + i) = xs ! i" and "i < length xs \<Longrightarrow> m (p + i) \<noteq> 0"
    and "m (p + length xs) = 0" and "i \<le> length xs \<Longrightarrow> m (p + i) = (xs @ [0]) ! i"
proof -
  have b: "m (p + i) = (xs @ [0]) ! i" if "i \<le> length xs" for i
    using assms that by (auto simp: cstr_def intro: bytes_at_nth)
  show "p \<noteq> 0" "i \<le> length xs \<Longrightarrow> m (p + i) = (xs @ [0]) ! i"
    using assms b by (simp_all add: cstr_def)
  show "i < length xs \<Longrightarrow> m (p + i) = xs ! i" "m (p + length xs) = 0"
    using b [of i] b [of "length xs"] by (simp_all add: nth_append)
  show "i < length xs \<Longrightarrow> m (p + i) \<noteq> 0"
    using b [of i] assms nth_mem [of i xs] by (metis cstr_def less_imp_le nth_append)
qed

lemma cstrI:
  assumes "p \<noteq> 0" and "0 \<notin> set xs" and "\<And>i. i < length xs \<Longrightarrow> m (p + i) = xs ! i" and "m (p + length xs) = 0"
  shows "cstr m p xs"
  using assms by (auto simp: cstr_def bytes_at_def nth_append less_Suc_eq)

lemma cstr_zero_iff:
  assumes "cstr m p xs" and "i \<le> length xs"
  shows "m (p + i) = 0 \<longleftrightarrow> i = length xs"
  using cstrD(3) [OF assms(1), of i] cstrD(4) [OF assms(1)] assms(2) by (cases "i = length xs") auto

lemma cstr_unique: "cstr m p xs \<Longrightarrow> cstr m p ys \<Longrightarrow> xs = ys"
proof -
  assume x: "cstr m p xs" and y: "cstr m p ys"
  have "length xs = length ys"
    using cstr_zero_iff [OF x, of "length ys"] cstr_zero_iff [OF y, of "length xs"] cstrD(4) [OF x] cstrD(4) [OF y]
    by (metis nat_le_linear)
  then show ?thesis
    by (intro nth_equalityI) (metis cstrD(2) [OF x] cstrD(2) [OF y])+
qed

lemma cstr_drop:
  assumes "cstr m p xs" and "i \<le> length xs"
  shows "cstr m (p + i) (drop i xs)"
proof (rule cstrI)
  show "p + i \<noteq> 0" "0 \<notin> set (drop i xs)"
    using assms by (auto simp: cstr_def dest: in_set_dropD)
  show "m (p + i + j) = drop i xs ! j" if "j < length (drop i xs)" for j
    using that cstrD(2) [OF assms(1), of "i + j"] by (simp add: add.assoc)
  show "m (p + i + length (drop i xs)) = 0"
    using cstrD(4) [OF assms(1)] assms(2) by simp
qed

lemma bytes_at_Cons: "bytes_at m p (x # xs) \<longleftrightarrow> m p = x \<and> bytes_at m (p + 1) xs"
  by (simp add: bytes_at_def All_less_Suc2)

lemma cstr_Nil: "cstr m p [] \<longleftrightarrow> p \<noteq> 0 \<and> m p = 0"
  by (simp add: cstr_def bytes_at_def)

lemma cstr_Cons: "cstr m p (x # xs) \<longleftrightarrow> p \<noteq> 0 \<and> x \<noteq> 0 \<and> m p = x \<and> cstr m (p + 1) xs"
  by (auto simp: cstr_def bytes_at_Cons)

lemma cstr_copied:
  assumes "cstr m s xs" and "d \<noteq> 0" and "length xs < n"
  shows "cstr (copied d s n m) d xs"
  using assms cstrD [OF assms(1)] copied_inside [of _ n d s m]
  by (intro cstrI) (auto simp: cstr_def)

end
