(* ===== verification/Kstring.thy ===== *)
theory Kstring
  imports Cmem Heap "HOL-Library.Monad_Syntax" "HOL-Library.Sublist"
begin

text \<open>
  The kernel's memory and string functions, \<^verbatim>\<open>kernel/src/string.c\<close>, on a byte memory. A
  function whose C version returns its first argument is given by the memory it leaves. The null
  pointer is 0. \<open>None\<close> is a walk that finds no terminator.
\<close>

section \<open>Memory\<close>

definition memcpy :: "nat \<Rightarrow> nat \<Rightarrow> nat \<Rightarrow> mem \<Rightarrow> mem" where
  "memcpy dest src n m =
     (if dest = 0 \<or> src = 0 \<or> n = 0 then m
      else let q = 8 * (n div 8)
           in rep_movs 1 (n mod 8) (dest + q) (src + q) (rep_movs 8 (n div 8) dest src m))"

definition memset :: "nat \<Rightarrow> int \<Rightarrow> nat \<Rightarrow> mem \<Rightarrow> mem" where
  "memset s c n m =
     (if s = 0 \<or> n = 0 then m
      else let byte = word_of_int c :: u8; val64 = 0x0101010101010101 * ucast byte
           in rep_stosb (n mod 8) (s + 8 * (n div 8)) (ucast val64) (rep_stosq (n div 8) s val64 m))"

definition memmove :: "nat \<Rightarrow> nat \<Rightarrow> nat \<Rightarrow> mem \<Rightarrow> mem" where
  "memmove dest src n m =
     (if dest = 0 \<or> src = 0 \<or> n = 0 \<or> dest = src then m
      else if dest < src \<or> dest \<ge> src + n then memcpy dest src n m
      else let d = dest + n; s = src + n; rem = n mod 8
           in back_copy 8 (n div 8) (d - rem) (s - rem) (back_copy 1 rem d s m))"

definition memcmp :: "mem \<Rightarrow> nat \<Rightarrow> nat \<Rightarrow> nat \<Rightarrow> int" where
  "memcmp m s1 s2 n =
     (let i = for_while n (\<lambda>i. m (s1 + i) = m (s2 + i)) 0
      in if i < n then uint (m (s1 + i)) - uint (m (s2 + i)) else 0)"

section \<open>Strings\<close>

definition strlen :: "mem \<Rightarrow> nat \<Rightarrow> nat option" where
  "strlen m s = while_inc (\<lambda>len. s \<noteq> 0 \<and> m (s + len) \<noteq> 0) 0"

definition strnlen :: "mem \<Rightarrow> nat \<Rightarrow> nat \<Rightarrow> nat" where
  "strnlen m s maxlen = for_while maxlen (\<lambda>len. s \<noteq> 0 \<and> m (s + len) \<noteq> 0) 0"

definition strcmp :: "mem \<Rightarrow> nat \<Rightarrow> nat \<Rightarrow> int option" where
  "strcmp m s1 s2 = do {
     (s1, s2) \<leftarrow> while_pair (\<lambda>s1 s2. m s1 \<noteq> 0 \<and> m s1 = m s2) s1 s2;
     Some (uint (m s1) - uint (m s2))
   }"

definition strncmp :: "mem \<Rightarrow> nat \<Rightarrow> nat \<Rightarrow> nat \<Rightarrow> int" where
  "strncmp m s1 s2 n =
     (let i = for_while n (\<lambda>i. \<not> (m (s1 + i) \<noteq> m (s2 + i) \<or> m (s1 + i) = 0)) 0
      in if i < n then uint (m (s1 + i)) - uint (m (s2 + i)) else 0)"

text \<open>The loop \<open>while ((*d++ = *src++));\<close> of \<open>strcpy\<close> and \<open>strcat\<close>.\<close>

partial_function (option) copy_string :: "nat \<Rightarrow> nat \<Rightarrow> mem \<Rightarrow> mem option" where
  "copy_string d src m =
     (let c = m src; m1 = m(d := c) in if c \<noteq> 0 then copy_string (d + 1) (src + 1) m1 else Some m1)"

declare copy_string.simps [code]

definition strcpy :: "nat \<Rightarrow> nat \<Rightarrow> mem \<Rightarrow> mem option" where
  "strcpy dest src m = copy_string dest src m"

function copy_bounded :: "nat \<Rightarrow> nat \<Rightarrow> nat \<Rightarrow> nat \<Rightarrow> mem \<Rightarrow> nat \<times> mem" where
  "copy_bounded dest src n i m =
     (if i < n \<and> m (src + i) \<noteq> 0 then copy_bounded dest src n (i + 1) (m(dest + i := m (src + i))) else (i, m))"
  by auto
termination
  by (relation "measure (\<lambda>(d, s, n, i, m). n - i)") auto

declare copy_bounded.simps [simp del]

definition strncpy :: "nat \<Rightarrow> nat \<Rightarrow> nat \<Rightarrow> mem \<Rightarrow> mem" where
  "strncpy dest src n m =
     (case copy_bounded dest src n 0 m of (i, m1) \<Rightarrow> rep_stosb (n - i) (dest + i) 0 m1)"

definition strcat :: "nat \<Rightarrow> nat \<Rightarrow> mem \<Rightarrow> mem option" where
  "strcat dest src m = do { len \<leftarrow> strlen m dest; copy_string (dest + len) src m }"

definition strchr :: "mem \<Rightarrow> nat \<Rightarrow> int \<Rightarrow> nat option" where
  "strchr m s c = do {
     p \<leftarrow> while_inc (\<lambda>p. m p \<noteq> 0 \<and> m p \<noteq> word_of_int c) s;
     Some (if m p = word_of_int c then p else 0)
   }"

partial_function (option) last_char :: "mem \<Rightarrow> u8 \<Rightarrow> nat \<Rightarrow> nat \<Rightarrow> (nat \<times> nat) option" where
  "last_char m c lst s =
     (if m s \<noteq> 0 then last_char m c (if m s = c then s else lst) (s + 1) else Some (lst, s))"

declare last_char.simps [code]

definition strrchr :: "mem \<Rightarrow> nat \<Rightarrow> int \<Rightarrow> nat option" where
  "strrchr m s c = do {
     (lst, e) \<leftarrow> last_char m (word_of_int c) 0 s;
     Some (if lst \<noteq> 0 \<or> m e = word_of_int c then if lst \<noteq> 0 then lst else e else 0)
   }"

definition strstr :: "mem \<Rightarrow> nat \<Rightarrow> nat \<Rightarrow> nat option" where
  "strstr m haystack needle =
     (if haystack = 0 \<or> needle = 0 then Some 0
      else if m needle = 0 then Some haystack
      else do {
        needle_len \<leftarrow> strlen m needle;
        p \<leftarrow> while_inc (\<lambda>p. m p \<noteq> 0 \<and> \<not> (m p = m needle \<and> strncmp m p needle needle_len = 0)) haystack;
        Some (if m p \<noteq> 0 then p else 0)
      })"

text \<open>\<open>strdup\<close> takes its memory from the kernel heap, whose payload bytes it reads and writes.\<close>

definition strdup :: "nat \<Rightarrow> heap \<Rightarrow> (nat \<times> heap) run" where
  "strdup s h =
     (if s = 0 then Ret (0, h)
      else case strlen (hdata h) s of
        None \<Rightarrow> Hang
      | Some len \<Rightarrow>
          (case kmalloc (add64 len 1) h of
             Hang \<Rightarrow> Hang
           | Panic msg \<Rightarrow> Panic msg
           | Ret (p, h1) \<Rightarrow>
               if p = 0 then Ret (0, h1)
               else Ret (p, h1\<lparr>hdata := memcpy p s (add64 len 1) (hdata h1)\<rparr>)))"

section \<open>Lemmas\<close>

lemma memcpy_copied:
  assumes "dest \<le> src \<or> src + n \<le> dest" and "dest \<noteq> 0" and "src \<noteq> 0"
  shows "memcpy dest src n m = copied dest src n m"
proof (cases "n = 0")
  case False
  let ?q = "8 * (n div 8)"
  have n: "?q + n mod 8 = n"
    by simp
  have le: "?q \<le> n"
    by simp
  have "memcpy dest src n m = rep_movs 1 (n mod 8) (dest + ?q) (src + ?q) (copied dest src ?q m)"
    using assms False le by (subst rep_movs_copied [symmetric]) (auto simp: memcpy_def Let_def)
  also have "\<dots> = copied (dest + ?q) (src + ?q) (n mod 8) (copied dest src ?q m)"
    using assms(1) n by (subst rep_movs_copied) auto
  also have "\<dots> = copied dest src n m"
    using copied_forward [of dest src ?q "n mod 8" m] assms(1) by (simp only: n)
  finally show ?thesis .
qed (simp add: memcpy_def)

lemma memset_filled:
  assumes "s \<noteq> 0"
  shows "memset s c n m = filled s (word_of_int c) n m"
proof (cases "n = 0")
  case False
  have "ucast (0x0101010101010101 * ucast b :: u64) = b" for b :: u8
    using le_byte_repeat [of 0 b] by (simp add: le_byte_def)
  then have "memset s c n m = filled (s + 8 * (n div 8)) (word_of_int c) (n mod 8) (filled s (word_of_int c) (8 * (n div 8)) m)"
    using assms False by (simp only: memset_def Let_def rep_stosq_filled rep_stosb_filled) simp
  also have "\<dots> = filled s (word_of_int c) n m"
    by (simp only: filled_append mult_div_mod_eq)
  finally show ?thesis .
qed (simp add: memset_def)

lemma strlen_cstr: "cstr m s xs \<Longrightarrow> strlen m s = Some (length xs)"
  unfolding strlen_def by (rule while_inc_found) (auto dest: cstrD)

lemma strnlen_cstr: "cstr m s xs \<Longrightarrow> strnlen m s n = min n (length xs)"
  unfolding strnlen_def by (rule for_while_found) (use cstrD(1,3,4) [of m s xs] in \<open>auto simp: min_def split: if_splits\<close>)

lemma copy_string_copied:
  assumes "cstr m s xs" and "d \<le> s \<or> s + length xs < d"
  shows "copy_string d s m = Some (copied d s (length xs + 1) m)"
  using assms
proof (induction xs arbitrary: d s m)
  case Nil
  have "m s = 0"
    using cstrD(4) [OF Nil.prems(1)] by simp
  then show ?case
    by (subst copy_string.simps) (auto simp: copied_def fun_eq_iff)
next
  case (Cons x xs)
  let ?m = "m(d := m s)"
  have s: "m s \<noteq> 0"
    using cstrD(3) [OF Cons.prems(1), of 0] by simp
  have eq: "?m = copied d s 1 m"
    by (auto simp: copied_def fun_eq_iff)
  have c: "cstr m (s + 1) xs"
    using cstr_drop [OF Cons.prems(1), of 1] by simp
  have c2: "cstr ?m (s + 1) xs"
  proof (rule cstrI)
    show "?m (s + 1 + i) = xs ! i" if "i < length xs" for i
      using cstrD(2) [OF c that] Cons.prems(2) that by auto
    show "?m (s + 1 + length xs) = 0"
      using cstrD(4) [OF c] Cons.prems(2) by auto
  qed (use c in \<open>auto simp: cstr_def\<close>)
  have "copy_string (d + 1) (s + 1) ?m = Some (copied (d + 1) (s + 1) (length xs + 1) ?m)"
    by (rule Cons.IH [OF c2]) (use Cons.prems(2) in auto)
  then show ?case
    using s copied_forward [of d s 1 "length xs + 1" m] Cons.prems(2)
    by (subst copy_string.simps) (auto simp: eq add.commute)
qed

lemma strchr_cstr:
  assumes "cstr m s xs"
  shows "strchr m s c =
    (let i = length (takeWhile (\<lambda>x. x \<noteq> word_of_int c) (xs @ [0])) in Some (if i \<le> length xs then s + i else 0))"
proof -
  let ?P = "\<lambda>x. x \<noteq> word_of_int c"
  let ?i = "length (takeWhile ?P (xs @ [0]))"
  have i: "?i \<le> length xs + 1"
    using length_takeWhile_le [of ?P "xs @ [0]"] by simp
  have before: "m (s + k) \<noteq> word_of_int c" if "k < ?i" for k
  proof -
    have "?P (takeWhile ?P (xs @ [0]) ! k)"
      using nth_mem [OF that] set_takeWhileD by metis
    then show ?thesis
      using cstrD(5) [OF assms, of k] takeWhile_nth [OF that] that i by simp
  qed
  show ?thesis
  proof (cases "?i \<le> length xs")
    case True
    then have c: "m (s + ?i) = word_of_int c"
      using nth_length_takeWhile [of ?P "xs @ [0]"] cstrD(5) [OF assms True] by simp
    have "while_inc (\<lambda>p. m p \<noteq> 0 \<and> m p \<noteq> word_of_int c) s = Some (s + ?i)"
    proof (rule while_inc_found)
      show "m k \<noteq> 0 \<and> m k \<noteq> word_of_int c" if "s \<le> k" "k < s + ?i" for k
        using before [of "k - s"] cstrD(3) [OF assms, of "k - s"] that True by auto
    qed (use c in auto)
    then show ?thesis
      using True c by (simp add: strchr_def)
  next
    case False
    then have e: "m (s + length xs) \<noteq> word_of_int c"
      using i by (intro before) simp
    have "while_inc (\<lambda>p. m p \<noteq> 0 \<and> m p \<noteq> word_of_int c) s = Some (s + length xs)"
    proof (rule while_inc_found)
      show "m k \<noteq> 0 \<and> m k \<noteq> word_of_int c" if "s \<le> k" "k < s + length xs" for k
        using before [of "k - s"] cstrD(3) [OF assms, of "k - s"] that False by auto
    qed (use cstrD(4) [OF assms] in auto)
    then show ?thesis
      using False e by (simp add: strchr_def)
  qed
qed

text \<open>What the comparisons compute: the difference of the first bytes that differ, the end
  counting as 0.\<close>

fun byte_diff :: "u8 list \<Rightarrow> u8 list \<Rightarrow> int" where
  "byte_diff [] [] = 0"
| "byte_diff [] (y # ys) = - uint y"
| "byte_diff (x # xs) [] = uint x"
| "byte_diff (x # xs) (y # ys) = (if x = y then byte_diff xs ys else uint x - uint y)"

lemma byte_diff_0: "0 \<notin> set xs \<Longrightarrow> 0 \<notin> set ys \<Longrightarrow> byte_diff xs ys = 0 \<longleftrightarrow> xs = ys"
  by (induction xs ys rule: byte_diff.induct) (auto simp: word_uint_eq_iff)

lemma byte_diff_less: "0 \<notin> set ys \<Longrightarrow> byte_diff xs ys < 0 \<longleftrightarrow> ord_class.lexordp xs ys"
proof (induction xs ys rule: byte_diff.induct)
  case (2 y ys)
  then have "0 < uint y"
    using word_less_def [of 0 y] by (simp add: word_gt_0)
  then show ?case
    by simp
next
  case (4 x xs y ys)
  have "uint x - uint y < 0 \<longleftrightarrow> x < y"
    by (simp add: word_less_def)
  then show ?case
    using 4 by (cases x y rule: linorder_cases) (auto simp del: diff_less_0_iff_less)
qed (simp_all add: not_less)

lemma strcmp_step:
  "strcmp m a b = (if m a \<noteq> 0 \<and> m a = m b then strcmp m (a + 1) (b + 1) else Some (uint (m a) - uint (m b)))"
  unfolding strcmp_def by (subst while_pair.simps) simp

lemma strcmp_diff: "cstr m a xs \<Longrightarrow> cstr m b ys \<Longrightarrow> strcmp m a b = Some (byte_diff xs ys)"
  by (induction xs ys arbitrary: a b rule: byte_diff.induct) (subst strcmp_step, simp add: cstr_Nil cstr_Cons)+

lemma for_while_Suc: "for_while (Suc n) c (Suc i) = Suc (for_while n (\<lambda>k. c (Suc k)) i)"
  by (induction n "\<lambda>k. c (Suc k)" i rule: for_while.induct) (subst (1 2) for_while.simps, simp)

lemma strncmp_Suc:
  "strncmp m a b (Suc n) =
     (if m a \<noteq> m b \<or> m a = 0 then uint (m a) - uint (m b) else strncmp m (a + 1) (b + 1) n)"
  by (subst strncmp_def, subst for_while.simps) (simp add: strncmp_def for_while_Suc Let_def)

lemma strncmp_diff:
  "cstr m a xs \<Longrightarrow> cstr m b ys \<Longrightarrow> strncmp m a b n = byte_diff (take n xs) (take n ys)"
proof (induction n arbitrary: a b xs ys)
  case 0
  then show ?case
    by (simp add: strncmp_def for_while.simps)
next
  case (Suc n)
  from Suc.prems show ?case
    by (cases xs; cases ys) (simp_all add: strncmp_Suc Suc.IH cstr_Nil cstr_Cons)
qed

lemma strncmp_prefix:
  assumes "cstr m a xs" and "cstr m b ys"
  shows "strncmp m a b (length ys) = 0 \<longleftrightarrow> prefix ys xs"
proof -
  have "0 \<notin> set (take (length ys) xs)" "0 \<notin> set ys"
    using assms by (auto simp: cstr_def dest: in_set_takeD)
  then have "strncmp m a b (length ys) = 0 \<longleftrightarrow> take (length ys) xs = ys"
    using byte_diff_0 [of "take (length ys) xs" ys] by (simp add: strncmp_diff [OF assms])
  also have "\<dots> \<longleftrightarrow> prefix ys xs"
    by (auto simp: prefix_def append_eq_conv_conj) (metis append_take_drop_id)
  finally show ?thesis .
qed

text \<open>The first occurrence of \<open>ns\<close> in \<open>hs\<close>, as the pointer a search from \<open>h\<close> returns.\<close>

definition first_match :: "nat \<Rightarrow> 'a list \<Rightarrow> 'a list \<Rightarrow> nat" where
  "first_match h hs ns =
     (case find (\<lambda>i. prefix ns (drop i hs)) [0..<length hs + 1] of None \<Rightarrow> 0 | Some i \<Rightarrow> h + i)"

lemma first_match_cases:
  obtains i where "i \<le> length hs" and "prefix ns (drop i hs)" and "\<forall>k < i. \<not> prefix ns (drop k hs)"
    and "first_match h hs ns = h + i"
  | "\<forall>k \<le> length hs. \<not> prefix ns (drop k hs)" and "first_match h hs ns = 0"
proof (cases "find (\<lambda>i. prefix ns (drop i hs)) [0..<length hs + 1]")
  case None
  then have "\<forall>k \<le> length hs. \<not> prefix ns (drop k hs)"
    by (auto simp: find_None_iff less_Suc_eq_le simp del: upt_Suc)
  with None show ?thesis
    using that(2) by (simp add: first_match_def del: upt_Suc)
next
  case (Some i)
  then obtain j where "j < length hs + 1" "prefix ns (drop i hs)" "i = j" "\<forall>k < j. \<not> prefix ns (drop k hs)"
    by (auto simp: find_Some_iff simp del: upt_Suc)
  then show ?thesis
    using that(1) [of i] Some by (simp add: first_match_def del: upt_Suc)
qed

lemma strstr_first:
  assumes h: "cstr m h hs" and n: "cstr m n ns"
  shows "strstr m h n = Some (first_match h hs ns)"
proof (cases "ns = []")
  case True
  have "[0..<length hs + 1] = 0 # [Suc 0..<length hs + 1]"
    by (rule upt_conv_Cons) simp
  then show ?thesis
    using True cstrD(4) [OF n] cstrD(1) [OF h] cstrD(1) [OF n] by (simp add: strstr_def first_match_def del: upt_Suc)
next
  case False
  let ?c = "\<lambda>p. m p \<noteq> 0 \<and> \<not> (m p = m n \<and> strncmp m p n (length ns) = 0)"
  have mn: "m n \<noteq> 0" "m n = ns ! 0"
    using cstrD(2,3) [OF n, of 0] False by simp_all
  have c: "?c (h + k) \<longleftrightarrow> \<not> prefix ns (drop k hs)" if k: "k < length hs" for k
  proof -
    have d: "cstr m (h + k) (drop k hs)"
      using cstr_drop [OF h] k by simp
    have "m (h + k) = m n" if "prefix ns (drop k hs)"
      using that mn(2) False cstrD(2) [OF d, of 0] k by (cases "drop k hs") (auto simp: prefix_def neq_Nil_conv)
    then show ?thesis
      using strncmp_prefix [OF d n] cstrD(3) [OF h k] by blast
  qed
  have r: "strstr m h n = (while_inc ?c h \<bind> (\<lambda>p. Some (if m p \<noteq> 0 then p else 0)))"
    using cstrD(1) [OF h] cstrD(1) [OF n] mn(1) by (simp add: strstr_def strlen_cstr [OF n])
  have e: "\<not> ?c (h + length hs)"
    using cstrD(4) [OF h] by simp
  show ?thesis
  proof (cases rule: first_match_cases [of hs ns h])
    case (1 i)
    then have i: "i < length hs"
      using False by (cases "i = length hs") auto
    have "while_inc ?c h = Some (h + i)"
    proof (rule while_inc_found)
      show "?c k" if "h \<le> k" "k < h + i" for k
        using c [of "k - h"] 1(3) that i by simp
    qed (use c [OF i] 1(2) in auto)
    then show ?thesis
      using r 1(4) cstrD(3) [OF h i] by simp
  next
    case 2
    have "while_inc ?c h = Some (h + length hs)"
    proof (rule while_inc_found)
      show "?c k" if "h \<le> k" "k < h + length hs" for k
        using c [of "k - h"] 2(1) that by simp
    qed (use e in auto)
    then show ?thesis
      using r 2(2) cstrD(4) [OF h] by simp
  qed
qed

lemma copy_bounded_result:
  assumes "cstr m src xs" and "i \<le> length xs" and "i \<le> n" and "dest + n \<le> src \<or> src + length xs < dest"
  shows "copy_bounded dest src n i m =
    (min n (length xs), copied (dest + i) (src + i) (min n (length xs) - i) m)"
  using assms
proof (induction dest src n i m rule: copy_bounded.induct)
  case (1 dest src n i m)
  show ?case
  proof (cases "i < n \<and> i < length xs")
    case True
    let ?m = "m(dest + i := m (src + i))"
    have eq: "?m = copied (dest + i) (src + i) 1 m"
      by (auto simp: copied_def fun_eq_iff)
    have c: "cstr ?m src xs"
      using 1(2) 1(5) True by (auto simp: cstr_def bytes_at_def)
    have "copy_bounded dest src n (i + 1) ?m =
        (min n (length xs), copied (dest + (i + 1)) (src + (i + 1)) (min n (length xs) - (i + 1)) ?m)"
      by (rule 1(1) [OF _ c]) (use 1(5) True cstrD(3) [OF 1(2), of i] in auto)
    then show ?thesis
      using True cstrD(3) [OF 1(2), of i] copied_forward [of "dest + i" "src + i" 1 "min n (length xs) - (i + 1)" m] 1(5)
      by (subst copy_bounded.simps) (auto simp: eq add.assoc Suc_diff_Suc)
  next
    case False
    then have "i = min n (length xs)" "\<not> (i < n \<and> m (src + i) \<noteq> 0)"
      using 1(3,4) cstrD(4) [OF 1(2)] by auto
    then show ?thesis
      by (subst copy_bounded.simps) (simp only: if_False diff_self_eq_0 copied_0)
  qed
qed

lemma strncpy_result:
  assumes "cstr m src xs" and "dest + n \<le> src \<or> src + length xs < dest"
  shows "strncpy dest src n m = filled (dest + min n (length xs)) 0 (n - length xs) (copied dest src (min n (length xs)) m)"
  using copy_bounded_result [OF assms(1), of 0 n dest] assms(2)
  by (simp add: strncpy_def rep_stosb_filled min_def)

lemma strcat_result:
  assumes d: "cstr m dest ds" and x: "cstr m src xs" and "dest + length ds + length xs < src \<or> src + length xs < dest"
  shows "strcat dest src m = Some (copied (dest + length ds) src (length xs + 1) m)"
    and "cstr (copied (dest + length ds) src (length xs + 1) m) dest (ds @ xs)"
proof -
  show "strcat dest src m = Some (copied (dest + length ds) src (length xs + 1) m)"
    using copy_string_copied [OF x, of "dest + length ds"] assms(3) by (auto simp: strcat_def strlen_cstr [OF d])
  show "cstr (copied (dest + length ds) src (length xs + 1) m) dest (ds @ xs)"
  proof (rule cstrI)
    show "copied (dest + length ds) src (length xs + 1) m (dest + i) = (ds @ xs) ! i" if "i < length (ds @ xs)" for i
      using that cstrD(2) [OF d, of i] cstrD(2) [OF x, of "i - length ds"] by (auto simp: copied_def nth_append)
    show "copied (dest + length ds) src (length xs + 1) m (dest + length (ds @ xs)) = 0"
      using cstrD(4) [OF x] by (simp add: copied_def)
  qed (use d x in \<open>auto simp: cstr_def\<close>)
qed

lemma strdup_result:
  assumes "cstr (hdata h) s xs" and "kmalloc (length xs + 1) h = Ret (p, h1)" and "hdata h1 = hdata h"
    and "p \<noteq> 0" and "length xs + 1 < 2 ^ 64" and "p \<le> s \<or> s + length xs < p"
  shows "\<exists>m. strdup s h = Ret (p, h1\<lparr>hdata := m\<rparr>) \<and> cstr m p xs"
proof -
  have a: "add64 (length xs) 1 = length xs + 1"
    using assms(5) by (simp add: add64_eq)
  have "memcpy p s (length xs + 1) (hdata h) = copied p s (length xs + 1) (hdata h)"
    using assms cstrD(1) [OF assms(1)] by (intro memcpy_copied) auto
  then show ?thesis
    using assms cstrD(1) [OF assms(1)] cstr_copied [OF assms(1,4), of "length xs + 1"]
    by (auto simp: strdup_def strlen_cstr a simp del: One_nat_def)
qed

section \<open>Properties\<close>

text \<open>
  C38: \<open>memmove\<close> copies exactly, for every overlap of source and target, although it moves eight
  bytes at a time, forwards or backwards; \<open>memcpy\<close> does so when the target does not start inside
  the source; \<open>memset\<close> with its multiplied pattern fills exactly the \<open>n\<close> bytes. Nothing else changes.
\<close>

theorem memmove_correct:
  assumes "dest \<noteq> 0" and "src \<noteq> 0"
  shows "memmove dest src n m = copied dest src n m \<and>
    (dest \<le> src \<or> src + n \<le> dest \<longrightarrow> memcpy dest src n m = copied dest src n m) \<and>
    memset dest c n m = filled dest (word_of_int c) n m"
proof -
  have "memmove dest src n m = copied dest src n m"
  proof (cases "n = 0 \<or> dest = src \<or> dest < src \<or> dest \<ge> src + n")
    case True
    then show ?thesis
      using assms memcpy_copied [of dest src n m] by (auto simp: memmove_def)
  next
    case False
    let ?r = "n mod 8" and ?q = "8 * (n div 8)"
    have n: "?q + ?r = n"
      by simp
    have d: "dest + n - ?r = dest + ?q" "src + n - ?r = src + ?q"
      using n by linarith+
    have "memmove dest src n m = back_copy 8 (n div 8) (dest + ?q) (src + ?q) (back_copy 1 ?r (dest + n) (src + n) m)"
      using False assms by (simp add: memmove_def Let_def d)
    also have "back_copy 1 ?r (dest + n) (src + n) m = copied (dest + ?q) (src + ?q) ?r m"
      using back_copy_copied [of "src + n" "dest + n" 1 ?r m] False d by simp
    also have "back_copy 8 (n div 8) (dest + ?q) (src + ?q) \<dots> = copied dest src ?q \<dots>"
      using back_copy_copied [of "src + ?q" "dest + ?q" 8 "n div 8"] False by simp
    also have "\<dots> = copied dest src n m"
      using copied_backward [of src dest ?q ?r m] False by (simp only: n) simp
    finally show ?thesis .
  qed
  then show ?thesis
    using assms memcpy_copied memset_filled by blast
qed

theorem memmove_correct_witness:
  "memmove 12 10 3 (\<lambda>a. if a = 10 then 1 else if a = 11 then 2 else if a = 12 then 3 else 0) 14 = 3"
  using memmove_correct [of 12 10 3 "\<lambda>a. if a = 10 then 1 else if a = 11 then 2 else if a = 12 then 3 else 0" 0]
  by (simp add: copied_def)

text \<open>
  \<open>strcmp\<close> returns for any two strings, and its sign is their lexicographic order by unsigned
  bytes: zero exactly on equal strings, negative exactly when the first one comes earlier. \<open>strncmp\<close>
  is \<open>strcmp\<close> on the first \<open>n\<close> bytes.
\<close>

theorem strcmp_order:
  assumes "cstr m s1 xs" and "cstr m s2 ys"
  shows "\<exists>r. strcmp m s1 s2 = Some r \<and> (r = 0 \<longleftrightarrow> xs = ys) \<and> (r < 0 \<longleftrightarrow> ord_class.lexordp xs ys) \<and>
    (strncmp m s1 s2 n = 0 \<longleftrightarrow> take n xs = take n ys) \<and>
    (strncmp m s1 s2 n < 0 \<longleftrightarrow> ord_class.lexordp (take n xs) (take n ys))"
proof -
  have "0 \<notin> set xs" "0 \<notin> set ys" "0 \<notin> set (take n xs)" "0 \<notin> set (take n ys)"
    using assms by (auto simp: cstr_def dest: in_set_takeD)
  then show ?thesis
    by (simp add: strcmp_diff [OF assms] strncmp_diff [OF assms] byte_diff_0 byte_diff_less)
qed

theorem strcmp_order_witness:
  "\<exists>r. strcmp (\<lambda>a. if a = 16 then 65 else if a = 32 then 200 else 0) 16 32 = Some r \<and> r < 0"
proof -
  let ?m = "\<lambda>a. if a = 16 then 65 else if a = 32 then 200 else 0 :: u8"
  have "cstr ?m 16 [65]" "cstr ?m 32 [200]"
    by (simp_all add: cstr_def bytes_at_def less_Suc_eq)
  from strcmp_order [OF this, of 0] show ?thesis
    by (auto simp: word_less_nat_alt)
qed

end
