(* ===== verification/Lstring.thy ===== *)
theory Lstring
  imports Kstring
begin

text \<open>
  The C library's memory, string and character functions, \<^verbatim>\<open>libc/src/string/string.c\<close>, on
  the byte memory of the kernel's functions. Where the library repeats a name of the kernel the
  definition carries the suffix \<open>_libc\<close>. A \<open>char **\<close> argument is the value it points to, \<open>None\<close>
  when the argument itself is null. \<open>strdup\<close> and \<open>strndup\<close> are left out with the library's
  \<open>malloc\<close>.
\<close>

section \<open>Memory\<close>

definition memcpy_libc :: "nat \<Rightarrow> nat \<Rightarrow> nat \<Rightarrow> mem \<Rightarrow> mem" where
  "memcpy_libc dest src n m =
     (if dest = 0 \<or> src = 0 \<or> n = 0 then m
      else let q = 8 * (n div 8)
           in rep_movs 1 (n mod 8) (dest + q) (src + q) (rep_movs 8 (n div 8) dest src m))"

definition memset_libc :: "nat \<Rightarrow> int \<Rightarrow> nat \<Rightarrow> mem \<Rightarrow> mem" where
  "memset_libc s c n m =
     (if s = 0 \<or> n = 0 then m
      else let byte = word_of_int c :: u8; val64 = 0x0101010101010101 * ucast byte
           in rep_stosb (n mod 8) (s + 8 * (n div 8)) (ucast val64) (rep_stosq (n div 8) s val64 m))"

definition memmove_libc :: "nat \<Rightarrow> nat \<Rightarrow> nat \<Rightarrow> mem \<Rightarrow> mem" where
  "memmove_libc dest src n m =
     (if dest = 0 \<or> src = 0 \<or> n = 0 \<or> dest = src then m
      else if dest < src \<or> dest \<ge> src + n then memcpy_libc dest src n m
      else let d = dest + n; s = src + n; rem = n mod 8
           in back_copy 8 (n div 8) (d - rem) (s - rem) (back_copy 1 rem d s m))"

definition memcmp_libc :: "mem \<Rightarrow> nat \<Rightarrow> nat \<Rightarrow> nat \<Rightarrow> int" where
  "memcmp_libc m s1 s2 n =
     (let i = for_while n (\<lambda>i. m (s1 + i) = m (s2 + i)) 0
      in if i < n then uint (m (s1 + i)) - uint (m (s2 + i)) else 0)"

definition memchr :: "mem \<Rightarrow> nat \<Rightarrow> int \<Rightarrow> nat \<Rightarrow> nat" where
  "memchr m s c n =
     (let i = for_while n (\<lambda>i. m (s + i) \<noteq> word_of_int c) 0 in if i < n then s + i else 0)"

fun memrchr :: "mem \<Rightarrow> nat \<Rightarrow> int \<Rightarrow> nat \<Rightarrow> nat" where
  "memrchr m s c 0 = 0"
| "memrchr m s c (Suc i) = (if m (s + i) = word_of_int c then s + i else memrchr m s c i)"

definition memmem :: "mem \<Rightarrow> nat \<Rightarrow> nat \<Rightarrow> nat \<Rightarrow> nat \<Rightarrow> nat" where
  "memmem m haystack haystacklen needle needlelen =
     (if haystack = 0 \<or> needle = 0 then 0
      else if needlelen = 0 then haystack
      else if haystacklen < needlelen then 0
      else let mx = haystacklen - needlelen;
               i = for_while (mx + 1) (\<lambda>i. \<not> (m (haystack + i) = m needle \<and>
                     memcmp_libc m (haystack + i) needle needlelen = 0)) 0
           in if i \<le> mx then haystack + i else 0)"

function memccpy_from :: "nat \<Rightarrow> nat \<Rightarrow> u8 \<Rightarrow> nat \<Rightarrow> nat \<Rightarrow> mem \<Rightarrow> nat \<times> mem" where
  "memccpy_from d s ch n i m =
     (if i < n
      then let m1 = m(d + i := m (s + i))
           in if m1 (s + i) = ch then (d + i + 1, m1) else memccpy_from d s ch n (i + 1) m1
      else (0, m))"
  by auto
termination
  by (relation "measure (\<lambda>(d, s, ch, n, i, m). n - i)") auto

declare memccpy_from.simps [simp del]

definition memccpy :: "nat \<Rightarrow> nat \<Rightarrow> int \<Rightarrow> nat \<Rightarrow> mem \<Rightarrow> nat \<times> mem" where
  "memccpy dest src c n m = memccpy_from dest src (word_of_int c) n 0 m"

definition bzero :: "nat \<Rightarrow> nat \<Rightarrow> mem \<Rightarrow> mem" where
  "bzero s n m = memset_libc s 0 n m"

definition bcopy :: "nat \<Rightarrow> nat \<Rightarrow> nat \<Rightarrow> mem \<Rightarrow> mem" where
  "bcopy src dst n m = memmove_libc dst src n m"

definition bcmp :: "mem \<Rightarrow> nat \<Rightarrow> nat \<Rightarrow> nat \<Rightarrow> int" where
  "bcmp m s1 s2 n = memcmp_libc m s1 s2 n"

section \<open>Characters\<close>

definition isalnum :: "int \<Rightarrow> bool" where
  "isalnum c \<longleftrightarrow> 48 \<le> c \<and> c \<le> 57 \<or> 97 \<le> c \<and> c \<le> 122 \<or> 65 \<le> c \<and> c \<le> 90"

definition isalpha :: "int \<Rightarrow> bool" where
  "isalpha c \<longleftrightarrow> 97 \<le> c \<and> c \<le> 122 \<or> 65 \<le> c \<and> c \<le> 90"

definition iscntrl :: "int \<Rightarrow> bool" where
  "iscntrl c \<longleftrightarrow> 0 \<le> c \<and> c < 32 \<or> c = 127"

definition isdigit :: "int \<Rightarrow> bool" where
  "isdigit c \<longleftrightarrow> 48 \<le> c \<and> c \<le> 57"

definition isgraph :: "int \<Rightarrow> bool" where
  "isgraph c \<longleftrightarrow> 32 < c \<and> c < 127"

definition islower :: "int \<Rightarrow> bool" where
  "islower c \<longleftrightarrow> 97 \<le> c \<and> c \<le> 122"

definition isprint :: "int \<Rightarrow> bool" where
  "isprint c \<longleftrightarrow> 32 \<le> c \<and> c < 127"

definition ispunct :: "int \<Rightarrow> bool" where
  "ispunct c \<longleftrightarrow> isgraph c \<and> \<not> isalnum c"

definition isspace :: "int \<Rightarrow> bool" where
  "isspace c \<longleftrightarrow> c = 32 \<or> c = 9 \<or> c = 10 \<or> c = 13 \<or> c = 12 \<or> c = 11"

definition isupper :: "int \<Rightarrow> bool" where
  "isupper c \<longleftrightarrow> 65 \<le> c \<and> c \<le> 90"

definition isxdigit :: "int \<Rightarrow> bool" where
  "isxdigit c \<longleftrightarrow> 48 \<le> c \<and> c \<le> 57 \<or> 97 \<le> c \<and> c \<le> 102 \<or> 65 \<le> c \<and> c \<le> 70"

definition tolower :: "int \<Rightarrow> int" where
  "tolower c = (if 65 \<le> c \<and> c \<le> 90 then c + (97 - 65) else c)"

definition toupper :: "int \<Rightarrow> int" where
  "toupper c = (if 97 \<le> c \<and> c \<le> 122 then c - (97 - 65) else c)"

definition isascii :: "int \<Rightarrow> bool" where
  "isascii c \<longleftrightarrow> 0 \<le> c \<and> c \<le> 127"

definition toascii :: "int \<Rightarrow> int" where
  "toascii c = c AND 0x7F"

definition isblank :: "int \<Rightarrow> bool" where
  "isblank c \<longleftrightarrow> c = 32 \<or> c = 9"

text \<open>The compiler's \<open>__builtin_ffs\<close>: one more than the position of the lowest set bit, or 0.\<close>

definition ffs :: "32 word \<Rightarrow> nat" where
  "ffs w = (case find (bit w) [0..<32] of None \<Rightarrow> 0 | Some k \<Rightarrow> k + 1)"

definition ffsl :: "64 word \<Rightarrow> nat" where
  "ffsl w = (case find (bit w) [0..<64] of None \<Rightarrow> 0 | Some k \<Rightarrow> k + 1)"

section \<open>Comparing and searching\<close>

definition strlen_libc :: "mem \<Rightarrow> nat \<Rightarrow> nat option" where
  "strlen_libc m s = while_inc (\<lambda>len. s \<noteq> 0 \<and> m (s + len) \<noteq> 0) 0"

definition strnlen_libc :: "mem \<Rightarrow> nat \<Rightarrow> nat \<Rightarrow> nat" where
  "strnlen_libc m s maxlen = for_while maxlen (\<lambda>len. s \<noteq> 0 \<and> m (s + len) \<noteq> 0) 0"

definition strcmp_libc :: "mem \<Rightarrow> nat \<Rightarrow> nat \<Rightarrow> int option" where
  "strcmp_libc m s1 s2 = do {
     (s1, s2) \<leftarrow> while_pair (\<lambda>s1 s2. m s1 \<noteq> 0 \<and> m s1 = m s2) s1 s2;
     Some (uint (m s1) - uint (m s2))
   }"

definition strncmp_libc :: "mem \<Rightarrow> nat \<Rightarrow> nat \<Rightarrow> nat \<Rightarrow> int" where
  "strncmp_libc m s1 s2 n =
     (let i = for_while n (\<lambda>i. \<not> (m (s1 + i) \<noteq> m (s2 + i) \<or> m (s1 + i) = 0)) 0
      in if i < n then uint (m (s1 + i)) - uint (m (s2 + i)) else 0)"

definition strcoll :: "mem \<Rightarrow> nat \<Rightarrow> nat \<Rightarrow> int option" where
  "strcoll m s1 s2 = strcmp_libc m s1 s2"

definition strcasecmp :: "mem \<Rightarrow> nat \<Rightarrow> nat \<Rightarrow> int option" where
  "strcasecmp m s1 s2 = do {
     (s1, s2) \<leftarrow> while_pair (\<lambda>s1 s2. m s1 \<noteq> 0 \<and> tolower (uint (m s1)) = tolower (uint (m s2))) s1 s2;
     Some (tolower (uint (m s1)) - tolower (uint (m s2)))
   }"

definition strncasecmp :: "mem \<Rightarrow> nat \<Rightarrow> nat \<Rightarrow> nat \<Rightarrow> int" where
  "strncasecmp m s1 s2 n =
     (let diff = \<lambda>i. tolower (uint (m (s1 + i))) - tolower (uint (m (s2 + i)));
          i = for_while n (\<lambda>i. \<not> (diff i \<noteq> 0 \<or> m (s1 + i) = 0)) 0
      in if i < n then diff i else 0)"

definition strchr_libc :: "mem \<Rightarrow> nat \<Rightarrow> int \<Rightarrow> nat option" where
  "strchr_libc m s c = do {
     p \<leftarrow> while_inc (\<lambda>p. m p \<noteq> 0 \<and> m p \<noteq> word_of_int c) s;
     Some (if m p = word_of_int c then p else 0)
   }"

definition strrchr_libc :: "mem \<Rightarrow> nat \<Rightarrow> int \<Rightarrow> nat option" where
  "strrchr_libc m s c = do {
     (lst, e) \<leftarrow> last_char m (word_of_int c) 0 s;
     Some (if lst \<noteq> 0 \<or> m e = word_of_int c then if lst \<noteq> 0 then lst else e else 0)
   }"

definition index :: "mem \<Rightarrow> nat \<Rightarrow> int \<Rightarrow> nat option" where
  "index m s c = strchr_libc m s c"

definition rindex :: "mem \<Rightarrow> nat \<Rightarrow> int \<Rightarrow> nat option" where
  "rindex m s c = strrchr_libc m s c"

definition strchrnul :: "mem \<Rightarrow> nat \<Rightarrow> int \<Rightarrow> nat option" where
  "strchrnul m s c = while_inc (\<lambda>s. m s \<noteq> 0 \<and> m s \<noteq> word_of_int c) s"

partial_function (option) strstr_from :: "mem \<Rightarrow> nat \<Rightarrow> nat \<Rightarrow> nat option" where
  "strstr_from m needle haystack =
     (if m haystack = 0 then Some 0
      else if m haystack = m needle
      then do {
        (h, n) \<leftarrow> while_pair (\<lambda>h n. m h \<noteq> 0 \<and> m n \<noteq> 0 \<and> m h = m n) haystack needle;
        if m n = 0 then Some haystack else strstr_from m needle (haystack + 1)
      }
      else strstr_from m needle (haystack + 1))"

declare strstr_from.simps [code]

definition strstr_libc :: "mem \<Rightarrow> nat \<Rightarrow> nat \<Rightarrow> nat option" where
  "strstr_libc m haystack needle =
     (if m needle = 0 then Some haystack else strstr_from m needle haystack)"

partial_function (option) strcasestr_from :: "mem \<Rightarrow> nat \<Rightarrow> nat \<Rightarrow> nat option" where
  "strcasestr_from m needle haystack =
     (if m haystack = 0 then Some 0
      else if tolower (uint (m haystack)) = tolower (uint (m needle))
      then do {
        (h, n) \<leftarrow> while_pair (\<lambda>h n. m h \<noteq> 0 \<and> m n \<noteq> 0 \<and> tolower (uint (m h)) = tolower (uint (m n))) haystack needle;
        if m n = 0 then Some haystack else strcasestr_from m needle (haystack + 1)
      }
      else strcasestr_from m needle (haystack + 1))"

declare strcasestr_from.simps [code]

definition strcasestr :: "mem \<Rightarrow> nat \<Rightarrow> nat \<Rightarrow> nat option" where
  "strcasestr m haystack needle =
     (if m needle = 0 then Some haystack else strcasestr_from m needle haystack)"

partial_function (option) span_from :: "mem \<Rightarrow> nat \<Rightarrow> nat \<Rightarrow> nat \<Rightarrow> nat option" where
  "span_from m accept count s =
     (if m s \<noteq> 0
      then do {
        r \<leftarrow> strchr_libc m accept (sint (m s));
        if r \<noteq> 0 then span_from m accept (count + 1) (s + 1) else Some count
      }
      else Some count)"

declare span_from.simps [code]

definition strspn :: "mem \<Rightarrow> nat \<Rightarrow> nat \<Rightarrow> nat option" where
  "strspn m s accept = span_from m accept 0 s"

partial_function (option) cspan_from :: "mem \<Rightarrow> nat \<Rightarrow> nat \<Rightarrow> nat \<Rightarrow> nat option" where
  "cspan_from m reject count s =
     (if m s \<noteq> 0
      then do {
        r \<leftarrow> strchr_libc m reject (sint (m s));
        if r = 0 then cspan_from m reject (count + 1) (s + 1) else Some count
      }
      else Some count)"

declare cspan_from.simps [code]

definition strcspn :: "mem \<Rightarrow> nat \<Rightarrow> nat \<Rightarrow> nat option" where
  "strcspn m s reject = cspan_from m reject 0 s"

partial_function (option) strpbrk :: "mem \<Rightarrow> nat \<Rightarrow> nat \<Rightarrow> nat option" where
  "strpbrk m s accept =
     (if m s \<noteq> 0
      then do {
        r \<leftarrow> strchr_libc m accept (sint (m s));
        if r \<noteq> 0 then Some s else strpbrk m (s + 1) accept
      }
      else Some 0)"

declare strpbrk.simps [code]

section \<open>Copying and splitting\<close>

definition strcpy_libc :: "nat \<Rightarrow> nat \<Rightarrow> mem \<Rightarrow> mem option" where
  "strcpy_libc dest src m = copy_string dest src m"

definition strncpy_libc :: "nat \<Rightarrow> nat \<Rightarrow> nat \<Rightarrow> mem \<Rightarrow> mem" where
  "strncpy_libc dest src n m =
     (case copy_bounded dest src n 0 m of (i, m1) \<Rightarrow> rep_stosb (n - i) (dest + i) 0 m1)"

definition strcat_libc :: "nat \<Rightarrow> nat \<Rightarrow> mem \<Rightarrow> mem option" where
  "strcat_libc dest src m = do { len \<leftarrow> strlen_libc m dest; copy_string (dest + len) src m }"

definition strncat :: "nat \<Rightarrow> nat \<Rightarrow> nat \<Rightarrow> mem \<Rightarrow> mem option" where
  "strncat dest src n m = do {
     len \<leftarrow> strlen_libc m dest;
     let (i, m1) = copy_bounded (dest + len) src n 0 m;
     Some (m1(dest + len + i := 0))
   }"

definition strxfrm :: "nat \<Rightarrow> nat \<Rightarrow> nat \<Rightarrow> mem \<Rightarrow> (nat \<times> mem) option" where
  "strxfrm dest src n m = do {
     len \<leftarrow> strlen_libc m src;
     Some (len, if n > 0 \<and> dest \<noteq> 0 then (strncpy_libc dest src n m)(dest + (n - 1) := 0) else m)
   }"

definition strlcpy :: "nat \<Rightarrow> nat \<Rightarrow> nat \<Rightarrow> mem \<Rightarrow> (nat \<times> mem) option" where
  "strlcpy dst src sz m = do {
     src_len \<leftarrow> strlen_libc m src;
     Some (src_len,
       if sz > 0
       then let copy_len = if src_len \<ge> sz then sz - 1 else src_len
            in (memcpy_libc dst src copy_len m)(dst + copy_len := 0)
       else m)
   }"

definition strlcat :: "nat \<Rightarrow> nat \<Rightarrow> nat \<Rightarrow> mem \<Rightarrow> (nat \<times> mem) option" where
  "strlcat dst src sz m = do {
     dst_len \<leftarrow> strlen_libc m dst;
     src_len \<leftarrow> strlen_libc m src;
     Some (if dst_len \<ge> sz then (sz + src_len, m)
       else let space = sz - dst_len - 1;
                copy_len = if src_len > space then space else src_len
            in (dst_len + src_len, (memcpy_libc (dst + dst_len) src copy_len m)(dst + dst_len + copy_len := 0)))
   }"

text \<open>The result is the returned pointer, the new \<open>*stringp\<close> and the memory.\<close>

definition strsep :: "nat option \<Rightarrow> nat \<Rightarrow> mem \<Rightarrow> (nat \<times> nat option \<times> mem) option" where
  "strsep stringp delim m =
     (case stringp of
        None \<Rightarrow> Some (0, None, m)
      | Some start \<Rightarrow>
          if start = 0 then Some (0, Some 0, m)
          else do {
            p \<leftarrow> strpbrk m start delim;
            Some (if p \<noteq> 0 then (start, Some (p + 1), m(p := 0)) else (start, Some 0, m))
          })"

definition strtok_r :: "nat \<Rightarrow> nat \<Rightarrow> nat option \<Rightarrow> mem \<Rightarrow> (nat \<times> nat option \<times> mem) option" where
  "strtok_r str delim saveptr m =
     (case saveptr of
        None \<Rightarrow> Some (0, None, m)
      | Some save \<Rightarrow>
          let s = if str \<noteq> 0 then str else save in
          if s = 0 then Some (0, Some save, m)
          else do {
            k \<leftarrow> strspn m s delim;
            let token = s + k;
            if m token = 0 then Some (0, Some 0, m)
            else do {
              e \<leftarrow> strpbrk m token delim;
              Some (if e \<noteq> 0 then (token, Some (e + 1), m(e := 0)) else (token, Some 0, m))
            }
          })"

text \<open>\<open>strtok\<close> keeps its place in the global \<open>g_strtok_ctx\<close>.\<close>

definition strtok :: "nat \<Rightarrow> nat \<Rightarrow> nat \<Rightarrow> mem \<Rightarrow> (nat \<times> nat option \<times> mem) option" where
  "strtok str delim g_strtok_ctx m = strtok_r str delim (Some g_strtok_ctx) m"

section \<open>Messages\<close>

definition strerror :: "int \<Rightarrow> string" where
  "strerror errnum =
     (if errnum = 0 then ''Success''
      else if errnum = 1 then ''Operation not permitted''
      else if errnum = 2 then ''No such file or directory''
      else if errnum = 3 then ''No such process''
      else if errnum = 4 then ''Interrupted system call''
      else if errnum = 5 then ''Input/output error''
      else if errnum = 9 then ''Bad file descriptor''
      else if errnum = 12 then ''Cannot allocate memory''
      else if errnum = 13 then ''Permission denied''
      else if errnum = 17 then ''File exists''
      else if errnum = 20 then ''Not a directory''
      else if errnum = 21 then ''Is a directory''
      else if errnum = 22 then ''Invalid argument''
      else if errnum = 38 then ''Function not implemented''
      else ''Unknown error'')"

text \<open>The bytes of a message, copied into a buffer.\<close>

definition put_bytes :: "nat \<Rightarrow> u8 list \<Rightarrow> mem \<Rightarrow> mem" where
  "put_bytes d xs m = (\<lambda>a. if d \<le> a \<and> a < d + length xs then xs ! (a - d) else m a)"

definition strerror_r :: "int \<Rightarrow> nat \<Rightarrow> nat \<Rightarrow> mem \<Rightarrow> int \<times> mem" where
  "strerror_r errnum buf buflen m =
     (if buf = 0 \<or> buflen = 0 then (22, m)
      else let s = map of_char (strerror errnum) @ [0]; len = length s - 1
           in if len \<ge> buflen then (34, (put_bytes buf (take (buflen - 1) s) m)(buf + (buflen - 1) := 0))
              else (0, put_bytes buf s m))"

definition strsignal :: "int \<Rightarrow> string" where
  "strsignal sig =
     (if sig = 1 then ''Hangup'' else if sig = 2 then ''Interrupt'' else if sig = 3 then ''Quit''
      else if sig = 9 then ''Killed'' else if sig = 11 then ''Segmentation fault''
      else if sig = 15 then ''Terminated'' else ''Signal'')"

section \<open>Paths\<close>

text \<open>A returned string is a literal or a place in the caller's buffer.\<close>

datatype cptr = Literal string | At nat

fun trim_slashes :: "nat \<Rightarrow> nat \<Rightarrow> mem \<Rightarrow> mem" where
  "trim_slashes path len m =
     (if len > 1 \<and> m (path + (len - 1)) = 47 then trim_slashes path (len - 1) (m(path + (len - 1) := 0)) else m)"

declare trim_slashes.simps [simp del]

definition basename :: "nat \<Rightarrow> mem \<Rightarrow> (cptr \<times> mem) option" where
  "basename path m =
     (if path = 0 \<or> m path = 0 then Some (Literal ''.'', m)
      else do {
        len \<leftarrow> strlen_libc m path;
        let m1 = trim_slashes path len m;
        slash \<leftarrow> strrchr_libc m1 path 47;
        Some (At (if slash \<noteq> 0 then slash + 1 else path), m1)
      })"

definition dirname :: "nat \<Rightarrow> mem \<Rightarrow> (cptr \<times> mem) option" where
  "dirname path m =
     (if path = 0 \<or> m path = 0 then Some (Literal ''.'', m)
      else do {
        len \<leftarrow> strlen_libc m path;
        let m1 = trim_slashes path len m;
        slash \<leftarrow> strrchr_libc m1 path 47;
        Some (if slash = 0 then (Literal ''.'', m1)
              else if slash = path then (Literal ''/'', m1)
              else (At path, m1(slash := 0)))
      })"

section \<open>Lemmas\<close>

text \<open>The functions that the library and the kernel share are the same functions.\<close>

lemma libc_kernel_memory:
  "memcpy_libc = memcpy" "memset_libc = memset" "memmove_libc = memmove" "memcmp_libc = memcmp"
  by (simp_all add: fun_eq_iff memcpy_libc_def memcpy_def memset_libc_def memset_def memmove_libc_def memmove_def
      memcmp_libc_def memcmp_def)

lemma libc_kernel_string:
  "strlen_libc = strlen" "strnlen_libc = strnlen" "strcmp_libc = strcmp" "strncmp_libc = strncmp"
  "strchr_libc = strchr" "strrchr_libc = strrchr" "strcpy_libc = strcpy" "strncpy_libc = strncpy" "strcat_libc = strcat"
  by (simp_all add: fun_eq_iff strlen_libc_def strlen_def strnlen_libc_def strnlen_def strcmp_libc_def strcmp_def
      strncmp_libc_def strncmp_def strchr_libc_def strchr_def strrchr_libc_def strrchr_def strcpy_libc_def strcpy_def
      strncpy_libc_def strncpy_def strcat_libc_def strcat_def)

lemmas libc_kernel = libc_kernel_memory libc_kernel_string

text \<open>The inner loop of the searches, for a byte comparison through \<open>f\<close>.\<close>

lemma match_loop:
  assumes "cstr m h hs" and "cstr m n ns"
  obtains h' n' where "while_pair (\<lambda>h n. m h \<noteq> 0 \<and> m n \<noteq> 0 \<and> f (m h) = f (m n)) h n = Some (h', n')"
    and "m n' = 0 \<longleftrightarrow> prefix (map f ns) (map f hs)"
proof -
  have "\<exists>h' n'. while_pair (\<lambda>h n. m h \<noteq> 0 \<and> m n \<noteq> 0 \<and> f (m h) = f (m n)) h n = Some (h', n') \<and>
      (m n' = 0 \<longleftrightarrow> prefix (map f ns) (map f hs))"
    using assms
  proof (induction ns arbitrary: h n hs)
    case Nil
    then show ?case
      by (subst while_pair.simps) (simp add: cstr_Nil)
  next
    case (Cons y ns)
    show ?case
    proof (cases "\<exists>x xs. hs = x # xs \<and> f x = f y")
      case True
      then show ?thesis
        using Cons by (subst while_pair.simps) (auto simp: cstr_Cons)
    next
      case False
      then show ?thesis
        using Cons.prems by (subst while_pair.simps, cases hs) (auto simp: cstr_Cons cstr_Nil)
    qed
  qed
  with that show thesis
    by blast
qed

lemma first_match_Nil: "ns \<noteq> [] \<Longrightarrow> first_match h [] ns = 0"
  by (simp add: first_match_def)

lemma find_Suc: "find P (map Suc xs) = map_option Suc (find (\<lambda>i. P (Suc i)) xs)"
  by (induction xs) simp_all

lemma first_match_Cons:
  "first_match h (x # hs) ns = (if prefix ns (x # hs) then h else first_match (h + 1) hs ns)"
proof -
  have "[0..<length (x # hs) + 1] = 0 # map Suc [0..<length hs + 1]"
    by (simp add: map_Suc_upt upt_conv_Cons del: upt_Suc)
  then show ?thesis
    by (simp add: first_match_def find_Suc del: upt_Suc split: option.split)
qed

lemma strstr_from_first:
  "cstr m h hs \<Longrightarrow> cstr m n ns \<Longrightarrow> ns \<noteq> [] \<Longrightarrow> strstr_from m n h = Some (first_match h hs ns)"
proof (induction hs arbitrary: h)
  case Nil
  then show ?case
    by (subst strstr_from.simps) (simp add: cstr_Nil first_match_Nil)
next
  case (Cons x hs)
  obtain h' n' where w: "while_pair (\<lambda>h n. m h \<noteq> 0 \<and> m n \<noteq> 0 \<and> m h = m n) h n = Some (h', n')"
    "m n' = 0 \<longleftrightarrow> prefix (map (\<lambda>x. x) ns) (map (\<lambda>x. x) (x # hs))"
    by (rule match_loop [OF Cons.prems(1,2), of "\<lambda>x. x"])
  note w = w(1) w(2) [unfolded list.map_ident]
  have "m n = hd ns"
    using Cons.prems(2,3) by (cases ns) (simp_all add: cstr_Cons)
  then have "m h = m n" if "prefix ns (x # hs)"
    using that Cons.prems by (cases ns) (simp_all add: cstr_Cons)
  moreover have "strstr_from m n (h + 1) = Some (first_match (h + 1) hs ns)"
    using Cons.prems by (intro Cons.IH) (simp_all add: cstr_Cons)
  moreover have "strstr_from m n h =
      (if m h = m n \<and> m n' = 0 then Some h else strstr_from m n (h + 1))"
    using Cons.prems(1) by (subst strstr_from.simps) (simp add: cstr_Cons w(1))
  ultimately show ?case
    unfolding w(2) by (auto simp: first_match_Cons)
qed

lemma strcasestr_from_first:
  defines "f \<equiv> \<lambda>b. tolower (uint b)"
  shows "cstr m h hs \<Longrightarrow> cstr m n ns \<Longrightarrow> ns \<noteq> [] \<Longrightarrow>
    strcasestr_from m n h = Some (first_match h (map f hs) (map f ns))"
proof (induction hs arbitrary: h)
  case Nil
  then show ?case
    by (subst strcasestr_from.simps) (simp add: cstr_Nil first_match_Nil)
next
  case (Cons x hs)
  obtain h' n' where w: "while_pair (\<lambda>h n. m h \<noteq> 0 \<and> m n \<noteq> 0 \<and> tolower (uint (m h)) = tolower (uint (m n))) h n = Some (h', n')"
    "m n' = 0 \<longleftrightarrow> prefix (map f ns) (map f (x # hs))"
    by (rule match_loop [OF Cons.prems(1,2), of f, unfolded f_def, folded f_def])
  have "m n = hd ns"
    using Cons.prems(2,3) by (cases ns) (simp_all add: cstr_Cons)
  then have "tolower (uint (m h)) = tolower (uint (m n))" if "prefix (map f ns) (map f (x # hs))"
    using that Cons.prems by (cases ns) (simp_all add: cstr_Cons f_def)
  moreover have "strcasestr_from m n (h + 1) = Some (first_match (h + 1) (map f hs) (map f ns))"
    using Cons.prems by (intro Cons.IH) (simp_all add: cstr_Cons)
  moreover have "strcasestr_from m n h =
      (if tolower (uint (m h)) = tolower (uint (m n)) \<and> m n' = 0 then Some h else strcasestr_from m n (h + 1))"
    using Cons.prems(1) by (subst strcasestr_from.simps) (simp add: cstr_Cons w(1))
  ultimately show ?case
    unfolding w(2) by (auto simp: first_match_Cons)
qed

lemma strchr_member:
  assumes "cstr m a ds" and "x \<noteq> 0"
  obtains r where "strchr_libc m a (sint (x :: u8)) = Some r" and "r \<noteq> 0 \<longleftrightarrow> x \<in> set ds"
proof -
  have "length (takeWhile (\<lambda>y. y \<noteq> x) (ds @ [0])) \<le> length ds \<longleftrightarrow> x \<in> set ds"
  proof (cases "x \<in> set ds")
    case True
    then show ?thesis
      using takeWhile_append1 [of x ds "\<lambda>y. y \<noteq> x" "[0]"] length_takeWhile_le [of "\<lambda>y. y \<noteq> x" ds] by simp
  next
    case False
    then have "takeWhile (\<lambda>y. y \<noteq> x) (ds @ [0]) = ds @ takeWhile (\<lambda>y. y \<noteq> x) [0]"
      by (intro takeWhile_append2) auto
    with False assms(2) show ?thesis
      by simp
  qed
  then show thesis
    using that strchr_cstr [OF assms(1), of "sint x"] cstrD(1) [OF assms(1)] by (simp add: libc_kernel Let_def)
qed

lemma strpbrk_first:
  assumes "cstr m s xs" and "cstr m a ds"
  shows "strpbrk m s a =
    (let i = length (takeWhile (\<lambda>x. x \<notin> set ds) xs) in Some (if i < length xs then s + i else 0))"
  using assms(1)
proof (induction xs arbitrary: s)
  case Nil
  then show ?case
    by (subst strpbrk.simps) (simp add: cstr_Nil)
next
  case (Cons x xs)
  then have x: "x \<noteq> 0" "m s = x" "cstr m (s + 1) xs"
    by (simp_all add: cstr_Cons)
  obtain r where "strchr_libc m a (sint x) = Some r" "r \<noteq> 0 \<longleftrightarrow> x \<in> set ds"
    using strchr_member [OF assms(2) x(1)] .
  then show ?case
    using x Cons.IH by (subst strpbrk.simps) (auto simp: Let_def)
qed

lemma span_from_length:
  assumes "cstr m s xs" and "cstr m a ds"
  shows "span_from m a c s = Some (c + length (takeWhile (\<lambda>x. x \<in> set ds) xs))"
  using assms(1)
proof (induction xs arbitrary: s c)
  case Nil
  then show ?case
    by (subst span_from.simps) (simp add: cstr_Nil)
next
  case (Cons x xs)
  then have x: "x \<noteq> 0" "m s = x" "cstr m (s + 1) xs"
    by (simp_all add: cstr_Cons)
  obtain r where "strchr_libc m a (sint x) = Some r" "r \<noteq> 0 \<longleftrightarrow> x \<in> set ds"
    using strchr_member [OF assms(2) x(1)] .
  then show ?case
    using x Cons.IH by (subst span_from.simps) auto
qed

text \<open>Cutting a string at a position ends it there; what lies beyond is a string of its own.\<close>

lemma cstr_cut:
  assumes "cstr m s xs" and "i < length xs"
  shows "cstr (m(s + i := 0)) s (take i xs)" and "cstr (m(s + i := 0)) (s + i + 1) (drop (i + 1) xs)"
proof -
  show "cstr (m(s + i := 0)) s (take i xs)"
    using assms cstrD(2) [OF assms(1)] by (intro cstrI) (auto simp: cstr_def dest: in_set_takeD)
  have c: "cstr m (s + (i + 1)) (drop (i + 1) xs)"
    using assms by (intro cstr_drop) simp_all
  show "cstr (m(s + i := 0)) (s + i + 1) (drop (i + 1) xs)"
  proof (rule cstrI)
    show "(m(s + i := 0)) (s + i + 1 + j) = drop (i + 1) xs ! j" if "j < length (drop (i + 1) xs)" for j
      using cstrD(2) [OF c that] by (simp add: add.assoc)
    show "(m(s + i := 0)) (s + i + 1 + length (drop (i + 1) xs)) = 0"
      using cstrD(4) [OF c] by (simp add: add.assoc)
  qed (use assms in \<open>auto simp: cstr_def dest: in_set_dropD\<close>)
qed

lemma cstr_append:
  assumes "p \<noteq> 0" and "0 \<notin> set ds" and "\<And>i. i < length ds \<Longrightarrow> m (p + i) = ds ! i" and "cstr m (p + length ds) xs"
  shows "cstr m p (ds @ xs)"
proof (rule cstrI)
  show "m (p + i) = (ds @ xs) ! i" if "i < length (ds @ xs)" for i
    using that assms(3) [of i] cstrD(2) [OF assms(4), of "i - length ds"] by (auto simp: nth_append)
  show "m (p + length (ds @ xs)) = 0"
    using cstrD(4) [OF assms(4)] by (simp add: add.assoc)
qed (use assms in \<open>auto simp: cstr_def\<close>)

lemma cstr_copied_prefix:
  assumes "cstr m s xs" and "k \<le> length xs" and "d \<noteq> 0" and "d + k \<le> s \<or> s + length xs < d"
  shows "cstr ((copied d s k m)(d + k := 0)) d (take k xs)"
  using assms cstrD(2) [OF assms(1)]
  by (intro cstrI) (auto simp: cstr_def copied_def dest: in_set_takeD)

text \<open>The length of a string up to and including its last \<open>c\<close>, 0 when there is none.\<close>

definition upto_last :: "u8 \<Rightarrow> u8 list \<Rightarrow> nat" where
  "upto_last c xs = length xs - length (takeWhile (\<lambda>x. x \<noteq> c) (rev xs))"

lemma upto_last_Cons:
  "upto_last c (x # xs) = (if c \<in> set xs then Suc (upto_last c xs) else if x = c then 1 else 0)"
proof (cases "c \<in> set xs")
  case True
  then have "takeWhile (\<lambda>x. x \<noteq> c) (rev xs @ [x]) = takeWhile (\<lambda>x. x \<noteq> c) (rev xs)"
    by (intro takeWhile_append1 [of c]) simp_all
  moreover have "length (takeWhile (\<lambda>x. x \<noteq> c) (rev xs)) \<le> length xs"
    using length_takeWhile_le [of "\<lambda>x. x \<noteq> c" "rev xs"] by simp
  ultimately show ?thesis
    using True by (simp add: upto_last_def Suc_diff_le)
next
  case False
  then have "takeWhile (\<lambda>x. x \<noteq> c) (rev xs @ [x]) = rev xs @ takeWhile (\<lambda>x. x \<noteq> c) [x]"
    by (intro takeWhile_append2) auto
  with False show ?thesis
    by (auto simp: upto_last_def)
qed

lemma upto_last_pos: "0 < upto_last c xs \<longleftrightarrow> c \<in> set xs"
  by (induction xs) (auto simp: upto_last_Cons, simp add: upto_last_def)

lemma upto_last_drop: "drop (upto_last c xs) xs = rev (takeWhile (\<lambda>x. x \<noteq> c) (rev xs))"
proof -
  let ?t = "takeWhile (\<lambda>x. x \<noteq> c) (rev xs)"
  have "rev xs = ?t @ dropWhile (\<lambda>x. x \<noteq> c) (rev xs)"
    by simp
  then have "xs = rev (dropWhile (\<lambda>x. x \<noteq> c) (rev xs)) @ rev ?t"
    by (metis rev_append rev_rev_ident)
  then show ?thesis
    by (metis append_eq_conv_conj add_diff_cancel_right' length_append length_rev upto_last_def)
qed

lemma last_char_result:
  "cstr m s xs \<Longrightarrow> last_char m c l s = Some (if c \<in> set xs then s + (upto_last c xs - 1) else l, s + length xs)"
proof (induction xs arbitrary: s l)
  case Nil
  then show ?case
    by (subst last_char.simps) (simp add: cstr_Nil)
next
  case (Cons x xs)
  then have "m s = x" "x \<noteq> 0" "cstr m (s + 1) xs"
    by (simp_all add: cstr_Cons)
  then show ?case
    using Cons.IH [of "s + 1"] upto_last_pos [of c xs]
    by (subst last_char.simps) (auto simp: upto_last_Cons)
qed

lemma strrchr_result:
  assumes "cstr m s xs" and "(word_of_int c :: u8) \<noteq> 0"
  shows "strrchr_libc m s c = Some (if word_of_int c \<in> set xs then s + (upto_last (word_of_int c) xs - 1) else 0)"
  using last_char_result [OF assms(1), of "word_of_int c" 0] cstrD(1,4) [OF assms(1)] assms(2)
  by (auto simp: strrchr_libc_def)

text \<open>What \<open>trim_slashes\<close> leaves: the string without its trailing slashes, one character at least.\<close>

function strip_slashes :: "u8 list \<Rightarrow> u8 list" where
  "strip_slashes xs = (if 1 < length xs \<and> last xs = 47 then strip_slashes (butlast xs) else xs)"
  by auto
termination
  by (relation "measure length") auto

declare strip_slashes.simps [simp del]

lemma trim_slashes_result:
  "cstr m p xs \<Longrightarrow> cstr (trim_slashes p (length xs) m) p (strip_slashes xs)"
proof (induction xs arbitrary: m rule: strip_slashes.induct)
  case (1 xs)
  show ?case
  proof (cases "1 < length xs \<and> last xs = 47")
    case True
    let ?i = "length xs - 1"
    have "m (p + ?i) = 47"
      using True cstrD(2) [OF 1(2), of ?i] last_conv_nth [of xs] by (cases xs) auto
    moreover have "?i < length xs"
      using True by linarith
    then have "cstr (m(p + ?i := 0)) p (butlast xs)"
      using cstr_cut(1) [OF 1(2)] by (simp only: butlast_conv_take)
    ultimately show ?thesis
      using 1(1) [OF True] True by (subst trim_slashes.simps, subst strip_slashes.simps) simp
  next
    case False
    then have "\<not> (1 < length xs \<and> m (p + (length xs - 1)) = 47)"
      using cstrD(2) [OF 1(2), of "length xs - 1"] by (cases xs) (auto simp: last_conv_nth)
    then have "trim_slashes p (length xs) m = m"
      by (subst trim_slashes.simps) (simp only: if_False)
    then show ?thesis
      using 1(2) by (simp only: strip_slashes.simps [of xs] False if_False)
  qed
qed

text \<open>The string \<open>xs\<close> at \<open>p\<close> has been split at its first delimiter: \<open>next\<close> is null when there was none.\<close>

definition split_at :: "mem \<Rightarrow> u8 set \<Rightarrow> nat \<Rightarrow> u8 list \<Rightarrow> nat \<Rightarrow> bool" where
  "split_at m D p xs next \<longleftrightarrow>
     (let tok = takeWhile (\<lambda>x. x \<notin> D) xs in cstr m p tok \<and>
        (if tok = xs then next = 0
         else next \<noteq> 0 \<and> xs ! length tok \<in> D \<and> cstr m next (drop (length tok + 1) xs)))"

lemma split_first:
  assumes "cstr m s xs" and "cstr m delim ds"
  obtains p where "strpbrk m s delim = Some p"
    and "if p = 0 then split_at m (set ds) s xs 0 else split_at (m(p := 0)) (set ds) s xs (p + 1)"
proof -
  let ?t = "takeWhile (\<lambda>x. x \<notin> set ds) xs"
  show thesis
  proof (cases "length ?t < length xs")
    case True
    have "xs ! length ?t \<in> set ds"
      using nth_length_takeWhile [OF True] by simp
    moreover have "?t = take (length ?t) xs"
      by (rule takeWhile_eq_take)
    moreover have "?t \<noteq> xs"
      using True by (metis order_less_irrefl)
    ultimately have "split_at (m(s + length ?t := 0)) (set ds) s xs (s + length ?t + 1)"
      using cstr_cut [OF assms(1) True] by (simp add: split_at_def Let_def)
    then show ?thesis
      using that [of "s + length ?t"] strpbrk_first [OF assms] True cstrD(1) [OF assms(1)] by (simp add: Let_def)
  next
    case False
    then have e: "?t = xs"
      by (metis length_takeWhile_le nat_less_le takeWhile_eq_take take_all order_refl)
    have "strpbrk m s delim = Some 0"
      by (simp only: strpbrk_first [OF assms] e Let_def less_irrefl if_False)
    moreover have "split_at m (set ds) s xs 0"
      by (simp only: split_at_def Let_def e if_True) (simp add: assms(1))
    ultimately show ?thesis
      using that [of 0] by simp
  qed
qed

section \<open>Properties\<close>

text \<open>
  C39: the kernel's and the library's \<open>strstr\<close>, one written with \<open>strncmp\<close> and one with an inner
  loop, are the same function on strings: both return the first place where the needle occurs, or
  null; \<open>strcasestr\<close> does this up to case.
\<close>

theorem strstr_equivalent:
  assumes "cstr m haystack hs" and "cstr m needle ns"
  shows "strstr_libc m haystack needle = strstr m haystack needle \<and>
    strstr m haystack needle = Some (first_match haystack hs ns) \<and>
    strcasestr m haystack needle =
      Some (first_match haystack (map (\<lambda>b. tolower (uint b)) hs) (map (\<lambda>b. tolower (uint b)) ns))"
proof (cases "ns = []")
  case True
  then have "m needle = 0"
    using assms(2) by (simp add: cstr_Nil)
  moreover have "first_match haystack ys [] = haystack" for ys :: "'a list"
    by (simp add: first_match_def upt_conv_Cons del: upt_Suc)
  ultimately show ?thesis
    using True strstr_first [OF assms]
    by (simp add: strstr_libc_def strcasestr_def first_match_def upt_conv_Cons del: upt_Suc)
next
  case False
  then have "m needle \<noteq> 0"
    using assms(2) by (cases ns) (simp_all add: cstr_Cons)
  then show ?thesis
    using strstr_first [OF assms] strstr_from_first [OF assms False] strcasestr_from_first [OF assms False]
    by (simp add: strstr_libc_def strcasestr_def)
qed

theorem strstr_equivalent_witness:
  "strstr_libc (\<lambda>a. if a = 16 \<or> a = 18 then 65 else if a = 17 \<or> a = 32 then 66 else 0) 16 32 = Some 17"
proof -
  let ?m = "\<lambda>a. if a = 16 \<or> a = 18 then 65 else if a = 17 \<or> a = 32 then 66 else 0 :: u8"
  have "cstr ?m 16 [65, 66, 65]" "cstr ?m 32 [66]"
    by (simp_all add: cstr_Cons cstr_Nil)
  from strstr_equivalent [OF this] show ?thesis
    by (simp add: first_match_Cons)
qed

text \<open>
  C40: \<open>strlcpy\<close> and \<open>strlcat\<close> never write outside the \<open>sz\<close> bytes of the target, leave a terminated
  string there, the longest prefix that fits, and return the length that would have been needed.
\<close>

theorem strlcpy_bounds:
  assumes "cstr m src xs" and "cstr m dst ds" and "0 < sz" and "dst + sz \<le> src \<or> src + length xs < dst"
  shows "(\<exists>m'. strlcpy dst src sz m = Some (length xs, m') \<and> cstr m' dst (take (sz - 1) xs) \<and>
      (\<forall>a. a \<notin> {dst..<dst + sz} \<longrightarrow> m' a = m a)) \<and>
    (\<exists>m'. strlcat dst src sz m = Some (min (length ds) sz + length xs, m') \<and>
      cstr m' dst (if length ds < sz then take (sz - 1) (ds @ xs) else ds) \<and>
      (\<forall>a. a \<notin> {dst..<dst + sz} \<longrightarrow> m' a = m a))"
proof
  have d: "dst \<noteq> 0" and s: "src \<noteq> 0"
    using cstrD(1) [OF assms(2)] cstrD(1) [OF assms(1)] by simp_all
  have len: "strlen_libc m src = Some (length xs)" "strlen_libc m dst = Some (length ds)"
    using strlen_cstr assms(1,2) by (simp_all add: libc_kernel)
  let ?k = "if length xs \<ge> sz then sz - 1 else length xs"
  let ?m = "(copied dst src ?k m)(dst + ?k := 0)"
  have "memcpy_libc dst src ?k m = copied dst src ?k m"
    unfolding libc_kernel using assms(3,4) d s by (intro memcpy_copied) auto
  then have "strlcpy dst src sz m = Some (length xs, ?m)"
    using assms(3) by (simp add: strlcpy_def len Let_def)
  moreover have "cstr ?m dst (take ?k xs)"
    using assms(3,4) d by (intro cstr_copied_prefix [OF assms(1)]) auto
  moreover have "take ?k xs = take (sz - 1) xs"
    by auto
  moreover have "?m a = m a" if "a \<notin> {dst..<dst + sz}" for a
    using that assms(3) by (auto simp: copied_def)
  ultimately show "\<exists>m'. strlcpy dst src sz m = Some (length xs, m') \<and> cstr m' dst (take (sz - 1) xs) \<and>
      (\<forall>a. a \<notin> {dst..<dst + sz} \<longrightarrow> m' a = m a)"
    by metis
  show "\<exists>m'. strlcat dst src sz m = Some (min (length ds) sz + length xs, m') \<and>
      cstr m' dst (if length ds < sz then take (sz - 1) (ds @ xs) else ds) \<and>
      (\<forall>a. a \<notin> {dst..<dst + sz} \<longrightarrow> m' a = m a)"
  proof (cases "length ds < sz")
    case True
    let ?d = "dst + length ds"
    define c where "c = (if length xs > sz - length ds - 1 then sz - length ds - 1 else length xs)"
    have c: "c \<le> length xs" "length ds + c < sz" "take (sz - 1) (ds @ xs) = ds @ take c xs"
      using True by (auto simp: c_def)
    let ?n = "(copied ?d src c m)(?d + c := 0)"
    have "strlcat dst src sz m = Some (min (length ds) sz + length xs, (memcpy_libc ?d src c m)(?d + c := 0))"
      using True by (simp add: strlcat_def len Let_def c_def)
    also have "memcpy_libc ?d src c m = copied ?d src c m"
      unfolding libc_kernel using assms(4) c d s by (intro memcpy_copied) auto
    finally have e: "strlcat dst src sz m = Some (min (length ds) sz + length xs, ?n)" .
    have "cstr ?n ?d (take c xs)"
      using assms(4) c d by (intro cstr_copied_prefix [OF assms(1)]) auto
    then have "cstr ?n dst (ds @ take c xs)"
      using d assms(2) cstrD(2) [OF assms(2)] by (intro cstr_append) (auto simp: copied_def cstr_def)
    moreover have "?n a = m a" if "a \<notin> {dst..<dst + sz}" for a
      using that c(2) by (auto simp: copied_def)
    ultimately show ?thesis
      using True e c(3) by auto
  next
    case False
    then show ?thesis
      using assms(2) by (simp add: strlcat_def len)
  qed
qed

theorem strlcpy_bounds_witness:
  "\<exists>m'. strlcpy 32 16 3 (\<lambda>a. if 16 \<le> a \<and> a < 20 then 65 else 0) = Some (4, m') \<and> cstr m' 32 [65, 65]"
proof -
  let ?m = "\<lambda>a. if 16 \<le> a \<and> a < 20 then 65 else 0 :: u8"
  have "cstr ?m 16 [65, 65, 65, 65]" "cstr ?m 32 []"
    by (simp_all add: cstr_Cons cstr_Nil)
  from strlcpy_bounds [OF this, of 3] show ?thesis
    by (auto simp: numeral_2_eq_2)
qed

text \<open>
  \<open>strsep\<close> splits at the first delimiter: it returns the start of the string, which now ends
  there, and leaves the place after it; on the last field it leaves null. \<open>strtok_r\<close> does the same
  after skipping the delimiters in front.
\<close>

theorem strsep_splits:
  assumes "cstr m start xs" and "cstr m delim ds"
  shows "\<exists>next m'. strsep (Some start) delim m = Some (start, Some next, m') \<and>
      split_at m' (set ds) start xs next \<and>
    (let ys = dropWhile (\<lambda>x. x \<in> set ds) xs; token = start + length (takeWhile (\<lambda>x. x \<in> set ds) xs) in
     \<exists>next m'. strtok_r start delim (Some save) m = Some (if ys = [] then 0 else token, Some next, m') \<and>
      split_at m' (set ds) token ys next)"
proof -
  let ?k = "length (takeWhile (\<lambda>x. x \<in> set ds) xs)" and ?ys = "dropWhile (\<lambda>x. x \<in> set ds) xs"
  let ?token = "start + ?k"
  have z: "start \<noteq> 0" "?token \<noteq> 0"
    using cstrD(1) [OF assms(1)] by simp_all
  have y: "cstr m ?token ?ys"
    using cstr_drop [OF assms(1), of ?k] by (simp add: dropWhile_eq_drop length_takeWhile_le)
  have e: "m ?token = 0 \<longleftrightarrow> ?ys = []"
    using y by (cases ?ys) (auto simp: cstr_Nil cstr_Cons)
  have k: "strspn m start delim = Some ?k"
    using span_from_length [OF assms, of 0] by (simp add: strspn_def)
  obtain p where p: "strpbrk m start delim = Some p"
      "if p = 0 then split_at m (set ds) start xs 0 else split_at (m(p := 0)) (set ds) start xs (p + 1)"
    by (rule split_first [OF assms])
  obtain t where t: "strpbrk m ?token delim = Some t"
      "if t = 0 then split_at m (set ds) ?token ?ys 0 else split_at (m(t := 0)) (set ds) ?token ?ys (t + 1)"
    by (rule split_first [OF y assms(2)])
  have "\<exists>next m'. strsep (Some start) delim m = Some (start, Some next, m') \<and> split_at m' (set ds) start xs next"
    using p z by (cases "p = 0") (auto simp: strsep_def)
  moreover have "split_at m (set ds) ?token ?ys 0" if "?ys = []"
    using y unfolding that by (simp add: split_at_def)
  then have "\<exists>next m'. strtok_r start delim (Some save) m = Some (if ?ys = [] then 0 else ?token, Some next, m') \<and>
      split_at m' (set ds) ?token ?ys next"
    using t z e by (cases "?ys = []"; cases "t = 0") (auto simp: strtok_r_def Let_def k simp del: dropWhile_eq_Nil_conv)
  ultimately show ?thesis
    by (auto simp: Let_def)
qed

theorem strsep_splits_witness:
  "\<exists>next m'. strsep (Some 16) 32 (\<lambda>a. if a = 16 \<or> a = 18 then 65 else if a = 17 \<or> a = 32 then 58 else 0) =
     Some (16, Some next, m') \<and> cstr m' 16 [65] \<and> cstr m' next [65]"
proof -
  let ?m = "\<lambda>a. if a = 16 \<or> a = 18 then 65 else if a = 17 \<or> a = 32 then 58 else 0 :: u8"
  have "cstr ?m 16 [65, 58, 65]" "cstr ?m 32 [58]"
    by (simp_all add: cstr_Cons cstr_Nil)
  from strsep_splits [OF this, of 0] show ?thesis
    by (auto simp: split_at_def Let_def)
qed

text \<open>
  \<open>basename\<close> drops the trailing slashes, one character at least being kept, and returns the
  part behind the last slash that is left. For the path \<open>/\<close> that is the empty string, where POSIX
  asks for \<open>/\<close>.
\<close>

theorem basename_last:
  assumes "cstr m path xs" and "xs \<noteq> []"
  shows "\<exists>p m'. basename path m = Some (At p, m') \<and>
      cstr m' p (rev (takeWhile (\<lambda>x. x \<noteq> 47) (rev (strip_slashes xs)))) \<and> (xs = [47] \<longrightarrow> cstr m' p [])"
proof -
  let ?ys = "strip_slashes xs"
  let ?m = "trim_slashes path (length xs) m"
  have t: "cstr ?m path ?ys"
    by (rule trim_slashes_result [OF assms(1)])
  have z: "path \<noteq> 0" "m path \<noteq> 0"
    using assms by (cases xs; simp add: cstr_Cons)+
  have "basename path m = Some (At (path + upto_last 47 ?ys), ?m)"
    using z t strlen_cstr [OF assms(1)] strrchr_result [OF t, of 47] upto_last_pos [of 47 ?ys]
    by (auto simp: basename_def libc_kernel)
  moreover have "cstr ?m (path + upto_last 47 ?ys) (drop (upto_last 47 ?ys) ?ys)"
    by (intro cstr_drop [OF t]) (simp add: upto_last_def)
  moreover have "strip_slashes [47] = [47]"
    by (simp add: strip_slashes.simps)
  ultimately show ?thesis
    by (auto simp: upto_last_drop)
qed

theorem basename_last_witness:
  "\<exists>p m'. basename 16 (\<lambda>a. if a = 16 then 47 else 0) = Some (At p, m') \<and> cstr m' p []"
proof -
  have "cstr (\<lambda>a. if a = 16 then 47 else 0) 16 [47]"
    by (simp add: cstr_Cons cstr_Nil)
  from basename_last [OF this] show ?thesis
    by auto
qed

end
