(* ===== verification/Vmm.thy ===== *)
theory Vmm
  imports Heap "HOL-Library.Sublist"
begin

text \<open>
  Virtual memory, \<^verbatim>\<open>kernel/src/mm/vmm.c\<close>: four-level page tables on the page allocator and
  the heap. Page frames are addressed by their physical address and hold 512 entries each
  (\<open>pmem\<close>), tables and data alike; \<open>PHYS_TO_VIRT\<close> is the identity on these addresses, and a null
  table pointer is \<open>None\<close>. \<open>maps\<close> holds the pagemap structures by their address and
  \<open>g_kernel_pagemap\<close> is the address of the kernel's. Every section under \<open>g_vmm_lock\<close> is one
  function; \<open>invlpg\<close> and the control registers are left out.

  The lemmas relate the tables to the abstract address space \<open>leaf\<close>, the entry a virtual page ends
  in. The invariant \<open>as_inv\<close> is about a set of address spaces at once: their user halves are trees
  of allocated frames that share no table, so what is done in one leaves the others alone.
\<close>

section \<open>State\<close>

record pagemap_t =
  pml4_virt :: "nat option"
  pml4_phys :: nat

record vmm =
  pmem :: "nat \<Rightarrow> nat \<Rightarrow> u64"
  maps :: "nat \<Rightarrow> pagemap_t"
  g_kernel_pagemap :: nat
  vheap :: heap

definition VMM_FLAG_PRESENT :: u64 where "VMM_FLAG_PRESENT = 1"
definition VMM_FLAG_WRITABLE :: u64 where "VMM_FLAG_WRITABLE = 2"
definition VMM_FLAG_USER :: u64 where "VMM_FLAG_USER = 4"
definition VMM_FLAG_WRITE_THROUGH :: u64 where "VMM_FLAG_WRITE_THROUGH = 8"
definition VMM_FLAG_CACHE_DISABLE :: u64 where "VMM_FLAG_CACHE_DISABLE = 0x10"
definition VMM_FLAG_BORROWED :: u64 where "VMM_FLAG_BORROWED = 0x200"
definition VMM_USER_END :: nat where "VMM_USER_END = 0x800000000000"
definition PHYS_ADDR_MASK :: u64 where "PHYS_ADDR_MASK = 0x000FFFFFFFFFF000"

abbreviation vpmm :: "vmm \<Rightarrow> pmm" where
  "vpmm s \<equiv> hpmm (vheap s)"

definition set_vpmm :: "pmm \<Rightarrow> vmm \<Rightarrow> vmm" where
  "set_vpmm p s = s\<lparr>vheap := (vheap s)\<lparr>hpmm := p\<rparr>\<rparr>"

definition palloc :: "vmm \<Rightarrow> nat \<times> vmm" where
  "palloc s = (case pmm_alloc_page (vpmm s) of (a, p) \<Rightarrow> (a, set_vpmm p s))"

definition pfree :: "nat \<Rightarrow> vmm \<Rightarrow> vmm" where
  "pfree a s = set_vpmm (pmm_free_page a (vpmm s)) s"

definition set_page :: "nat \<Rightarrow> (nat \<Rightarrow> u64) \<Rightarrow> vmm \<Rightarrow> vmm" where
  "set_page t p s = s\<lparr>pmem := (pmem s)(t := p)\<rparr>"

definition set_entry :: "nat \<Rightarrow> nat \<Rightarrow> u64 \<Rightarrow> vmm \<Rightarrow> vmm" where
  "set_entry t i e s = set_page t ((pmem s t)(i := e)) s"

definition has :: "u64 \<Rightarrow> u64 \<Rightarrow> bool" where
  "has e f \<longleftrightarrow> e AND f \<noteq> 0"

definition huge :: "u64 \<Rightarrow> bool" where
  "huge e \<longleftrightarrow> e AND 0x80 \<noteq> 0"

definition frame_of :: "u64 \<Rightarrow> nat" where
  "frame_of e = unat (e AND PHYS_ADDR_MASK)"

definition pml4_index :: "nat \<Rightarrow> nat" where "pml4_index v = v div 2 ^ 39 mod 512"
definition pdpt_index :: "nat \<Rightarrow> nat" where "pdpt_index v = v div 2 ^ 30 mod 512"
definition pd_index :: "nat \<Rightarrow> nat" where "pd_index v = v div 2 ^ 21 mod 512"
definition pt_index :: "nat \<Rightarrow> nat" where "pt_index v = v div 2 ^ 12 mod 512"

section \<open>Mapping\<close>

definition split_huge :: "nat \<Rightarrow> u64 \<Rightarrow> nat \<Rightarrow> u64" where
  "split_huge level entry p =
     (if level = 2 then ((entry AND 0x000FFFFFFC000000) + of_nat p * 0x200000) OR (entry AND 0xFFF)
      else ((entry AND 0x000FFFFFFFF00000) + of_nat p * of_nat PAGE_SIZE) OR (entry AND 0xFFF AND NOT 0x80))"

definition get_next_level :: "nat \<Rightarrow> nat \<Rightarrow> nat \<Rightarrow> bool \<Rightarrow> u64 \<Rightarrow> vmm \<Rightarrow> nat option \<times> vmm" where
  "get_next_level current index level allocate flags s =
     (let entry = pmem s current index in
      if has entry VMM_FLAG_PRESENT then
        if huge entry then
          if \<not> allocate then (None, s)
          else (case palloc s of (new, s1) \<Rightarrow>
            if new = 0 then (None, s1)
            else (Some new,
              set_entry current index
                (of_nat new OR VMM_FLAG_PRESENT OR VMM_FLAG_WRITABLE OR (entry AND (VMM_FLAG_USER OR flags)))
                (set_page new (split_huge level entry) s1)))
        else (Some (frame_of entry), s)
      else if \<not> allocate then (None, s)
      else (case palloc s of (new, s1) \<Rightarrow>
        if new = 0 then (None, s1)
        else (Some new,
          set_entry current index (of_nat new OR flags OR VMM_FLAG_PRESENT OR VMM_FLAG_WRITABLE)
            (set_page new (\<lambda>_. 0) s1))))"

definition vmm_user_range :: "nat \<Rightarrow> nat \<Rightarrow> bool" where
  "vmm_user_range addr sz \<longleftrightarrow> addr \<ge> PAGE_SIZE \<and> addr < VMM_USER_END \<and> sz \<le> VMM_USER_END - addr"

text \<open>The three calls of \<open>get_next_level\<close> that lead to the last table, creating and not creating.\<close>

definition create_pt :: "nat \<Rightarrow> nat \<Rightarrow> u64 \<Rightarrow> vmm \<Rightarrow> nat option \<times> vmm" where
  "create_pt pml4 virt fl s =
     (case get_next_level pml4 (pml4_index virt) 3 True fl s of
        (None, s1) \<Rightarrow> (None, s1)
      | (Some pdpt, s1) \<Rightarrow>
          (case get_next_level pdpt (pdpt_index virt) 2 True fl s1 of
             (None, s2) \<Rightarrow> (None, s2)
           | (Some pd, s2) \<Rightarrow> get_next_level pd (pd_index virt) 1 True fl s2))"

definition find_pt :: "nat \<Rightarrow> nat \<Rightarrow> vmm \<Rightarrow> nat option" where
  "find_pt pml4 virt s =
     (case fst (get_next_level pml4 (pml4_index virt) 3 False 0 s) of
        None \<Rightarrow> None
      | Some pdpt \<Rightarrow>
          (case fst (get_next_level pdpt (pdpt_index virt) 2 False 0 s) of
             None \<Rightarrow> None
           | Some pd \<Rightarrow> fst (get_next_level pd (pd_index virt) 1 False 0 s)))"

definition vmm_map_page :: "nat \<Rightarrow> nat \<Rightarrow> nat \<Rightarrow> u64 \<Rightarrow> vmm \<Rightarrow> bool \<times> vmm" where
  "vmm_map_page mp virt phys flags s =
     (case pml4_virt (maps s mp) of
        None \<Rightarrow> (False, s)
      | Some pml4 \<Rightarrow>
          if mp = 0 \<or> mp \<noteq> g_kernel_pagemap s \<and> \<not> vmm_user_range virt PAGE_SIZE then (False, s)
          else let virt = ALIGN_DOWN virt PAGE_SIZE; phys = ALIGN_DOWN phys PAGE_SIZE in
            (case create_pt pml4 virt (flags AND VMM_FLAG_USER) s of
               (None, s1) \<Rightarrow> (False, s1)
             | (Some pt, s1) \<Rightarrow>
                 (True, set_entry pt (pt_index virt) (of_nat phys OR flags OR VMM_FLAG_PRESENT) s1)))"

definition vmm_unmap_page :: "nat \<Rightarrow> nat \<Rightarrow> vmm \<Rightarrow> bool \<times> vmm" where
  "vmm_unmap_page mp virt s =
     (case pml4_virt (maps s mp) of
        None \<Rightarrow> (False, s)
      | Some pml4 \<Rightarrow>
          if mp = 0 then (False, s)
          else let virt = ALIGN_DOWN virt PAGE_SIZE in
            (case find_pt pml4 virt s of
               None \<Rightarrow> (False, s)
             | Some pt \<Rightarrow> (True, set_entry pt (pt_index virt) 0 s)))"

section \<open>Translation\<close>

definition vmm_virt_to_phys :: "nat \<Rightarrow> nat \<Rightarrow> vmm \<Rightarrow> nat" where
  "vmm_virt_to_phys mp virt s =
     (case pml4_virt (maps s mp) of
        None \<Rightarrow> 0
      | Some pml4 \<Rightarrow>
          if mp = 0 then 0
          else let pml4e = pmem s pml4 (pml4_index virt) in
            if \<not> has pml4e VMM_FLAG_PRESENT then 0
            else let pdpte = pmem s (frame_of pml4e) (pdpt_index virt) in
              if \<not> has pdpte VMM_FLAG_PRESENT then 0
              else if huge pdpte then unat ((pdpte AND 0x000FFFFFFC000000) OR (of_nat virt AND 0x3FFFFFFF))
              else let pde = pmem s (frame_of pdpte) (pd_index virt) in
                if \<not> has pde VMM_FLAG_PRESENT then 0
                else if huge pde then unat ((pde AND 0x000FFFFFFFF00000) OR (of_nat virt AND 0x1FFFFF))
                else let pte = pmem s (frame_of pde) (pt_index virt) in
                  if \<not> has pte VMM_FLAG_PRESENT then 0
                  else unat ((pte AND PHYS_ADDR_MASK) OR (of_nat virt AND 0xFFF)))"

definition vmm_user_page_phys :: "nat \<Rightarrow> nat \<Rightarrow> bool \<Rightarrow> vmm \<Rightarrow> nat" where
  "vmm_user_page_phys mp virt write s =
     (case pml4_virt (maps s mp) of
        None \<Rightarrow> 0
      | Some pml4 \<Rightarrow>
          if mp = 0 \<or> virt \<ge> 0x800000000000 then 0
          else (case find_pt pml4 virt s of
             None \<Rightarrow> 0
           | Some pt \<Rightarrow>
               let entry = pmem s pt (pt_index virt) in
               if \<not> has entry VMM_FLAG_PRESENT \<or> \<not> has entry VMM_FLAG_USER then 0
               else if write \<and> \<not> has entry VMM_FLAG_WRITABLE then 0
               else unat ((entry AND PHYS_ADDR_MASK) OR (of_nat virt AND 0xFFF))))"

section \<open>Address spaces\<close>

definition vmm_alloc_user_page :: "nat \<Rightarrow> nat \<Rightarrow> u64 \<Rightarrow> vmm \<Rightarrow> bool \<times> vmm" where
  "vmm_alloc_user_page mp virt flags s =
     (if vmm_virt_to_phys mp virt s \<noteq> 0 then (True, s)
      else (case palloc s of (phys, s1) \<Rightarrow>
        if phys = 0 then (False, s1)
        else (case vmm_map_page mp virt phys (flags OR VMM_FLAG_USER OR VMM_FLAG_PRESENT OR VMM_FLAG_WRITABLE)
                (set_page phys (\<lambda>_. 0) s1) of
            (True, s2) \<Rightarrow> (True, s2)
          | (False, s2) \<Rightarrow> (False, pfree phys s2))))"

definition vmm_create_address_space :: "vmm \<Rightarrow> (nat \<times> vmm) run" where
  "vmm_create_address_space s =
     (case palloc s of (pml4, s1) \<Rightarrow>
        if pml4 = 0 then Ret (0, s1)
        else let kernel = (case pml4_virt (maps s1 (g_kernel_pagemap s1)) of Some k \<Rightarrow> pmem s1 k | None \<Rightarrow> (\<lambda>_. 0));
                 s2 = set_page pml4 (\<lambda>i. if 256 \<le> i \<and> i < 512 then kernel i else 0) s1
          in (case kmalloc 16 (vheap s2) of
                Hang \<Rightarrow> Hang
              | Panic msg \<Rightarrow> Panic msg
              | Ret (mp, h) \<Rightarrow>
                  let s3 = s2\<lparr>vheap := h\<rparr> in
                  if mp = 0 then Ret (0, pfree pml4 s3)
                  else Ret (mp, s3\<lparr>maps := (maps s3)(mp := \<lparr>pml4_virt = Some pml4, pml4_phys = pml4\<rparr>)\<rparr>)))"

definition free_pt :: "nat \<Rightarrow> vmm \<Rightarrow> vmm" where
  "free_pt pt s = pfree pt (fold (\<lambda>l s.
     let e = pmem s pt l in
     if has e VMM_FLAG_PRESENT \<and> \<not> has e VMM_FLAG_BORROWED then pfree (frame_of e) s else s) [0..<512] s)"

definition free_pd :: "nat \<Rightarrow> vmm \<Rightarrow> vmm" where
  "free_pd pd s = pfree pd (fold (\<lambda>k s.
     let e = pmem s pd k in if has e VMM_FLAG_PRESENT then free_pt (frame_of e) s else s) [0..<512] s)"

definition free_pdpt :: "nat \<Rightarrow> vmm \<Rightarrow> vmm" where
  "free_pdpt pdpt s = pfree pdpt (fold (\<lambda>j s.
     let e = pmem s pdpt j in if has e VMM_FLAG_PRESENT then free_pd (frame_of e) s else s) [0..<512] s)"

definition vmm_destroy_address_space :: "nat \<Rightarrow> vmm \<Rightarrow> vmm" where
  "vmm_destroy_address_space mp s =
     (case pml4_virt (maps s mp) of
        None \<Rightarrow> s
      | Some pml4 \<Rightarrow>
          if mp = 0 \<or> mp = g_kernel_pagemap s then s
          else let s1 = fold (\<lambda>i s.
                     let e = pmem s pml4 i in if has e VMM_FLAG_PRESENT then free_pdpt (frame_of e) s else s) [0..<256] s;
                   s2 = pfree (pml4_phys (maps s mp)) s1
               in s2\<lparr>vheap := kfree mp (vheap s2)\<rparr>)"

definition count_present :: "(nat \<Rightarrow> nat) \<Rightarrow> (nat \<Rightarrow> u64) \<Rightarrow> nat \<Rightarrow> nat" where
  "count_present f tbl n = sum_list (map (\<lambda>i. if has (tbl i) VMM_FLAG_PRESENT then f (frame_of (tbl i)) else 0) [0..<n])"

definition vmm_count_user_pages :: "nat \<Rightarrow> vmm \<Rightarrow> nat" where
  "vmm_count_user_pages mp s =
     (case pml4_virt (maps s mp) of
        None \<Rightarrow> 0
      | Some pml4 \<Rightarrow>
          if mp = 0 then 0
          else count_present (\<lambda>pdpt. count_present (\<lambda>pd. count_present (\<lambda>pt.
                 count_present (\<lambda>_. 1) (pmem s pt) 512) (pmem s pd) 512) (pmem s pdpt) 512) (pmem s pml4) 256)"

text \<open>A loop whose body can stop everything (the \<open>goto fail\<close> of the clone).\<close>

fun for_ok :: "('a \<Rightarrow> 's \<Rightarrow> bool \<times> 's) \<Rightarrow> 'a list \<Rightarrow> 's \<Rightarrow> bool \<times> 's" where
  "for_ok f [] s = (True, s)"
| "for_ok f (x # xs) s = (case f x s of (True, s1) \<Rightarrow> for_ok f xs s1 | (False, s1) \<Rightarrow> (False, s1))"

definition clone_page :: "nat \<Rightarrow> nat \<Rightarrow> nat \<Rightarrow> nat \<Rightarrow> nat \<Rightarrow> u64 \<Rightarrow> vmm \<Rightarrow> bool \<times> vmm" where
  "clone_page dst i j k l e s =
     (let virt = i * 2 ^ 39 + j * 2 ^ 30 + k * 2 ^ 21 + l * 2 ^ 12;
          flags = e AND NOT PHYS_ADDR_MASK AND NOT VMM_FLAG_BORROWED
      in (case palloc s of (dst_phys, s1) \<Rightarrow>
            if dst_phys = 0 then (False, s1)
            else (case vmm_map_page dst virt dst_phys flags (set_page dst_phys (pmem s1 (frame_of e)) s1) of
                (True, s2) \<Rightarrow> (True, s2)
              | (False, s2) \<Rightarrow> (False, pfree dst_phys s2))))"

definition clone_tables :: "nat \<Rightarrow> nat \<Rightarrow> vmm \<Rightarrow> bool \<times> vmm" where
  "clone_tables src_pml4 dst =
     for_ok (\<lambda>i s. let e = pmem s src_pml4 i in if \<not> has e VMM_FLAG_PRESENT then (True, s) else
       for_ok (\<lambda>j s. let e1 = pmem s (frame_of e) j in if \<not> has e1 VMM_FLAG_PRESENT \<or> huge e1 then (True, s) else
         for_ok (\<lambda>k s. let e2 = pmem s (frame_of e1) k in if \<not> has e2 VMM_FLAG_PRESENT \<or> huge e2 then (True, s) else
           for_ok (\<lambda>l s. let e3 = pmem s (frame_of e2) l in if \<not> has e3 VMM_FLAG_PRESENT then (True, s) else
             clone_page dst i j k l e3 s) [0..<512] s) [0..<512] s) [0..<512] s) [0..<256]"

definition vmm_clone_address_space :: "nat \<Rightarrow> vmm \<Rightarrow> (nat \<times> vmm) run" where
  "vmm_clone_address_space src s =
     (if src = 0 then Ret (0, s)
      else (case vmm_create_address_space s of
              Hang \<Rightarrow> Hang
            | Panic msg \<Rightarrow> Panic msg
            | Ret (dst, s1) \<Rightarrow>
                if dst = 0 then Ret (0, s1)
                else (case pml4_virt (maps s1 src) of
                        None \<Rightarrow> Ret (dst, s1)
                      | Some src_pml4 \<Rightarrow>
                          (case clone_tables src_pml4 dst s1 of
                             (True, s2) \<Rightarrow> Ret (dst, s2)
                           | (False, s2) \<Rightarrow> Ret (0, vmm_destroy_address_space dst s2)))))"

section \<open>User pages\<close>

text \<open>\<open>user_leaf\<close> returns the place of the leaf entry, a table and an index.\<close>

fun leaf_walk :: "nat list \<Rightarrow> nat \<Rightarrow> nat \<Rightarrow> vmm \<Rightarrow> nat option" where
  "leaf_walk [] table virt s = Some table"
| "leaf_walk (shift # shifts) table virt s =
     (let entry = pmem s table (virt div 2 ^ shift mod 512) in
      if \<not> has entry VMM_FLAG_PRESENT \<or> huge entry then None
      else leaf_walk shifts (frame_of entry) virt s)"

definition user_leaf :: "nat \<Rightarrow> nat \<Rightarrow> vmm \<Rightarrow> (nat \<times> nat) option" where
  "user_leaf pml4 virt s =
     (case leaf_walk [39, 30, 21] pml4 virt s of None \<Rightarrow> None | Some pt \<Rightarrow> Some (pt, pt_index virt))"

fun access_walk :: "nat list \<Rightarrow> u64 \<Rightarrow> nat \<Rightarrow> nat \<Rightarrow> vmm \<Rightarrow> bool" where
  "access_walk [] required table v s = True"
| "access_walk (shift # shifts) required table v s =
     (let entry = pmem s table (v div 2 ^ shift mod 512) in
      if entry AND required \<noteq> required \<or> shift > 12 \<and> huge entry then False
      else access_walk shifts required (if shift > 12 then frame_of entry else table) v s)"

definition vmm_user_access :: "nat \<Rightarrow> nat \<Rightarrow> nat \<Rightarrow> bool \<Rightarrow> vmm \<Rightarrow> bool" where
  "vmm_user_access mp addr sz write s =
     (if sz = 0 then True
      else (case pml4_virt (maps s mp) of
              None \<Rightarrow> False
            | Some pml4 \<Rightarrow>
                if mp = 0 \<or> \<not> vmm_user_range addr sz then False
                else let required = VMM_FLAG_PRESENT OR VMM_FLAG_USER OR (if write then VMM_FLAG_WRITABLE else 0);
                         start = ALIGN_DOWN addr PAGE_SIZE; end = addr + sz
                     in list_all (\<lambda>k. access_walk [39, 30, 21, 12] required pml4 (start + k * PAGE_SIZE) s)
                          [0..<(end - start + PAGE_SIZE - 1) div PAGE_SIZE]))"

definition table_empty :: "nat \<Rightarrow> vmm \<Rightarrow> bool" where
  "table_empty t s \<longleftrightarrow> list_all (\<lambda>i. pmem s t i = 0) [0..<512]"

text \<open>The reclaiming loop; its argument lists the levels 3, 2, 1 as table, parent and index.\<close>

fun reclaim :: "(nat \<times> nat \<times> nat) list \<Rightarrow> vmm \<Rightarrow> vmm" where
  "reclaim [] s = s"
| "reclaim ((t, parent, i) # ts) s =
     (if table_empty t s then reclaim ts (pfree (frame_of (pmem s parent i)) (set_entry parent i 0 s)) else s)"

definition vmm_release_user_page :: "nat \<Rightarrow> nat \<Rightarrow> vmm \<Rightarrow> bool \<times> vmm" where
  "vmm_release_user_page mp virt s =
     (case pml4_virt (maps s mp) of
        None \<Rightarrow> (False, s)
      | Some pml4 \<Rightarrow>
          if mp = 0 \<or> mp = g_kernel_pagemap s \<or> \<not> vmm_user_range virt PAGE_SIZE then (False, s)
          else (case user_leaf pml4 virt s of
                  None \<Rightarrow> (True, s)
                | Some (pt, l) \<Rightarrow>
                    let old = pmem s pt l in
                    if \<not> has old VMM_FLAG_PRESENT then (True, s)
                    else let s1 = set_entry pt l 0 s;
                             s2 = (if has old VMM_FLAG_BORROWED then s1 else pfree (frame_of old) s1);
                             t1 = frame_of (pmem s2 pml4 (pml4_index virt));
                             t2 = frame_of (pmem s2 t1 (pdpt_index virt));
                             t3 = frame_of (pmem s2 t2 (pd_index virt))
                         in (True, reclaim [(t3, t2, pd_index virt), (t2, t1, pdpt_index virt), (t1, pml4, pml4_index virt)] s2)))"

definition vmm_set_range_flags :: "nat \<Rightarrow> nat \<Rightarrow> nat \<Rightarrow> u64 \<Rightarrow> vmm \<Rightarrow> bool \<times> vmm" where
  "vmm_set_range_flags mp virt sz flags s =
     (case pml4_virt (maps s mp) of
        None \<Rightarrow> (False, s)
      | Some pml4 \<Rightarrow>
          if mp = 0 \<or> sz = 0 \<or> \<not> vmm_user_range virt sz then (False, s)
          else let start = ALIGN_DOWN virt PAGE_SIZE; end = ALIGN_UP (virt + sz) PAGE_SIZE;
                   pages = map (\<lambda>k. start + k * PAGE_SIZE) [0..<(end - start) div PAGE_SIZE];
                   preserve = PHYS_ADDR_MASK OR VMM_FLAG_BORROWED OR VMM_FLAG_WRITE_THROUGH OR VMM_FLAG_CACHE_DISABLE OR 0x80
            in if list_all (\<lambda>v. case user_leaf pml4 v s of
                      None \<Rightarrow> False | Some (pt, l) \<Rightarrow> has (pmem s pt l) VMM_FLAG_PRESENT) pages
               then (True, fold (\<lambda>v s. case user_leaf pml4 v s of
                      None \<Rightarrow> s
                    | Some (pt, l) \<Rightarrow> set_entry pt l ((pmem s pt l AND preserve) OR flags OR VMM_FLAG_PRESENT) s) pages s)
               else (False, s))"

text \<open>\<open>cr3\<close> is the value of the control register at boot.\<close>

definition vmm_init :: "nat \<Rightarrow> u64 \<Rightarrow> vmm \<Rightarrow> vmm" where
  "vmm_init hhdm_offset cr3 s =
     (let root = frame_of cr3
      in s\<lparr>vheap := (vheap s)\<lparr>g_hhdm_base := hhdm_offset\<rparr>,
           maps := (maps s)(g_kernel_pagemap s := \<lparr>pml4_virt = Some root, pml4_phys = root\<rparr>)\<rparr>)"

section \<open>Entries\<close>

text \<open>The flag tests read single bits, and the frame of an entry survives the flags or-ed into it.\<close>

lemma has_bit: "has e (push_bit k 1) \<longleftrightarrow> bit e k"
  by (simp add: has_def bit_iff_and_push_bit_not_eq_0)

lemma entry_flags:
  "has e VMM_FLAG_PRESENT \<longleftrightarrow> bit e 0" "has e VMM_FLAG_WRITABLE \<longleftrightarrow> bit e 1" "has e VMM_FLAG_USER \<longleftrightarrow> bit e 2"
  "has e VMM_FLAG_BORROWED \<longleftrightarrow> bit e 9" "huge e \<longleftrightarrow> bit e 7"
  using has_bit [of e 0] has_bit [of e 1] has_bit [of e 2] has_bit [of e 9] has_bit [of e 7]
  by (simp_all add: VMM_FLAG_PRESENT_def VMM_FLAG_WRITABLE_def VMM_FLAG_USER_def VMM_FLAG_BORROWED_def huge_def has_def)

lemma flag_bits:
  "bit VMM_FLAG_PRESENT k \<longleftrightarrow> k = 0" "bit VMM_FLAG_WRITABLE k \<longleftrightarrow> k = 1" "bit VMM_FLAG_USER k \<longleftrightarrow> k = 2"
proof -
  have "bit (push_bit j 1 :: u64) k \<longleftrightarrow> k = j" if "j < 64" for j
    using that by (auto simp: bit_exp_iff)
  from this [of 0] this [of 1] this [of 2]
  show "bit VMM_FLAG_PRESENT k \<longleftrightarrow> k = 0" "bit VMM_FLAG_WRITABLE k \<longleftrightarrow> k = 1" "bit VMM_FLAG_USER k \<longleftrightarrow> k = 2"
    by (simp_all add: VMM_FLAG_PRESENT_def VMM_FLAG_WRITABLE_def VMM_FLAG_USER_def)
qed

lemma PHYS_ADDR_MASK_mask: "PHYS_ADDR_MASK = mask 52 AND NOT (mask 12)"
  by (simp add: PHYS_ADDR_MASK_def mask_eq_exp_minus_1)

lemma PHYS_ADDR_MASK_bit: "bit PHYS_ADDR_MASK k \<longleftrightarrow> 12 \<le> k \<and> k < 52"
  by (auto simp: PHYS_ADDR_MASK_mask bit_simps)

lemma aligned_bit:
  assumes "2 ^ 12 dvd n" and "k < 12"
  shows "\<not> bit (of_nat n :: u64) k"
proof -
  obtain m where "n = push_bit 12 m"
    using assms(1) by (auto simp: push_bit_eq_mult mult.commute elim: dvdE)
  then show ?thesis
    using assms(2) by (simp add: bit_of_nat_iff bit_push_bit_iff)
qed

lemma below_bit: "n < 2 ^ 52 \<Longrightarrow> 52 \<le> k \<Longrightarrow> \<not> bit (of_nat n :: u64) k"
proof -
  assume n: "n < 2 ^ 52" and k: "52 \<le> k"
  have "n < 2 ^ k"
    using n power_increasing [OF k, of "2::nat"] by simp
  then have "\<not> bit n k"
    by (simp add: bit_iff_odd)
  then show ?thesis
    by (simp add: bit_of_nat_iff)
qed

lemma frame_of_or:
  assumes "2 ^ 12 dvd n" and "n < 2 ^ 52" and "fl AND PHYS_ADDR_MASK = 0"
  shows "frame_of (of_nat n OR fl) = n"
proof -
  have "(of_nat n OR fl) AND PHYS_ADDR_MASK = of_nat n"
  proof (rule bit_eqI)
    fix k
    have "\<not> (bit fl k \<and> 12 \<le> k \<and> k < 52)"
      using assms(3) PHYS_ADDR_MASK_bit by (metis bit_0_eq bit_and_iff bot_apply bot_bool_def)
    then show "bit ((of_nat n OR fl) AND PHYS_ADDR_MASK) k = bit (of_nat n :: u64) k"
      using aligned_bit [OF assms(1), of k] below_bit [OF assms(2), of k] not_le [of 12 k] not_less [of k 52]
      unfolding bit_and_iff bit_or_iff PHYS_ADDR_MASK_bit by blast
  qed
  moreover have "n < 2 ^ 64"
    using assms(2) by simp
  ultimately show ?thesis
    by (simp add: frame_of_def unat_of_nat)
qed

lemma frame_of_aligned: "2 ^ 12 dvd frame_of e"
proof -
  have "e AND PHYS_ADDR_MASK = (e AND mask 52) AND NOT (mask 12)"
    by (simp add: PHYS_ADDR_MASK_mask and.assoc)
  then show ?thesis
    by (simp only: frame_of_def ALIGN_DOWN_word ALIGN_DOWN_dvd)
qed

lemma entry_address:
  "unat ((e AND PHYS_ADDR_MASK) OR (of_nat v AND 0xFFF)) = frame_of e + v mod 4096"
proof -
  have m: "(of_nat v AND 0xFFF :: u64) = take_bit 12 (of_nat v)"
    by (simp add: take_bit_eq_mask mask_eq_exp_minus_1)
  have d: "(e AND PHYS_ADDR_MASK) AND take_bit 12 (of_nat v) = 0"
    by (rule bit_eqI) (auto simp: bit_simps PHYS_ADDR_MASK_bit)
  have "take_bit 12 (of_nat v :: u64) = of_nat (take_bit 12 v)"
    by (rule of_nat_take_bit [symmetric])
  moreover have "take_bit 12 v = v mod 4096" "v mod 4096 < 2 ^ 64"
    by (simp_all add: take_bit_eq_mod)
  ultimately have u: "unat (take_bit 12 (of_nat v) :: u64) = v mod 4096"
    by (simp add: unat_of_nat)
  have lt: "frame_of e + v mod 4096 < 2 ^ 64"
  proof -
    have "e AND PHYS_ADDR_MASK \<le> PHYS_ADDR_MASK"
      by (rule word_and_le1)
    then have "frame_of e \<le> unat PHYS_ADDR_MASK"
      by (simp add: frame_of_def word_le_nat_alt)
    moreover have "unat PHYS_ADDR_MASK = 0x000FFFFFFFFFF000"
      by (simp add: PHYS_ADDR_MASK_def)
    moreover have "v mod 4096 < 4096"
      by simp
    ultimately show ?thesis
      by simp
  qed
  have "(e AND PHYS_ADDR_MASK) OR take_bit 12 (of_nat v) = (e AND PHYS_ADDR_MASK) + take_bit 12 (of_nat v)"
    using disjunctive_add_eq_or [of "e AND PHYS_ADDR_MASK" "take_bit 12 (of_nat v)"] d by simp
  moreover have "unat ((e AND PHYS_ADDR_MASK) + take_bit 12 (of_nat v)) = frame_of e + v mod 4096"
    using lt u by (subst unat_add_lem [THEN iffD1]) (simp_all add: frame_of_def)
  ultimately show ?thesis
    by (simp only: m)
qed

section \<open>Address spaces as trees\<close>

definition step :: "vmm \<Rightarrow> nat \<Rightarrow> nat \<Rightarrow> nat option" where
  "step s t i = (let e = pmem s t i in if has e VMM_FLAG_PRESENT \<and> \<not> huge e then Some (frame_of e) else None)"

definition walk :: "vmm \<Rightarrow> nat \<Rightarrow> nat list \<Rightarrow> nat option" where
  "walk s t p = foldl (\<lambda>r i. Option.bind r (\<lambda>u. step s u i)) (Some t) p"

definition upath :: "nat list \<Rightarrow> bool" where
  "upath p \<longleftrightarrow> length p \<le> 3 \<and> (\<forall>i \<in> set p. i < 512) \<and> (p \<noteq> [] \<longrightarrow> hd p < 256)"

definition vpath :: "nat \<Rightarrow> nat list" where
  "vpath v = [pml4_index v, pdpt_index v, pd_index v]"

definition leaf :: "vmm \<Rightarrow> nat \<Rightarrow> nat \<Rightarrow> u64" where
  "leaf s P v = (case walk s P (vpath v) of None \<Rightarrow> 0 | Some pt \<Rightarrow> pmem s pt (pt_index v))"

text \<open>
  The user halves of the address spaces with the roots \<open>R\<close> are trees: every table is an allocated
  frame, no frame is a table at two places, and no entry above the leaves is a huge page.
\<close>

definition as_inv :: "vmm \<Rightarrow> nat set \<Rightarrow> bool" where
  "as_inv s R \<longleftrightarrow> pmm_inv (vpmm s) \<and> g_total_pages (vpmm s) \<le> 2 ^ 40 \<and>
     (\<forall>P \<in> R. \<forall>p t. upath p \<longrightarrow> walk s P p = Some t \<longrightarrow> t \<in> frames (vpmm s) \<and> t \<noteq> 0) \<and>
     (\<forall>P \<in> R. \<forall>Q \<in> R. \<forall>p q t. upath p \<longrightarrow> upath q \<longrightarrow> walk s P p = Some t \<longrightarrow> walk s Q q = Some t \<longrightarrow> P = Q \<and> p = q) \<and>
     (\<forall>P \<in> R. \<forall>p i t. upath (p @ [i]) \<longrightarrow> walk s P p = Some t \<longrightarrow> has (pmem s t i) VMM_FLAG_PRESENT \<longrightarrow> \<not> huge (pmem s t i))"

lemma as_invD:
  assumes "as_inv s R"
  shows "pmm_inv (vpmm s)" "g_total_pages (vpmm s) \<le> 2 ^ 40"
    "P \<in> R \<Longrightarrow> upath p \<Longrightarrow> walk s P p = Some t \<Longrightarrow> t \<in> frames (vpmm s)"
    "P \<in> R \<Longrightarrow> upath p \<Longrightarrow> walk s P p = Some t \<Longrightarrow> t \<noteq> 0"
    "P \<in> R \<Longrightarrow> Q \<in> R \<Longrightarrow> upath p \<Longrightarrow> upath q \<Longrightarrow> walk s P p = Some t \<Longrightarrow> walk s Q q = Some t \<Longrightarrow> P = Q \<and> p = q"
    "P \<in> R \<Longrightarrow> upath (p @ [i]) \<Longrightarrow> walk s P p = Some t \<Longrightarrow> has (pmem s t i) VMM_FLAG_PRESENT \<Longrightarrow> \<not> huge (pmem s t i)"
  using assms unfolding as_inv_def by blast+

lemma as_invI:
  assumes "pmm_inv (vpmm s)" "g_total_pages (vpmm s) \<le> 2 ^ 40"
    and "\<And>P p t. P \<in> R \<Longrightarrow> upath p \<Longrightarrow> walk s P p = Some t \<Longrightarrow> t \<in> frames (vpmm s) \<and> t \<noteq> 0"
    and "\<And>P Q p q t. P \<in> R \<Longrightarrow> Q \<in> R \<Longrightarrow> upath p \<Longrightarrow> upath q \<Longrightarrow> walk s P p = Some t \<Longrightarrow> walk s Q q = Some t \<Longrightarrow> P = Q \<and> p = q"
    and "\<And>P p i t. P \<in> R \<Longrightarrow> upath (p @ [i]) \<Longrightarrow> walk s P p = Some t \<Longrightarrow> has (pmem s t i) VMM_FLAG_PRESENT \<Longrightarrow> \<not> huge (pmem s t i)"
  shows "as_inv s R"
  unfolding as_inv_def using assms by blast

lemma walk_Nil [simp]: "walk s t [] = Some t"
  by (simp add: walk_def)

lemma walk_snoc [simp]: "walk s t (p @ [i]) = Option.bind (walk s t p) (\<lambda>u. step s u i)"
  by (simp add: walk_def)

lemma upath_Nil [simp]: "upath []"
  by (simp add: upath_def)

lemma upath_snocD: "upath (p @ [i]) \<Longrightarrow> upath p" "upath (p @ [i]) \<Longrightarrow> length p < 3"
  by (cases p; simp add: upath_def)+

lemma index_bounds: "pml4_index v < 512" "pdpt_index v < 512" "pd_index v < 512" "pt_index v < 512"
  by (simp_all add: pml4_index_def pdpt_index_def pd_index_def pt_index_def)

lemma vpath_upath:
  assumes "v < VMM_USER_END"
  shows "upath (vpath v)"
proof -
  have "v div 2 ^ 39 < 256"
    using assms by (simp add: VMM_USER_END_def less_mult_imp_div_less)
  then show ?thesis
    using index_bounds [of v] by (auto simp: upath_def vpath_def pml4_index_def)
qed

lemma upath_prefixes:
  assumes "upath [a, b, c]"
  shows "upath [a]" "upath [a, b]" "upath ([] @ [a])" "upath ([a] @ [b])" "upath ([a, b] @ [c])"
  using assms by (simp_all add: upath_def)

text \<open>Two addresses below the end of user space with the same indices are in the same page.\<close>

lemma page_unique:
  assumes "v < VMM_USER_END" and "w < VMM_USER_END" and "vpath v = vpath w" and "pt_index v = pt_index w"
  shows "v div PAGE_SIZE = w div PAGE_SIZE"
proof -
  have *: "x div 2 ^ 12 = ((x div 2 ^ 39 mod 512 * 512 + x div 2 ^ 30 mod 512) * 512 + x div 2 ^ 21 mod 512) * 512 + x div 2 ^ 12 mod 512"
    if "x < VMM_USER_END" for x :: nat
  proof -
    let ?y = "x div 2 ^ 12"
    have d: "x div 2 ^ 39 = ?y div 512 div 512 div 512" "x div 2 ^ 30 = ?y div 512 div 512" "x div 2 ^ 21 = ?y div 512"
      by (simp_all add: div_mult2_eq [symmetric])
    have "x div 2 ^ 39 < 512"
      using that by (simp add: VMM_USER_END_def less_mult_imp_div_less)
    then have top: "x div 2 ^ 39 mod 512 = ?y div 512 div 512 div 512"
      by (simp only: mod_less d(1))
    show ?thesis
      unfolding top d(2,3) by (simp only: div_mult_mod_eq)
  qed
  have e: "v div 2 ^ 39 mod 512 = w div 2 ^ 39 mod 512" "v div 2 ^ 30 mod 512 = w div 2 ^ 30 mod 512"
    "v div 2 ^ 21 mod 512 = w div 2 ^ 21 mod 512" "v div 2 ^ 12 mod 512 = w div 2 ^ 12 mod 512"
    using assms(3,4) unfolding vpath_def pml4_index_def pdpt_index_def pd_index_def pt_index_def by simp_all
  have "v div 2 ^ 12 = w div 2 ^ 12"
    using * [OF assms(1), unfolded e] * [OF assms(2)] by (rule trans [OF _ sym])
  then show ?thesis
    by (simp add: PAGE_SIZE_def)
qed

lemma page_indices:
  assumes "v div PAGE_SIZE = w div PAGE_SIZE"
  shows "vpath v = vpath w" and "pt_index v = pt_index w"
proof -
  have d: "x div 2 ^ 39 = x div PAGE_SIZE div 512 div 512 div 512" "x div 2 ^ 30 = x div PAGE_SIZE div 512 div 512"
    "x div 2 ^ 21 = x div PAGE_SIZE div 512" "x div 2 ^ 12 = x div PAGE_SIZE" for x
    by (simp_all add: div_mult2_eq [symmetric] PAGE_SIZE_def)
  show "vpath v = vpath w" "pt_index v = pt_index w"
    using assms by (simp_all only: vpath_def pml4_index_def pdpt_index_def pd_index_def pt_index_def d)
qed

text \<open>Changing the entry \<open>i\<close> of the table at \<open>p\<close> only matters to paths through this entry.\<close>

lemma walk_other:
  assumes inv: "as_inv s R" and P: "P \<in> R" "upath p" "walk s P p = Some t"
    and same: "\<And>u j. u \<in> frames (vpmm s) \<Longrightarrow> (u, j) \<noteq> (t, i) \<Longrightarrow> pmem s' u j = pmem s u j"
    and Q: "Q \<in> R" "upath q" "\<not> (Q = P \<and> prefix (p @ [i]) q)"
  shows "walk s' Q q = walk s Q q"
  using Q(2,3)
proof (induction q rule: rev_induct)
  case (snoc j q)
  have q: "upath q" and np: "\<not> (Q = P \<and> prefix (p @ [i]) q)"
    using snoc.prems upath_snocD(1) by auto
  then have eq: "walk s' Q q = walk s Q q"
    by (rule snoc.IH)
  show ?case
  proof (cases "walk s Q q")
    case (Some u)
    have "(u, j) \<noteq> (t, i)"
      using as_invD(5) [OF inv Q(1) P(1) q P(2)] Some P(3) snoc.prems(2) by auto
    then have "pmem s' u j = pmem s u j"
      using same as_invD(3) [OF inv Q(1) q Some] by blast
    then show ?thesis
      using Some eq by (simp add: step_def)
  qed (simp add: eq)
qed simp

text \<open>A fresh empty table hung into an empty place.\<close>

lemma walk_through:
  assumes "walk s' P p = Some t" and "step s' t i = Some f" and "\<And>j. pmem s' f j = 0"
  shows "walk s' P (p @ [i] @ r) = (if r = [] then Some f else None)"
proof (induction r rule: rev_induct)
  case Nil
  then show ?case
    using assms(1,2) by simp
next
  case (snoc k r)
  have "step s' f k = None"
    using assms(3) by (simp add: step_def has_def)
  then show ?case
    using snoc walk_snoc [of s' P "p @ [i] @ r" k] by (simp del: walk_snoc split: if_splits)
qed

lemma add_table:
  assumes inv: "as_inv s R" and P: "P \<in> R" "walk s P p = Some t" "upath (p @ [i])"
    and none: "\<not> has (pmem s t i) VMM_FLAG_PRESENT"
    and f: "f \<notin> frames (vpmm s)" "f \<noteq> 0" "frames (vpmm s') = insert f (frames (vpmm s))"
    and pm: "pmm_inv (vpmm s')" "g_total_pages (vpmm s') \<le> 2 ^ 40"
    and e: "has e VMM_FLAG_PRESENT" "\<not> huge e" "frame_of e = f"
    and mem: "pmem s' = ((pmem s)(f := \<lambda>_. 0))(t := (pmem s t)(i := e))"
  shows "as_inv s' R" and "walk s' P (p @ [i]) = Some f"
    and "Q \<in> R \<Longrightarrow> upath (vpath v) \<Longrightarrow> leaf s' Q v = leaf s Q v"
proof -
  have p: "upath p" "length p < 3"
    using upath_snocD [OF P(3)] by simp_all
  have t: "t \<in> frames (vpmm s)" "t \<noteq> f"
    using as_invD(3) [OF inv P(1) p(1) P(2)] f(1) by auto
  have same: "pmem s' u j = pmem s u j" if "u \<in> frames (vpmm s)" "(u, j) \<noteq> (t, i)" for u j
    using that f(1) by (auto simp: mem)
  have other: "walk s' Q q = walk s Q q" if "Q \<in> R" "upath q" "\<not> (Q = P \<and> prefix (p @ [i]) q)" for Q q
    by (rule walk_other [OF inv P(1) p(1) P(2) same that])
  have wp: "walk s' P p = Some t"
    using other [OF P(1) p(1)] P(2) by simp
  have st: "step s' t i = Some f"
    using e t(2) by (simp add: step_def mem)
  have zero: "pmem s' f j = 0" for j
    using t(2) by (simp add: mem)
  have thru: "walk s' P q = (if q = p @ [i] then Some f else None)" if pf: "prefix (p @ [i]) q" for q
  proof -
    obtain r where "q = p @ [i] @ r"
      using pf by (auto simp: prefix_def)
    then show ?thesis
      using walk_through [OF wp st zero, of r] by simp
  qed
  have w: "walk s' Q q = Some u \<longleftrightarrow>
      (if Q = P \<and> prefix (p @ [i]) q then q = p @ [i] \<and> u = f else walk s Q q = Some u)" if "Q \<in> R" "upath q" for Q q u
    using other [OF that] thru [of q] by auto
  show "walk s' P (p @ [i]) = Some f"
    using wp st by simp
  have old: "u \<in> frames (vpmm s)" "u \<noteq> 0" "u \<noteq> f" if "Q \<in> R" "upath q" "walk s Q q = Some u" for Q q u
    using as_invD(3,4) [OF inv that] f(1) by auto
  show "as_inv s' R"
  proof (rule as_invI [OF pm])
    fix Q q u assume a: "Q \<in> R" "upath q" "walk s' Q q = Some u"
    then show "u \<in> frames (vpmm s') \<and> u \<noteq> 0"
      using w [OF a(1,2)] old [OF a(1,2)] f by (auto split: if_splits)
  next
    fix Q Q' q q' u assume a: "Q \<in> R" "Q' \<in> R" "upath q" "upath q'" "walk s' Q q = Some u" "walk s' Q' q' = Some u"
    have x: "if Q = P \<and> prefix (p @ [i]) q then q = p @ [i] \<and> u = f else walk s Q q = Some u"
      by (rule w [OF a(1,3), THEN iffD1, OF a(5)])
    have y: "if Q' = P \<and> prefix (p @ [i]) q' then q' = p @ [i] \<and> u = f else walk s Q' q' = Some u"
      by (rule w [OF a(2,4), THEN iffD1, OF a(6)])
    show "Q = Q' \<and> q = q'"
    proof (cases "u = f")
      case True
      then show ?thesis
        using x y old(3) [OF a(1,3)] old(3) [OF a(2,4)] by metis
    next
      case False
      then show ?thesis
        using x y as_invD(5) [OF inv a(1-4)] by metis
    qed
  next
    fix Q q j u assume a: "Q \<in> R" "upath (q @ [j])" "walk s' Q q = Some u" "has (pmem s' u j) VMM_FLAG_PRESENT"
    have q: "upath q"
      using upath_snocD a(2) by blast
    show "\<not> huge (pmem s' u j)"
    proof (cases "(u, j) = (t, i)")
      case True
      then show ?thesis
        using e(2) by (simp add: mem)
    next
      case False
      have "u \<noteq> f"
        using a(4) zero by (auto simp: has_def)
      then have "walk s Q q = Some u"
        using w [OF a(1) q] a(3) by (auto split: if_splits)
      then show ?thesis
        using a(4) same [OF old(1) [OF a(1) q]] False as_invD(6) [OF inv a(1,2)] by simp
    qed
  qed
  show "leaf s' Q v = leaf s Q v" if "Q \<in> R" "upath (vpath v)" for Q v
  proof (cases "Q = P \<and> prefix (p @ [i]) (vpath v)")
    case True
    then obtain r where r: "vpath v = (p @ [i]) @ r"
      by (auto simp: prefix_def)
    have "walk s P ((p @ [i]) @ r) = None"
    proof (induction r rule: rev_induct)
      case Nil
      then show ?case
        using P(2) none by (simp add: step_def)
    next
      case (snoc k r)
      then show ?case
        using walk_snoc [of s P "(p @ [i]) @ r" k] by (simp del: walk_snoc)
    qed
    then have "leaf s Q v = 0"
      using True r by (simp add: leaf_def)
    moreover have "leaf s' Q v = 0"
      using True thru [of "vpath v"] zero by (simp add: leaf_def)
    ultimately show ?thesis
      by simp
  next
    case False
    have "walk s' Q (vpath v) = walk s Q (vpath v)"
      by (rule other [OF that False])
    moreover have "pmem s' u (pt_index v) = pmem s u (pt_index v)" if w: "walk s Q (vpath v) = Some u" for u
    proof (rule same [OF old(1) [OF \<open>Q \<in> R\<close> \<open>upath (vpath v)\<close> w]])
      have "vpath v \<noteq> p"
        using p(2) by (auto simp: vpath_def)
      then show "(u, pt_index v) \<noteq> (t, i)"
        using as_invD(5) [OF inv \<open>Q \<in> R\<close> P(1) \<open>upath (vpath v)\<close> p(1) w] P(2) by auto
    qed
    ultimately show ?thesis
      by (simp add: leaf_def split: option.split)
  qed
qed

lemma set_entry_simps [simp]:
  "vheap (set_entry t i e s) = vheap s" "maps (set_entry t i e s) = maps s"
  "g_kernel_pagemap (set_entry t i e s) = g_kernel_pagemap s" "vheap (set_page t p s) = vheap s"
  "maps (set_page t p s) = maps s" "g_kernel_pagemap (set_page t p s) = g_kernel_pagemap s"
  "pmem (set_page t p s) = (pmem s)(t := p)" "pmem (set_entry t i e s) = (pmem s)(t := (pmem s t)(i := e))"
  by (simp_all add: set_entry_def set_page_def)

lemma set_vpmm_simps [simp]:
  "vpmm (set_vpmm p s) = p" "maps (set_vpmm p s) = maps s" "pmem (set_vpmm p s) = pmem s"
  "g_kernel_pagemap (set_vpmm p s) = g_kernel_pagemap s" "set_vpmm (vpmm s) s = s"
  by (simp_all add: set_vpmm_def)

text \<open>The page allocator's contract, on the state of the virtual memory.\<close>

lemma palloc_cases:
  assumes "as_inv s R" and "palloc s = (f, s')"
  obtains "f = 0" and "s' = s" and "fst (pmm_alloc_page (vpmm s)) = 0"
  | "f \<noteq> 0" and "f \<notin> frames (vpmm s)" and "frames (vpmm s') = insert f (frames (vpmm s))"
    and "pmm_inv (vpmm s')" and "g_total_pages (vpmm s') \<le> 2 ^ 40" and "pmem s' = pmem s" and "maps s' = maps s"
    and "g_kernel_pagemap s' = g_kernel_pagemap s"
proof -
  obtain q where q: "pmm_alloc_page (vpmm s) = (f, q)" "s' = set_vpmm q s"
    using assms(2) by (auto simp: palloc_def split: prod.splits)
  have "g_total_pages q \<le> 2 ^ 40"
    using pmm_alloc_page_total [OF as_invD(1) [OF assms(1)]] q(1) as_invD(2) [OF assms(1)] by simp
  then show thesis
    using that pf.alloc_cases [OF as_invD(1) [OF assms(1)] q(1)] q by auto
qed

lemma frame_bounds:
  assumes "f \<in> frames p" and "g_total_pages p \<le> 2 ^ 40"
  shows "2 ^ 12 dvd f" and "f < 2 ^ 52"
proof -
  obtain k where k: "f = k * PAGE_SIZE" "k < g_total_pages p"
    using assms(1) by (auto simp: frames_def used_set_def)
  then show "2 ^ 12 dvd f"
    by (simp add: PAGE_SIZE_def)
  have "k * PAGE_SIZE < 2 ^ 40 * 4096"
    using k(2) assms(2) by (simp add: PAGE_SIZE_def)
  then show "f < 2 ^ 52"
    by (simp add: k(1))
qed

text \<open>One level of the walk that creates what is missing.\<close>

lemma next_level:
  assumes inv: "as_inv s R" and P: "P \<in> R" "walk s P p = Some t" "upath (p @ [i])"
    and r: "get_next_level t i lvl True (flags AND VMM_FLAG_USER) s = (r, s')"
  shows "as_inv s' R" and "maps s' = maps s" and "g_kernel_pagemap s' = g_kernel_pagemap s"
    and "Q \<in> R \<Longrightarrow> upath (vpath v) \<Longrightarrow> leaf s' Q v = leaf s Q v"
    and "r = Some u \<Longrightarrow> walk s' P (p @ [i]) = Some u"
    and "r = None \<Longrightarrow> s' = s \<and> fst (pmm_alloc_page (vpmm s)) = 0"
proof -
  have all: "as_inv s' R \<and> maps s' = maps s \<and> g_kernel_pagemap s' = g_kernel_pagemap s \<and>
      (\<forall>Q v. Q \<in> R \<longrightarrow> upath (vpath v) \<longrightarrow> leaf s' Q v = leaf s Q v) \<and> (\<forall>u. r = Some u \<longrightarrow> walk s' P (p @ [i]) = Some u) \<and>
      (r = None \<longrightarrow> s' = s \<and> fst (pmm_alloc_page (vpmm s)) = 0)"
  proof (cases "has (pmem s t i) VMM_FLAG_PRESENT")
    case True
    then have h: "\<not> huge (pmem s t i)"
      using as_invD(6) [OF inv P(1,3,2)] by simp
    then have "r = Some (frame_of (pmem s t i))" "s' = s"
      using r True by (auto simp: get_next_level_def)
    then show ?thesis
      using inv P(2) True h by (simp add: step_def)
  next
    case False
    obtain f s1 where f: "palloc s = (f, s1)"
      by fastforce
    show ?thesis
    proof (cases rule: palloc_cases [OF inv f, case_names none some])
      case none
      then show ?thesis
        using r False f inv by (auto simp: get_next_level_def)
    next
      case some
      define e where "e = of_nat f OR (flags AND VMM_FLAG_USER) OR VMM_FLAG_PRESENT OR VMM_FLAG_WRITABLE"
      have s': "r = Some f" "s' = set_entry t i e (set_page f (\<lambda>_. 0) s1)"
        using r False f some(1) by (simp_all add: get_next_level_def e_def)
      have b: "2 ^ 12 dvd f" "f < 2 ^ 52"
        using frame_bounds [of f, OF _ some(5)] some(3) by auto
      have "((flags AND VMM_FLAG_USER) OR VMM_FLAG_PRESENT OR VMM_FLAG_WRITABLE) AND PHYS_ADDR_MASK = 0"
        by (rule bit_eqI) (auto simp: bit_simps PHYS_ADDR_MASK_bit flag_bits)
      then have fe: "frame_of e = f"
        unfolding e_def or.assoc by (rule frame_of_or [OF b])
      have he: "has e VMM_FLAG_PRESENT" "\<not> huge e"
        using aligned_bit [OF b(1), of 7] by (simp_all add: e_def entry_flags bit_or_iff bit_and_iff flag_bits)
      have tf: "t \<noteq> f"
        using as_invD(3) [OF inv P(1) upath_snocD(1) [OF P(3)] P(2)] some(2) by auto
      have mem: "pmem s' = ((pmem s)(f := \<lambda>_. 0))(t := (pmem s t)(i := e))"
        using tf by (simp add: s' some(6))
      have v: "vpmm s' = vpmm s1"
        by (simp add: s')
      note add = add_table [OF inv P False some(2,1) _ _ _ he fe mem, unfolded v, OF some(3,4,5)]
      show ?thesis
        using add s' some(7,8) by simp
    qed
  qed
  from all show "as_inv s' R" "maps s' = maps s" "g_kernel_pagemap s' = g_kernel_pagemap s"
    by blast+
  from all show "Q \<in> R \<Longrightarrow> upath (vpath v) \<Longrightarrow> leaf s' Q v = leaf s Q v" "r = Some u \<Longrightarrow> walk s' P (p @ [i]) = Some u"
    "r = None \<Longrightarrow> s' = s \<and> fst (pmm_alloc_page (vpmm s)) = 0"
    by blast+
qed

text \<open>Writing a leaf is an update of the abstract address space at one page.\<close>

lemma write_leaf:
  fixes e :: u64
  assumes inv: "as_inv s R" and P: "P \<in> R" "walk s P (vpath v) = Some pt" and v: "v < VMM_USER_END"
  defines "s' \<equiv> set_entry pt (pt_index v) e s"
  shows "as_inv s' R" and "Q \<in> R \<Longrightarrow> upath q \<Longrightarrow> walk s' Q q = walk s Q q"
    and "Q \<in> R \<Longrightarrow> w < VMM_USER_END \<Longrightarrow> leaf s' Q w = (if Q = P \<and> w div PAGE_SIZE = v div PAGE_SIZE then e else leaf s Q w)"
proof -
  have u: "upath (vpath v)"
    by (rule vpath_upath [OF v])
  have same: "pmem s' u j = pmem s u j" if "(u, j) \<noteq> (pt, pt_index v)" for u j
    using that by (auto simp: s'_def)
  have len: "\<not> prefix (vpath v @ [pt_index v]) q" if "upath q" for q
    using that by (auto simp: upath_def vpath_def dest!: prefix_length_le)
  show walk: "walk s' Q q = walk s Q q" if "Q \<in> R" "upath q" for Q q
    by (rule walk_other [OF inv P(1) u P(2), where i = "pt_index v"]) (use same that len in auto)
  have vp: "vpmm s' = vpmm s"
    by (simp add: s'_def)
  show "as_inv s' R"
  proof (rule as_invI)
    fix Q q j t assume a: "Q \<in> R" "upath (q @ [j])" "walk s' Q q = Some t" "has (pmem s' t j) VMM_FLAG_PRESENT"
    have q: "upath q" "length q < 3"
      using upath_snocD [OF a(2)] by simp_all
    then have wq: "walk s Q q = Some t"
      using walk a(1,3) by simp
    have "q \<noteq> vpath v"
      using q(2) by (auto simp: vpath_def)
    then have "t \<noteq> pt"
      using as_invD(5) [OF inv a(1) P(1) q(1) u wq] P(2) by auto
    then show "\<not> huge (pmem s' t j)"
      using as_invD(6) [OF inv a(1,2) wq] a(4) same by simp
  next
    fix Q q t assume a: "Q \<in> R" "upath q" "walk s' Q q = Some t"
    then show "t \<in> frames (vpmm s') \<and> t \<noteq> 0"
      using as_invD(3,4) [OF inv a(1,2), of t] walk by (simp add: vp)
  next
    fix Q Q' q q' t assume a: "Q \<in> R" "Q' \<in> R" "upath q" "upath q'" "walk s' Q q = Some t" "walk s' Q' q' = Some t"
    then show "Q = Q' \<and> q = q'"
      using as_invD(5) [OF inv a(1-4), of t] walk by simp
  qed (use as_invD(1,2) [OF inv] in \<open>simp_all add: vp\<close>)
  show "leaf s' Q w = (if Q = P \<and> w div PAGE_SIZE = v div PAGE_SIZE then e else leaf s Q w)"
    if h: "Q \<in> R" "w < VMM_USER_END" for Q w
  proof (cases "Q = P \<and> w div PAGE_SIZE = v div PAGE_SIZE")
    case True
    then show ?thesis
      using page_indices [of w v] walk [OF P(1) u] P(2) by (simp add: leaf_def s'_def)
  next
    case False
    have "(t, pt_index w) \<noteq> (pt, pt_index v)" if t: "walk s Q (vpath w) = Some t" for t
      using as_invD(5) [OF inv h(1) P(1) vpath_upath [OF h(2)] u t] P(2) page_unique [OF h(2) v] False by auto
    then show ?thesis
      using walk [OF h(1) vpath_upath [OF h(2)]] same False by (auto simp: leaf_def split: option.split)
  qed
qed

section \<open>Operations on the abstract address space\<close>

lemma fst_next_level: "fst (get_next_level t i lvl False 0 s) = step s t i"
  by (simp add: get_next_level_def step_def Let_def)

lemma find_pt_walk: "find_pt P v s = walk s P (vpath v)"
  by (simp add: find_pt_def fst_next_level walk_def vpath_def split: option.split bind_split)

lemma vpath_align: "vpath (ALIGN_DOWN v PAGE_SIZE) = vpath v" "pt_index (ALIGN_DOWN v PAGE_SIZE) = pt_index v"
proof -
  have "ALIGN_DOWN v PAGE_SIZE div PAGE_SIZE = v div PAGE_SIZE"
    by (simp only: ALIGN_DOWN_def minus_mod_eq_div_mult page_addr_div)
  then show "vpath (ALIGN_DOWN v PAGE_SIZE) = vpath v" "pt_index (ALIGN_DOWN v PAGE_SIZE) = pt_index v"
    by (rule page_indices)+
qed

definition space :: "vmm \<Rightarrow> nat \<Rightarrow> nat \<Rightarrow> bool" where
  "space s mp P \<longleftrightarrow> mp \<noteq> 0 \<and> pml4_virt (maps s mp) = Some P"

lemma create_pt_spec:
  assumes inv: "as_inv s R" and P: "P \<in> R" and v: "v < VMM_USER_END"
    and r: "create_pt P v (flags AND VMM_FLAG_USER) s = (r, s')"
  shows "as_inv s' R \<and> maps s' = maps s \<and> g_kernel_pagemap s' = g_kernel_pagemap s \<and>
    (\<forall>Q w. Q \<in> R \<longrightarrow> upath (vpath w) \<longrightarrow> leaf s' Q w = leaf s Q w) \<and>
    (case r of None \<Rightarrow> fst (pmm_alloc_page (vpmm s')) = 0 | Some pt \<Rightarrow> walk s' P (vpath v) = Some pt)"
proof -
  note pre = upath_prefixes [OF vpath_upath [OF v, unfolded vpath_def]]
  let ?fl = "flags AND VMM_FLAG_USER"
  obtain r1 s1 where n1: "get_next_level P (pml4_index v) 3 True ?fl s = (r1, s1)"
    by fastforce
  note f1 = next_level [OF inv P walk_Nil pre(3) n1]
  show ?thesis
  proof (cases r1)
    case None
    then have "r = None" "s' = s1"
      using r n1 by (simp_all add: create_pt_def)
    then show ?thesis
      using f1 None by simp
  next
    case (Some pdpt)
    obtain r2 s2 where n2: "get_next_level pdpt (pdpt_index v) 2 True ?fl s1 = (r2, s2)"
      by fastforce
    have w1: "walk s1 P [pml4_index v] = Some pdpt"
      using f1(5) [OF Some] by simp
    note f2 = next_level [OF f1(1) P w1 pre(4) n2]
    show ?thesis
    proof (cases r2)
      case None
      then have "r = None" "s' = s2"
        using r n1 n2 Some by (simp_all add: create_pt_def)
      then show ?thesis
        using f1 f2 None by simp
    next
      case (Some pd)
      have n3: "get_next_level pd (pd_index v) 1 True ?fl s2 = (r, s')"
        using r n1 n2 Some \<open>r1 = Some pdpt\<close> by (simp add: create_pt_def)
      have w2: "walk s2 P [pml4_index v, pdpt_index v] = Some pd"
        using f2(5) [OF Some] by simp
      note f3 = next_level [OF f2(1) P w2 pre(5) n3]
      show ?thesis
        using f1 f2 f3 by (cases r) (simp_all add: vpath_def)
    qed
  qed
qed

lemma map_page_spec:
  assumes inv: "as_inv s R" and sp: "space s mp P" "P \<in> R" and v: "vmm_user_range v PAGE_SIZE"
    and r: "vmm_map_page mp v phys flags s = (ok, s')"
  shows "as_inv s' R \<and> maps s' = maps s \<and> g_kernel_pagemap s' = g_kernel_pagemap s \<and>
    (\<forall>Q \<in> R. \<forall>w < VMM_USER_END. leaf s' Q w =
       (if ok \<and> Q = P \<and> w div PAGE_SIZE = v div PAGE_SIZE
        then of_nat (ALIGN_DOWN phys PAGE_SIZE) OR flags OR VMM_FLAG_PRESENT else leaf s Q w)) \<and>
    (\<not> ok \<longrightarrow> fst (pmm_alloc_page (vpmm s')) = 0)"
proof -
  let ?v = "ALIGN_DOWN v PAGE_SIZE"
  have vu: "v < VMM_USER_END"
    using v by (simp add: vmm_user_range_def)
  then have v': "?v < VMM_USER_END"
    using ALIGN_DOWN_le le_less_trans by blast
  have pg: "?v div PAGE_SIZE = v div PAGE_SIZE"
    by (simp only: ALIGN_DOWN_def minus_mod_eq_div_mult page_addr_div)
  obtain q s1 where c: "create_pt P ?v (flags AND VMM_FLAG_USER) s = (q, s1)"
    by fastforce
  note cs = create_pt_spec [OF inv sp(2) v' c]
  show ?thesis
  proof (cases q)
    case None
    then have "ok = False" "s' = s1"
      using r sp(1) v c by (simp_all add: vmm_map_page_def space_def Let_def)
    then show ?thesis
      using cs None vpath_upath by simp
  next
    case (Some pt)
    then have ok: "ok = True" "s' = set_entry pt (pt_index ?v) (of_nat (ALIGN_DOWN phys PAGE_SIZE) OR flags OR VMM_FLAG_PRESENT) s1"
      using r sp(1) v c by (auto simp: vmm_map_page_def space_def Let_def)
    have inv1: "as_inv s1 R" and w: "walk s1 P (vpath ?v) = Some pt"
      using cs Some by simp_all
    show ?thesis
      unfolding ok using write_leaf(1,3) [OF inv1 sp(2) w v'] cs vpath_upath by (simp add: pg)
  qed
qed

lemma unmap_page_spec:
  assumes inv: "as_inv s R" and sp: "space s mp P" "P \<in> R" and v: "v < VMM_USER_END"
    and r: "vmm_unmap_page mp v s = (ok, s')"
  shows "as_inv s' R \<and> maps s' = maps s \<and>
    (\<forall>Q \<in> R. \<forall>w < VMM_USER_END. leaf s' Q w =
       (if Q = P \<and> w div PAGE_SIZE = v div PAGE_SIZE then 0 else leaf s Q w))"
proof -
  let ?v = "ALIGN_DOWN v PAGE_SIZE"
  have v': "?v < VMM_USER_END"
    using v ALIGN_DOWN_le le_less_trans by blast
  have pg: "?v div PAGE_SIZE = v div PAGE_SIZE"
    by (simp only: ALIGN_DOWN_def minus_mod_eq_div_mult page_addr_div)
  show ?thesis
  proof (cases "walk s P (vpath ?v)")
    case None
    then have "s' = s"
      using r sp(1) by (auto simp: vmm_unmap_page_def space_def find_pt_walk Let_def)
    moreover have "leaf s P w = 0" if "w div PAGE_SIZE = v div PAGE_SIZE" for w
      using None page_indices [OF that] by (simp add: leaf_def vpath_align)
    ultimately show ?thesis
      using inv by auto
  next
    case (Some pt)
    then have "s' = set_entry pt (pt_index ?v) 0 s"
      using r sp(1) by (auto simp: vmm_unmap_page_def space_def find_pt_walk Let_def)
    then show ?thesis
      using write_leaf(1,3) [OF inv sp(2) Some v'] by (simp add: pg)
  qed
qed

text \<open>The two translations read the leaf.\<close>

lemma user_page_phys_leaf:
  assumes "space s mp P" and "v < VMM_USER_END"
  shows "vmm_user_page_phys mp v write s =
    (let e = leaf s P v in
     if has e VMM_FLAG_PRESENT \<and> has e VMM_FLAG_USER \<and> (write \<longrightarrow> has e VMM_FLAG_WRITABLE)
     then frame_of e + v mod 4096 else 0)"
  using assms
  by (simp add: vmm_user_page_phys_def space_def find_pt_walk leaf_def VMM_USER_END_def Let_def entry_address has_def
      split: option.split)

lemma virt_to_phys_leaf:
  assumes inv: "as_inv s R" and sp: "space s mp P" "P \<in> R" and v: "v < VMM_USER_END"
  shows "vmm_virt_to_phys mp v s =
    (let e = leaf s P v in if has e VMM_FLAG_PRESENT then frame_of e + v mod 4096 else 0)"
proof -
  note pre = upath_prefixes [OF vpath_upath [OF v, unfolded vpath_def]]
  let ?e1 = "pmem s P (pml4_index v)"
  let ?e2 = "pmem s (frame_of ?e1) (pdpt_index v)"
  let ?e3 = "pmem s (frame_of ?e2) (pd_index v)"
  have h1: "\<not> huge ?e1" if "has ?e1 VMM_FLAG_PRESENT"
    by (rule as_invD(6) [OF inv sp(2) pre(3) walk_Nil that])
  have w1: "walk s P [pml4_index v] = Some (frame_of ?e1)" if "has ?e1 VMM_FLAG_PRESENT"
    using that h1 by (simp add: walk_def step_def)
  have h2: "\<not> huge ?e2" if "has ?e1 VMM_FLAG_PRESENT" "has ?e2 VMM_FLAG_PRESENT"
    by (rule as_invD(6) [OF inv sp(2) pre(4) w1 [OF that(1)] that(2)])
  have w2: "walk s P [pml4_index v, pdpt_index v] = Some (frame_of ?e2)"
    if "has ?e1 VMM_FLAG_PRESENT" "has ?e2 VMM_FLAG_PRESENT"
    using that h1 h2 by (simp add: walk_def step_def)
  have h3: "\<not> huge ?e3" if "has ?e1 VMM_FLAG_PRESENT" "has ?e2 VMM_FLAG_PRESENT" "has ?e3 VMM_FLAG_PRESENT"
    by (rule as_invD(6) [OF inv sp(2) pre(5) w2 [OF that(1,2)] that(3)])
  have z: "\<not> has 0 VMM_FLAG_PRESENT"
    by (simp add: has_def)
  show ?thesis
    using sp(1) h1 h2 h3 z
    by (simp add: vmm_virt_to_phys_def space_def leaf_def walk_def vpath_def step_def Let_def entry_address)
qed

text \<open>\<open>user_leaf\<close> and the walk of \<open>vmm_user_access\<close> are the same walk.\<close>

lemma user_leaf_walk: "user_leaf P v s = map_option (\<lambda>pt. (pt, pt_index v)) (walk s P (vpath v))"
  by (auto simp: user_leaf_def walk_def vpath_def step_def Let_def pml4_index_def pdpt_index_def pd_index_def
      split: option.split)

section \<open>Giving tables back\<close>

lemma pmm_free_page_total [simp]: "g_total_pages (pmm_free_page a p) = g_total_pages p"
  by (simp add: pmm_free_page_def mark_free_def bitmap_clear_def Let_def)

lemma pfree_simps [simp]:
  "pmem (pfree a s) = pmem s" "maps (pfree a s) = maps s" "g_kernel_pagemap (pfree a s) = g_kernel_pagemap s"
  "vpmm (pfree a s) = pmm_free_page a (vpmm s)"
  by (simp_all add: pfree_def)

lemma walk_cong: "pmem s' = pmem s \<Longrightarrow> walk s' = walk s"
  by (simp add: fun_eq_iff walk_def step_def)

lemma leaf_cong: "pmem s' = pmem s \<Longrightarrow> leaf s' = leaf s"
  by (rule ext)+ (simp add: leaf_def walk_cong [of s' s] split: option.split)

text \<open>A frame that is no table of any of the address spaces can be given back.\<close>

lemma free_data:
  assumes inv: "as_inv s R" and a: "a \<in> frames (vpmm s)" "a \<noteq> 0"
    and no: "\<And>Q q. Q \<in> R \<Longrightarrow> upath q \<Longrightarrow> walk s Q q \<noteq> Some a"
  shows "as_inv (pfree a s) R"
proof -
  have f: "pmm_inv (vpmm (pfree a s))" "frames (vpmm (pfree a s)) = frames (vpmm s) - {a}"
    using pf.release_owned [OF as_invD(1) [OF inv] a] by simp_all
  have w: "walk (pfree a s) = walk s"
    by (rule walk_cong) simp
  show ?thesis
  proof (rule as_invI)
    show "pmm_inv (vpmm (pfree a s))" "g_total_pages (vpmm (pfree a s)) \<le> 2 ^ 40"
      using f as_invD(2) [OF inv] by simp_all
  next
    fix Q q t assume "Q \<in> R" "upath q" "walk (pfree a s) Q q = Some t"
    then show "t \<in> frames (vpmm (pfree a s)) \<and> t \<noteq> 0"
      using as_invD(3,4) [OF inv, of Q q t] no [of Q q] unfolding f(2) w by auto
  qed (use as_invD(5,6) [OF inv] w in auto)
qed

lemma walk_dead:
  assumes "walk s P p = Some u" and "r \<noteq> []" and "pmem s u (hd r) = 0"
  shows "walk s P (p @ r) = None"
  using assms(2,3)
proof (induction r rule: rev_induct)
  case (snoc k r)
  show ?case
  proof (cases "r = []")
    case True
    then show ?thesis
      using snoc.prems assms(1) by (simp add: step_def has_def)
  next
    case False
    then have "walk s P (p @ r) = None"
      using snoc by simp
    then show ?thesis
      using walk_snoc [of s P "p @ r" k] by (simp del: walk_snoc)
  qed
qed simp

lemma remove_table:
  assumes inv: "as_inv s R" and P: "P \<in> R" "walk s P p = Some t" "upath (p @ [i])" "walk s P (p @ [i]) = Some u"
    and empty: "table_empty u s"
  defines "s' \<equiv> pfree (frame_of (pmem s t i)) (set_entry t i 0 s)"
  shows "as_inv s' R" and "Q \<in> R \<Longrightarrow> v < VMM_USER_END \<Longrightarrow> leaf s' Q v = leaf s Q v"
    and "Q \<in> R \<Longrightarrow> upath q \<Longrightarrow> \<not> (Q = P \<and> prefix (p @ [i]) q) \<Longrightarrow> walk s' Q q = walk s Q q"
    and "frames (vpmm s') = frames (vpmm s) - {u}"
proof -
  have p: "upath p" "length p < 3"
    using upath_snocD [OF P(3)] by simp_all
  have st: "step s t i = Some u" and u: "frame_of (pmem s t i) = u"
    using P(2,4) by (simp_all add: step_def Let_def split: if_splits)
  have uf: "u \<in> frames (vpmm s)" "u \<noteq> 0"
    using as_invD(3,4) [OF inv P(1,3,4)] .
  have f: "pmm_inv (vpmm s')" "frames (vpmm s') = frames (vpmm s) - {u}"
    using pf.release_owned [OF as_invD(1) [OF inv] uf] by (simp_all add: s'_def u)
  show "frames (vpmm s') = frames (vpmm s) - {u}"
    by (rule f(2))
  have mem: "pmem s' = (pmem s)(t := (pmem s t)(i := 0))"
    by (simp add: s'_def)
  have same: "pmem s' x j = pmem s x j" if "(x, j) \<noteq> (t, i)" for x j
    using that by (auto simp: mem)
  show other: "walk s' Q q = walk s Q q" if "Q \<in> R" "upath q" "\<not> (Q = P \<and> prefix (p @ [i]) q)" for Q q
    by (rule walk_other [OF inv P(1) p(1) P(2) same that])
  have thru: "walk s' P ((p @ [i]) @ r) = None" for r
  proof (induction r rule: rev_induct)
    case Nil
    have "step s' t i = None"
      by (simp add: step_def mem has_def)
    then show ?case
      using other [OF P(1) p(1)] P(2) by simp
  next
    case (snoc k r)
    then show ?case
      using walk_snoc [of s' P "(p @ [i]) @ r" k] by (simp del: walk_snoc)
  qed
  have w: "walk s' Q q = Some x \<Longrightarrow> walk s Q q = Some x \<and> \<not> (Q = P \<and> prefix (p @ [i]) q)" if "Q \<in> R" "upath q" for Q q x
  proof (cases "Q = P \<and> prefix (p @ [i]) q")
    case True
    moreover assume "walk s' Q q = Some x"
    ultimately show ?thesis
      using thru by (metis option.distinct(1) prefix_def)
  qed (use other [OF that] in simp)
  show "as_inv s' R"
  proof (rule as_invI [OF f(1)])
    show "g_total_pages (vpmm s') \<le> 2 ^ 40"
      using as_invD(2) [OF inv] by (simp add: s'_def)
  next
    fix Q q x assume a: "Q \<in> R" "upath q" "walk s' Q q = Some x"
    then have "walk s Q q = Some x" "\<not> (Q = P \<and> prefix (p @ [i]) q)"
      using w by blast+
    moreover from this have "x \<noteq> u"
      using as_invD(5) [OF inv a(1) P(1) a(2) P(3)] P(4) by auto
    ultimately show "x \<in> frames (vpmm s') \<and> x \<noteq> 0"
      using as_invD(3,4) [OF inv a(1,2)] f(2) by simp
  next
    fix Q Q' q q' x assume a: "Q \<in> R" "Q' \<in> R" "upath q" "upath q'" "walk s' Q q = Some x" "walk s' Q' q' = Some x"
    show "Q = Q' \<and> q = q'"
      using as_invD(5) [OF inv a(1-4)] w [OF a(1,3,5)] w [OF a(2,4,6)] by blast
  next
    fix Q q j x assume a: "Q \<in> R" "upath (q @ [j])" "walk s' Q q = Some x" "has (pmem s' x j) VMM_FLAG_PRESENT"
    then have "(x, j) \<noteq> (t, i)"
      by (auto simp: mem has_def)
    then show "\<not> huge (pmem s' x j)"
      using as_invD(6) [OF inv a(1,2)] w [OF a(1) upath_snocD(1) [OF a(2)] a(3)] a(4) same by simp
  qed
  show "leaf s' Q v = leaf s Q v" if h: "Q \<in> R" "v < VMM_USER_END" for Q v
  proof (cases "Q = P \<and> prefix (p @ [i]) (vpath v)")
    case True
    then obtain r where r: "vpath v = (p @ [i]) @ r"
      by (auto simp: prefix_def)
    have zero: "pmem s u j = 0" if "j < 512" for j
      using empty that by (simp add: table_empty_def list_all_iff)
    have "leaf s P v = 0"
    proof (cases "r = []")
      case True
      then show ?thesis
        using r P(4) zero index_bounds(4) by (simp add: leaf_def)
    next
      case False
      have "walk s P ((p @ [i]) @ r) = None"
        by (rule walk_dead [OF P(4) False]) (use zero vpath_upath [OF h(2)] r hd_in_set [OF False] in \<open>auto simp: upath_def\<close>)
      then show ?thesis
        using r by (simp add: leaf_def)
    qed
    moreover have "leaf s' P v = 0"
      using thru [of r] r by (simp add: leaf_def)
    ultimately show ?thesis
      using True by simp
  next
    case False
    note up = vpath_upath [OF h(2)]
    have "(x, pt_index v) \<noteq> (t, i)" if x: "walk s Q (vpath v) = Some x" for x
      using as_invD(5) [OF inv h(1) P(1) up p(1) x] P(2) p(2) by (auto simp: vpath_def)
    then show ?thesis
      using other [OF h(1) up False] same by (auto simp: leaf_def split: option.split)
  qed
qed

text \<open>The reclaiming loop, along a path to a table.\<close>

fun levels :: "vmm \<Rightarrow> nat \<Rightarrow> nat list \<Rightarrow> (nat \<times> nat \<times> nat) list" where
  "levels s P [] = []"
| "levels s P (i # is) = levels s (the (step s P i)) is @ [(the (step s P i), P, i)]"

lemma walk_Cons: "walk s P (i # is) = Option.bind (step s P i) (\<lambda>t. walk s t is)"
proof -
  have none: "foldl (\<lambda>r i. Option.bind r (\<lambda>u. step s u i)) None is = None" for "is"
    by (induction "is") simp_all
  show ?thesis
    by (simp add: walk_def none split: bind_split)
qed

lemma levels_snoc: "walk s P p = Some t \<Longrightarrow> levels s P (p @ [i]) = (the (step s t i), t, i) # levels s P p"
  by (induction p arbitrary: P) (auto simp: walk_Cons bind_eq_Some_conv)

lemma levels_cong:
  assumes "\<And>q i. prefix (q @ [i]) p \<Longrightarrow> walk s' P (q @ [i]) = walk s P (q @ [i])" and "walk s P p \<noteq> None"
  shows "levels s' P p = levels s P p"
  using assms
proof (induction p rule: rev_induct)
  case (snoc i p)
  have e: "walk s' P q = walk s P q" if "prefix q (p @ [i])" for q
    using snoc.prems(1) [of "butlast q" "last q"] that by (cases q rule: rev_cases) auto
  obtain t where t: "walk s P p = Some t"
    using snoc.prems(2) by (cases "walk s P p") auto
  have t': "walk s' P p = Some t"
    using e [of p] t by simp
  have "step s' t i = step s t i"
    using e [of "p @ [i]"] t t' by simp
  then show ?case
    using snoc.IH snoc.prems(1) t by (simp add: levels_snoc [OF t] levels_snoc [OF t'])
qed simp

lemma reclaim_spec:
  assumes "as_inv s R" and "P \<in> R" and "upath p" and "walk s P p \<noteq> None"
  shows "as_inv (reclaim (levels s P p) s) R" and "maps (reclaim (levels s P p) s) = maps s"
    and "frames (vpmm (reclaim (levels s P p) s)) \<subseteq> frames (vpmm s)"
    and "Q \<in> R \<Longrightarrow> v < VMM_USER_END \<Longrightarrow> leaf (reclaim (levels s P p) s) Q v = leaf s Q v"
proof -
  have "as_inv (reclaim (levels s P p) s) R \<and> maps (reclaim (levels s P p) s) = maps s \<and>
      frames (vpmm (reclaim (levels s P p) s)) \<subseteq> frames (vpmm s) \<and>
      (\<forall>Q v. Q \<in> R \<longrightarrow> v < VMM_USER_END \<longrightarrow> leaf (reclaim (levels s P p) s) Q v = leaf s Q v)"
    using assms
  proof (induction p arbitrary: s rule: rev_induct)
    case (snoc i p)
    obtain t u where t: "walk s P p = Some t" and u: "step s t i = Some u"
      using snoc.prems(4) by (cases "walk s P p") auto
    have w: "walk s P (p @ [i]) = Some u"
      using t u by simp
    let ?s = "pfree (frame_of (pmem s t i)) (set_entry t i 0 s)"
    show ?case
    proof (cases "table_empty u s")
      case True
      note rm = remove_table [OF snoc.prems(1,2) t snoc.prems(3) w True]
      have p: "upath p"
        using upath_snocD(1) [OF snoc.prems(3)] .
      have keep: "walk ?s P q = walk s P q" if "prefix q p" for q
      proof (rule rm(3) [OF snoc.prems(2)])
        show "upath q"
          using that p by (auto simp: upath_def prefix_def)
        show "\<not> (P = P \<and> prefix (p @ [i]) q)"
          using that prefix_order.trans [of "p @ [i]" q p] by auto
      qed
      have "levels ?s P p = levels s P p"
        using t by (intro levels_cong keep) auto
      moreover have "walk ?s P p \<noteq> None"
        using keep [of p] t by simp
      ultimately show ?thesis
        using snoc.IH [OF rm(1) snoc.prems(2) p] rm(2,4) True u by (auto simp: levels_snoc [OF t])
    next
      case False
      then show ?thesis
        using snoc.prems(1) u by (simp add: levels_snoc [OF t])
    qed
  qed simp
  then show "as_inv (reclaim (levels s P p) s) R" "maps (reclaim (levels s P p) s) = maps s"
    "frames (vpmm (reclaim (levels s P p) s)) \<subseteq> frames (vpmm s)"
    "Q \<in> R \<Longrightarrow> v < VMM_USER_END \<Longrightarrow> leaf (reclaim (levels s P p) s) Q v = leaf s Q v"
    by blast+
qed

text \<open>No table of the address spaces \<open>R\<close> lives in the frame \<open>a\<close>, which is allocated.\<close>

definition data_frame :: "vmm \<Rightarrow> nat set \<Rightarrow> nat \<Rightarrow> bool" where
  "data_frame s R a \<longleftrightarrow> a \<in> frames (vpmm s) \<and> a \<noteq> 0 \<and> (\<forall>Q \<in> R. \<forall>q. upath q \<longrightarrow> walk s Q q \<noteq> Some a)"

lemma levels_vpath:
  assumes "walk s P (vpath v) = Some pt"
  shows "levels s P (vpath v) =
    (let t1 = frame_of (pmem s P (pml4_index v)); t2 = frame_of (pmem s t1 (pdpt_index v));
         t3 = frame_of (pmem s t2 (pd_index v))
     in [(t3, t2, pd_index v), (t2, t1, pdpt_index v), (t1, P, pml4_index v)])"
  using assms by (auto simp: vpath_def walk_def step_def Let_def bind_eq_Some_conv split: if_splits)

lemma release_unfold:
  assumes inv: "as_inv s R" and sp: "space s mp P" "P \<in> R" "mp \<noteq> g_kernel_pagemap s" and v: "vmm_user_range v PAGE_SIZE"
  shows "vmm_release_user_page mp v s =
    (case walk s P (vpath v) of
       None \<Rightarrow> (True, s)
     | Some pt \<Rightarrow>
         if \<not> has (leaf s P v) VMM_FLAG_PRESENT then (True, s)
         else let s1 = set_entry pt (pt_index v) 0 s;
                  s2 = (if has (leaf s P v) VMM_FLAG_BORROWED then s1 else pfree (frame_of (leaf s P v)) s1)
              in (True, reclaim (levels s2 P (vpath v)) s2))"
proof (cases "walk s P (vpath v)")
  case None
  then show ?thesis
    using sp v by (simp add: vmm_release_user_page_def space_def user_leaf_walk)
next
  case (Some pt)
  let ?s1 = "set_entry pt (pt_index v) 0 s"
  let ?s2 = "if has (leaf s P v) VMM_FLAG_BORROWED then ?s1 else pfree (frame_of (leaf s P v)) ?s1"
  have vu: "v < VMM_USER_END"
    using v by (simp add: vmm_user_range_def)
  have "walk ?s2 P (vpath v) = Some pt"
    using write_leaf(2) [OF inv sp(2) Some vu sp(2) vpath_upath [OF vu], of 0] Some
    by (simp add: walk_cong [of "pfree _ _" ?s1])
  from levels_vpath [OF this] show ?thesis
    using sp v Some
    by (simp add: vmm_release_user_page_def space_def user_leaf_walk leaf_def Let_def
        del: reclaim.simps levels.simps set_entry_simps pfree_simps)
qed

lemma release_spec:
  assumes inv: "as_inv s R" and sp: "space s mp P" "P \<in> R" "mp \<noteq> g_kernel_pagemap s"
    and v: "vmm_user_range v PAGE_SIZE"
    and data: "has (leaf s P v) VMM_FLAG_PRESENT \<Longrightarrow> \<not> has (leaf s P v) VMM_FLAG_BORROWED \<Longrightarrow> data_frame s R (frame_of (leaf s P v))"
    and r: "vmm_release_user_page mp v s = (ok, s')"
  shows "ok \<and> as_inv s' R \<and> maps s' = maps s \<and>
    (\<forall>Q \<in> R. \<forall>w < VMM_USER_END. has (leaf s' Q w) VMM_FLAG_PRESENT \<longleftrightarrow>
       has (leaf s Q w) VMM_FLAG_PRESENT \<and> \<not> (Q = P \<and> w div PAGE_SIZE = v div PAGE_SIZE)) \<and>
    (\<forall>Q \<in> R. \<forall>w < VMM_USER_END. has (leaf s' Q w) VMM_FLAG_PRESENT \<longrightarrow> leaf s' Q w = leaf s Q w) \<and>
    (has (leaf s P v) VMM_FLAG_PRESENT \<and> \<not> has (leaf s P v) VMM_FLAG_BORROWED \<longrightarrow>
       frame_of (leaf s P v) \<notin> frames (vpmm s'))"
proof -
  let ?e = "leaf s P v"
  have vu: "v < VMM_USER_END"
    using v by (simp add: vmm_user_range_def)
  note g = release_unfold [OF inv sp v]
  show ?thesis
  proof (cases "has ?e VMM_FLAG_PRESENT")
    case False
    have e: "leaf s P w = ?e" if "w div PAGE_SIZE = v div PAGE_SIZE" for w
      using page_indices [OF that] by (simp add: leaf_def split: option.split)
    have "ok = True" "s' = s"
      using r unfolding g by (cases "walk s P (vpath v)"; simp only: option.case False simp_thms if_True prod.inject)+
    moreover have "has (leaf s Q w) VMM_FLAG_PRESENT \<longleftrightarrow>
        has (leaf s Q w) VMM_FLAG_PRESENT \<and> \<not> (Q = P \<and> w div PAGE_SIZE = v div PAGE_SIZE)" for Q w
      using e [of w] False by (metis (no_types))
    ultimately show ?thesis
      using inv False by simp
  next
    case True
    then obtain pt where pt: "walk s P (vpath v) = Some pt"
      by (auto simp: leaf_def has_def split: option.splits)
    define s1 where "s1 = set_entry pt (pt_index v) 0 s"
    define s2 where "s2 = (if has ?e VMM_FLAG_BORROWED then s1 else pfree (frame_of ?e) s1)"
    note wl = write_leaf [OF inv sp(2) pt vu, where e = 0, folded s1_def]
    have p2: "pmem s2 = pmem s1" "maps s2 = maps s" and v1: "vpmm s1 = vpmm s"
      by (simp_all add: s2_def s1_def)
    have d: "data_frame s1 R (frame_of ?e)" if "\<not> has ?e VMM_FLAG_BORROWED"
      using data [OF True that] wl(2) by (simp add: data_frame_def v1)
    have inv2: "as_inv s2 R"
      using free_data [OF wl(1), of "frame_of ?e"] d wl(1) by (auto simp: s2_def data_frame_def)
    have "walk s2 P (vpath v) = Some pt"
      using wl(2) [OF sp(2) vpath_upath [OF vu]] pt walk_cong [OF p2(1)] by simp
    then have "walk s2 P (vpath v) \<noteq> None"
      by simp
    note rc = reclaim_spec [OF inv2 sp(2) vpath_upath [OF vu] this]
    have s': "ok = True" "s' = reclaim (levels s2 P (vpath v)) s2"
      using r unfolding g s2_def s1_def pt
      by (simp_all only: option.case True not_True_eq_False if_False Let_def prod.inject)
    have l: "leaf s' Q w = (if Q = P \<and> w div PAGE_SIZE = v div PAGE_SIZE then 0 else leaf s Q w)"
      if "Q \<in> R" "w < VMM_USER_END" for Q w
      using rc(4) [OF that] wl(3) [OF that] leaf_cong [OF p2(1)] s'(2) by simp
    have "frame_of ?e \<notin> frames (vpmm s2)" if "\<not> has ?e VMM_FLAG_BORROWED"
      using that d [OF that] pf.release_owned [OF as_invD(1) [OF wl(1)], of "frame_of ?e"]
      by (simp add: data_frame_def s2_def)
    then have "frame_of ?e \<notin> frames (vpmm s')" if "\<not> has ?e VMM_FLAG_BORROWED"
      using that rc(3) s'(2) by blast
    moreover have "\<not> has 0 VMM_FLAG_PRESENT"
      by (simp add: has_def)
    ultimately show ?thesis
      using rc(1,2) s' l p2(2) by simp
  qed
qed

section \<open>Protection of ranges\<close>

definition update_leaf :: "nat \<Rightarrow> (u64 \<Rightarrow> u64) \<Rightarrow> nat \<Rightarrow> vmm \<Rightarrow> vmm" where
  "update_leaf P f v s =
     (case user_leaf P v s of None \<Rightarrow> s | Some (pt, l) \<Rightarrow> set_entry pt l (f (pmem s pt l)) s)"

lemma update_leaf_spec:
  assumes "as_inv s R" and "P \<in> R" and "v < VMM_USER_END" and "walk s P (vpath v) \<noteq> None"
  shows "as_inv (update_leaf P f v s) R" and "maps (update_leaf P f v s) = maps s"
    and "Q \<in> R \<Longrightarrow> upath q \<Longrightarrow> walk (update_leaf P f v s) Q q = walk s Q q"
    and "Q \<in> R \<Longrightarrow> w < VMM_USER_END \<Longrightarrow> leaf (update_leaf P f v s) Q w =
      (if Q = P \<and> w div PAGE_SIZE = v div PAGE_SIZE then f (leaf s P w) else leaf s Q w)"
proof -
  obtain pt where pt: "walk s P (vpath v) = Some pt"
    using assms(4) by auto
  have e: "update_leaf P f v s = set_entry pt (pt_index v) (f (leaf s P v)) s"
    by (simp add: update_leaf_def user_leaf_walk pt leaf_def)
  note wl = write_leaf [OF assms(1,2) pt assms(3), where e = "f (leaf s P v)", folded e]
  show "as_inv (update_leaf P f v s) R" "maps (update_leaf P f v s) = maps s"
    "Q \<in> R \<Longrightarrow> upath q \<Longrightarrow> walk (update_leaf P f v s) Q q = walk s Q q"
    using wl(1,2) by (simp_all add: e)
  have "leaf s P w = leaf s P v" if "w div PAGE_SIZE = v div PAGE_SIZE"
    using page_indices [OF that] by (simp add: leaf_def split: option.split)
  then show "Q \<in> R \<Longrightarrow> w < VMM_USER_END \<Longrightarrow> leaf (update_leaf P f v s) Q w =
      (if Q = P \<and> w div PAGE_SIZE = v div PAGE_SIZE then f (leaf s P w) else leaf s Q w)"
    using wl(3) [of Q w] by auto
qed

lemma update_leaves_spec:
  assumes "as_inv s R" and "P \<in> R" and "\<And>v. v \<in> set vs \<Longrightarrow> v < VMM_USER_END \<and> walk s P (vpath v) \<noteq> None"
    and "distinct (map (\<lambda>v. v div PAGE_SIZE) vs)"
  shows "as_inv (fold (update_leaf P f) vs s) R \<and> maps (fold (update_leaf P f) vs s) = maps s \<and>
    (\<forall>Q \<in> R. \<forall>w < VMM_USER_END. leaf (fold (update_leaf P f) vs s) Q w =
       (if Q = P \<and> w div PAGE_SIZE \<in> (\<lambda>v. v div PAGE_SIZE) ` set vs then f (leaf s P w) else leaf s Q w))"
  using assms
proof (induction vs arbitrary: s)
  case (Cons v vs)
  let ?s = "update_leaf P f v s"
  have v: "v < VMM_USER_END" "walk s P (vpath v) \<noteq> None"
    using Cons.prems(3) by simp_all
  note u = update_leaf_spec [OF Cons.prems(1,2) v]
  have "w < VMM_USER_END \<and> walk ?s P (vpath w) \<noteq> None" if "w \<in> set vs" for w
    using Cons.prems(3) [of w] that u(3) [OF Cons.prems(2) vpath_upath] by simp
  moreover have new: "v div PAGE_SIZE \<notin> (\<lambda>v. v div PAGE_SIZE) ` set vs" and "distinct (map (\<lambda>v. v div PAGE_SIZE) vs)"
    using Cons.prems(4) by auto
  ultimately have ih: "as_inv (fold (update_leaf P f) vs ?s) R" "maps (fold (update_leaf P f) vs ?s) = maps ?s"
      "\<And>Q w. Q \<in> R \<Longrightarrow> w < VMM_USER_END \<Longrightarrow> leaf (fold (update_leaf P f) vs ?s) Q w =
        (if Q = P \<and> w div PAGE_SIZE \<in> (\<lambda>v. v div PAGE_SIZE) ` set vs then f (leaf ?s P w) else leaf ?s Q w)"
    using Cons.IH [OF u(1) Cons.prems(2)] by blast+
  have "leaf (fold (update_leaf P f) vs ?s) Q w =
      (if Q = P \<and> w div PAGE_SIZE \<in> insert (v div PAGE_SIZE) ((\<lambda>v. v div PAGE_SIZE) ` set vs)
       then f (leaf s P w) else leaf s Q w)" if "Q \<in> R" "w < VMM_USER_END" for Q w
    using ih(3) [OF that] u(4) [OF that] u(4) [OF Cons.prems(2) that(2)] new
    by (cases "w div PAGE_SIZE = v div PAGE_SIZE"; cases "Q = P") simp_all
  then show ?case
    using ih(1,2) u(2) by simp
qed simp

text \<open>The pages a range of bytes touches.\<close>

lemma range_pages:
  assumes "0 < sz" and "v + sz + PAGE_SIZE \<le> 2 ^ 64"
  shows "(\<lambda>k. (ALIGN_DOWN v PAGE_SIZE + k * PAGE_SIZE) div PAGE_SIZE) ` {0..<(ALIGN_UP (v + sz) PAGE_SIZE - ALIGN_DOWN v PAGE_SIZE) div PAGE_SIZE}
    = {v div PAGE_SIZE..(v + sz - 1) div PAGE_SIZE}"
proof -
  have d: "ALIGN_DOWN v PAGE_SIZE = v div PAGE_SIZE * PAGE_SIZE"
    by (simp only: ALIGN_DOWN_def minus_mod_eq_div_mult)
  have "ALIGN_UP (v + sz) PAGE_SIZE = (v + sz + PAGE_SIZE - 1) div PAGE_SIZE * PAGE_SIZE"
    using assms(2) by (intro ALIGN_UP_eq) (simp_all add: PAGE_SIZE_def)
  also have "v + sz + PAGE_SIZE - 1 = v + sz - 1 + PAGE_SIZE"
    using assms(1) by simp
  also have "(v + sz - 1 + PAGE_SIZE) div PAGE_SIZE = (v + sz - 1) div PAGE_SIZE + 1"
    by (rule div_add_self2) simp
  finally have u: "ALIGN_UP (v + sz) PAGE_SIZE = ((v + sz - 1) div PAGE_SIZE + 1) * PAGE_SIZE" .
  have le: "v div PAGE_SIZE \<le> (v + sz - 1) div PAGE_SIZE"
    using assms(1) by (intro div_le_mono) simp
  have "(ALIGN_UP (v + sz) PAGE_SIZE - ALIGN_DOWN v PAGE_SIZE) div PAGE_SIZE = (v + sz - 1) div PAGE_SIZE + 1 - v div PAGE_SIZE"
    unfolding u d by (simp only: diff_mult_distrib [symmetric] page_addr_div)
  moreover have "(ALIGN_DOWN v PAGE_SIZE + k * PAGE_SIZE) div PAGE_SIZE = v div PAGE_SIZE + k" for k
    unfolding d by (simp only: add_mult_distrib [symmetric] page_addr_div)
  moreover have "(\<lambda>k. a + k) ` {0..<b + 1 - a} = {a..b}" if "a \<le> b" for a b :: nat
  proof (rule set_eqI)
    fix x
    have "x \<in> {a..b} \<Longrightarrow> x - a \<in> {0..<b + 1 - a} \<and> x = a + (x - a)"
      by auto
    then show "x \<in> (\<lambda>k. a + k) ` {0..<b + 1 - a} \<longleftrightarrow> x \<in> {a..b}"
      using that by force
  qed
  ultimately show ?thesis
    using le by (simp only:)
qed

definition range_flags :: "u64 \<Rightarrow> u64 \<Rightarrow> u64" where
  "range_flags flags e =
     (e AND (PHYS_ADDR_MASK OR VMM_FLAG_BORROWED OR VMM_FLAG_WRITE_THROUGH OR VMM_FLAG_CACHE_DISABLE OR 0x80))
       OR flags OR VMM_FLAG_PRESENT"

definition range_list :: "nat \<Rightarrow> nat \<Rightarrow> nat list" where
  "range_list v sz = map (\<lambda>k. ALIGN_DOWN v PAGE_SIZE + k * PAGE_SIZE)
     [0..<(ALIGN_UP (v + sz) PAGE_SIZE - ALIGN_DOWN v PAGE_SIZE) div PAGE_SIZE]"

lemma set_range_flags_unfold:
  assumes "space s mp P" and "0 < sz" and "vmm_user_range v sz"
  shows "vmm_set_range_flags mp v sz flags s =
    (if list_all (\<lambda>w. has (leaf s P w) VMM_FLAG_PRESENT) (range_list v sz)
     then (True, fold (update_leaf P (range_flags flags)) (range_list v sz) s) else (False, s))"
proof -
  have "(case user_leaf P w s of None \<Rightarrow> False | Some (pt, l) \<Rightarrow> has (pmem s pt l) VMM_FLAG_PRESENT) \<longleftrightarrow>
      has (leaf s P w) VMM_FLAG_PRESENT" for w
    by (simp add: user_leaf_walk leaf_def has_def split: option.split)
  moreover have "(\<lambda>v s. case user_leaf P v s of None \<Rightarrow> s
      | Some (pt, l) \<Rightarrow> set_entry pt l ((pmem s pt l AND
          (PHYS_ADDR_MASK OR VMM_FLAG_BORROWED OR VMM_FLAG_WRITE_THROUGH OR VMM_FLAG_CACHE_DISABLE OR 0x80))
            OR flags OR VMM_FLAG_PRESENT) s) = update_leaf P (range_flags flags)"
    by (rule ext)+ (simp add: update_leaf_def range_flags_def split: option.split)
  ultimately show ?thesis
    using assms unfolding vmm_set_range_flags_def space_def Let_def range_list_def by simp
qed

lemma range_list_props:
  assumes "0 < sz" and "vmm_user_range v sz"
  shows "(\<lambda>w. w div PAGE_SIZE) ` set (range_list v sz) = {v div PAGE_SIZE..(v + sz - 1) div PAGE_SIZE}"
    and "distinct (map (\<lambda>w. w div PAGE_SIZE) (range_list v sz))"
    and "w \<in> set (range_list v sz) \<Longrightarrow> w < VMM_USER_END"
proof -
  have le: "v + sz \<le> VMM_USER_END"
    using assms(2) by (auto simp: vmm_user_range_def)
  then have "v + sz + PAGE_SIZE \<le> 2 ^ 64"
    by (simp add: VMM_USER_END_def PAGE_SIZE_def)
  note pages = range_pages [OF assms(1) this]
  then show img: "(\<lambda>w. w div PAGE_SIZE) ` set (range_list v sz) = {v div PAGE_SIZE..(v + sz - 1) div PAGE_SIZE}"
    by (simp add: range_list_def image_image)
  have d: "ALIGN_DOWN v PAGE_SIZE = v div PAGE_SIZE * PAGE_SIZE"
    by (simp only: ALIGN_DOWN_def minus_mod_eq_div_mult)
  have pg: "(ALIGN_DOWN v PAGE_SIZE + k * PAGE_SIZE) div PAGE_SIZE = v div PAGE_SIZE + k" for k
    unfolding d by (simp only: add_mult_distrib [symmetric] page_addr_div)
  then show "distinct (map (\<lambda>w. w div PAGE_SIZE) (range_list v sz))"
    by (simp add: range_list_def comp_def distinct_map inj_on_def)
  show "w < VMM_USER_END" if w: "w \<in> set (range_list v sz)"
  proof -
    obtain k where k: "w = ALIGN_DOWN v PAGE_SIZE + k * PAGE_SIZE"
      using w by (auto simp: range_list_def)
    have "w = w div PAGE_SIZE * PAGE_SIZE"
      unfolding k pg d by (simp add: add_mult_distrib)
    moreover have "w div PAGE_SIZE \<le> (v + sz - 1) div PAGE_SIZE"
      using img w by (metis atLeastAtMost_iff imageI)
    ultimately have "w \<le> (v + sz - 1) div PAGE_SIZE * PAGE_SIZE"
      by (metis mult_le_mono1)
    also have "\<dots> \<le> v + sz - 1"
      by simp
    finally show ?thesis
      using le assms(1) by simp
  qed
qed

text \<open>An accepted walk of \<open>vmm_user_access\<close> finds a leaf that grants everything required.\<close>

lemma access_walk_leaf:
  assumes "access_walk [39, 30, 21, 12] r P v s" and "VMM_FLAG_PRESENT AND r = VMM_FLAG_PRESENT"
  shows "leaf s P v AND r = r"
proof -
  have p: "has e VMM_FLAG_PRESENT" if "e AND r = r" for e
  proof -
    have "e AND VMM_FLAG_PRESENT = VMM_FLAG_PRESENT"
      using that assms(2) by (metis and.assoc and.commute)
    then show ?thesis
      by (simp add: has_def VMM_FLAG_PRESENT_def)
  qed
  show ?thesis
    using assms(1) p
    by (auto simp: Let_def leaf_def walk_def vpath_def step_def pml4_index_def pdpt_index_def pd_index_def pt_index_def
        split: if_splits)
qed

lemma as_inv_mono: "as_inv s R \<Longrightarrow> T \<subseteq> R \<Longrightarrow> as_inv s T"
  unfolding as_inv_def by (meson subsetD)

text \<open>The root of one address space is a data frame to the others.\<close>

lemma root_data_frame:
  assumes "as_inv s R" and "a \<in> R" and "T \<subseteq> R - {a}"
  shows "data_frame s T a"
proof -
  have "walk s Q q \<noteq> Some a" if "Q \<in> T" "upath q" for Q q
    using as_invD(5) [OF assms(1) _ assms(2) that(2) upath_Nil, of Q a] that(1) assms(3) by auto
  then show ?thesis
    using as_invD(3,4) [OF assms(1,2) upath_Nil walk_Nil] by (simp add: data_frame_def)
qed

section \<open>A small machine\<close>

text \<open>
  Eight page frames, of which 0, 1 and 7 are in use: an empty address space has its root in frame 1,
  frame 7 holds data.
\<close>

definition eight_pages :: pmm where
  "eight_pages = \<lparr>g_pmm_bitmap = (\<lambda>_. 0x83), g_total_pages = 8, g_used_pages = 3,
     g_last_page_idx = 0, g_hhdm_offset = 0\<rparr>"

definition vm_demo :: vmm where
  "vm_demo = \<lparr>pmem = (\<lambda>_ _. 0), maps = (\<lambda>_. \<lparr>pml4_virt = Some 4096, pml4_phys = 4096\<rparr>), g_kernel_pagemap = 8,
     vheap = \<lparr>hmem = (\<lambda>_. \<lparr>magic = 0, is_free = 0, size = 0, bnext = 0, bprev = 0\<rparr>), hdata = (\<lambda>_. 0),
       g_heap_head = 0, g_heap_allocated_bytes = 0, g_heap_total_bytes = 0, hpmm = eight_pages, g_hhdm_base = 0\<rparr>\<rparr>"

lemma eight_pages_inv: "pmm_inv eight_pages"
  by (simp add: pmm_inv_def pmm_count_ok_def used_set_code bitmap_test_def eight_pages_def upt_rec)

lemma eight_pages_frames: "4096 \<in> frames eight_pages" "28672 \<in> frames eight_pages"
  by (simp_all add: frames_iff used_set_def bitmap_test_def eight_pages_def PAGE_SIZE_def)

lemma vm_demo_walk: "walk vm_demo P p = Some t \<longleftrightarrow> p = [] \<and> t = P"
  using walk_dead [of vm_demo P "[]" P p] by (cases "p = []") (auto simp: vm_demo_def)

lemma vm_demo_inv: "as_inv vm_demo {4096, 28672}"
proof -
  have v: "vpmm vm_demo = eight_pages"
    by (simp add: vm_demo_def)
  have "pmem vm_demo t i = 0" for t i
    by (simp add: vm_demo_def)
  then show ?thesis
    using eight_pages_inv eight_pages_frames
    by (intro as_invI) (auto simp: v vm_demo_walk has_def eight_pages_def)
qed

lemma vm_demo_space: "space vm_demo 16 4096"
  by (simp add: space_def vm_demo_def)

lemma vm_demo_allocs:
  "pmm_alloc_page eight_pages = (8192, take_page 2 eight_pages)"
  "pmm_alloc_page (take_page 2 eight_pages) = (12288, take_page 3 (take_page 2 eight_pages))"
  "pmm_alloc_page (take_page 3 (take_page 2 eight_pages)) =
     (16384, take_page 4 (take_page 3 (take_page 2 eight_pages)))"
  by (simp_all add: pmm_alloc_page_def eight_pages_def take_page_def mark_used_def upt_rec bitmap_set_def
      bitmap_test_def add64_def mul64_def PAGE_SIZE_def)

lemma next_level_empty:
  assumes "pmem s t i = 0" and "pmm_alloc_page (vpmm s) = (f, p)" and "f \<noteq> 0"
  shows "get_next_level t i lvl True fl s = (Some f,
    set_entry t i (of_nat f OR fl OR VMM_FLAG_PRESENT OR VMM_FLAG_WRITABLE) (set_page f (\<lambda>_. 0) (set_vpmm p s)))"
  using assms by (simp add: get_next_level_def palloc_def has_def)

lemma vm_demo_map:
  obtains s where "vmm_map_page 16 0x400000 28672 6 vm_demo = (True, s)"
proof -
  have z: "pmem vm_demo t i = 0" "vpmm vm_demo = eight_pages" for t i
    by (simp_all add: vm_demo_def)
  have r: "vmm_user_range 0x400000 PAGE_SIZE"
    by (simp add: vmm_user_range_def PAGE_SIZE_def VMM_USER_END_def)
  have "fst (vmm_map_page 16 0x400000 28672 6 vm_demo)"
    using vm_demo_space r
    by (simp add: vmm_map_page_def space_def create_pt_def next_level_empty z vm_demo_allocs Let_def)
  then show thesis
    using that by (metis (full_types) prod.collapse)
qed

section \<open>Properties\<close>

text \<open>
  C7: \<open>vmm_map_page\<close> and \<open>vmm_unmap_page\<close> refine an update of the abstract address space. Whatever
  tables have to be created on the way, a successful mapping changes the entry of exactly that
  virtual page of exactly that address space, an unmapping clears it, and no other page of this or
  any other address space changes; a failing mapping changes no page and only happens when the page
  allocator is exhausted. The trees stay well formed.
\<close>

theorem vmm_map_page_refines:
  assumes "as_inv s R" and "space s mp P" and "P \<in> R" and "vmm_user_range v PAGE_SIZE"
  shows "(\<forall>ok s'. vmm_map_page mp v phys flags s = (ok, s') \<longrightarrow> as_inv s' R \<and>
      (\<forall>Q \<in> R. \<forall>w < VMM_USER_END. leaf s' Q w =
         (if ok \<and> Q = P \<and> w div PAGE_SIZE = v div PAGE_SIZE
          then of_nat (ALIGN_DOWN phys PAGE_SIZE) OR flags OR VMM_FLAG_PRESENT else leaf s Q w)) \<and>
      (\<not> ok \<longrightarrow> fst (pmm_alloc_page (vpmm s')) = 0)) \<and>
    (\<forall>ok s'. vmm_unmap_page mp v s = (ok, s') \<longrightarrow> as_inv s' R \<and>
      (\<forall>Q \<in> R. \<forall>w < VMM_USER_END. leaf s' Q w =
         (if Q = P \<and> w div PAGE_SIZE = v div PAGE_SIZE then 0 else leaf s Q w)))"
proof -
  have "v < VMM_USER_END"
    using assms(4) by (simp add: vmm_user_range_def)
  then show ?thesis
    using map_page_spec [OF assms] unmap_page_spec [OF assms(1-3)] by blast
qed

lemma vm_demo_range: "vmm_user_range 0x400000 PAGE_SIZE"
  by (simp add: vmm_user_range_def PAGE_SIZE_def VMM_USER_END_def)

theorem vmm_map_page_refines_witness:
  "\<exists>s'. vmm_map_page 16 0x400000 28672 6 vm_demo = (True, s') \<and> leaf s' 4096 0x400123 = 28679 \<and> leaf s' 4096 0x401000 = 0"
proof -
  obtain s' where s': "vmm_map_page 16 0x400000 28672 6 vm_demo = (True, s')"
    by (rule vm_demo_map)
  have l: "leaf vm_demo 4096 w = 0" for w
    by (simp add: leaf_def vm_demo_def split: option.split)
  have "\<forall>w < VMM_USER_END. leaf s' 4096 w = (if w div PAGE_SIZE = 0x400000 div PAGE_SIZE
      then of_nat (ALIGN_DOWN 28672 PAGE_SIZE) OR 6 OR VMM_FLAG_PRESENT else 0)"
    using vmm_map_page_refines [OF vm_demo_inv vm_demo_space _ vm_demo_range, of 28672 6] s' by (auto simp: l)
  then show ?thesis
    using s' by (simp add: VMM_USER_END_def PAGE_SIZE_def ALIGN_DOWN_def VMM_FLAG_PRESENT_def)
qed

text \<open>
  what is mapped is what is translated. After a successful \<open>vmm_map_page\<close> of a page-aligned
  frame, \<open>vmm_virt_to_phys\<close> takes every address of the page to the same offset in the frame, and
  \<open>vmm_user_page_phys\<close> does so exactly when the flags allow the access.
\<close>

theorem vmm_map_page_translates:
  assumes "as_inv s R" and "space s mp P" and "P \<in> R" and "vmm_user_range v PAGE_SIZE"
    and "2 ^ 12 dvd phys" and "phys < 2 ^ 52" and "flags AND PHYS_ADDR_MASK = 0"
    and "vmm_map_page mp v phys flags s = (True, s')" and "w div PAGE_SIZE = v div PAGE_SIZE"
  shows "vmm_virt_to_phys mp w s' = phys + w mod 4096 \<and>
    vmm_user_page_phys mp w wr s' =
      (if bit flags 2 \<and> (wr \<longrightarrow> bit flags 1) then phys + w mod 4096 else 0)"
proof -
  note spec = map_page_spec [OF assms(1-4,8)]
  have w: "w < VMM_USER_END"
  proof -
    have "v < VMM_USER_END" "VMM_USER_END = 2 ^ 35 * PAGE_SIZE"
      using assms(4) by (simp_all add: vmm_user_range_def VMM_USER_END_def PAGE_SIZE_def)
    then have "w div PAGE_SIZE < 2 ^ 35"
      using assms(9) by (simp add: less_mult_imp_div_less)
    then show ?thesis
      by (simp add: VMM_USER_END_def PAGE_SIZE_def)
  qed
  define e where "e = of_nat phys OR (flags OR VMM_FLAG_PRESENT)"
  have a: "ALIGN_DOWN phys PAGE_SIZE = phys"
    using assms(5) by (simp add: ALIGN_DOWN_def PAGE_SIZE_def dvd_eq_mod_eq_0)
  have leaf: "leaf s' P w = e"
    using spec assms(3,9) w a by (simp add: e_def or.assoc)
  have "(flags OR VMM_FLAG_PRESENT) AND PHYS_ADDR_MASK = 0"
    using assms(7) by (simp add: VMM_FLAG_PRESENT_def PHYS_ADDR_MASK_def bit.conj_disj_distrib2)
  then have f: "frame_of e = phys"
    unfolding e_def by (rule frame_of_or [OF assms(5,6)])
  have h: "has e VMM_FLAG_PRESENT" "has e VMM_FLAG_USER \<longleftrightarrow> bit flags 2" "has e VMM_FLAG_WRITABLE \<longleftrightarrow> bit flags 1"
    using aligned_bit [OF assms(5), of 1] aligned_bit [OF assms(5), of 2]
    by (auto simp: e_def entry_flags bit_or_iff flag_bits)
  have sp: "space s' mp P"
    using assms(2) spec by (simp add: space_def)
  have "as_inv s' R"
    using spec by blast
  then show ?thesis
    using virt_to_phys_leaf [OF _ sp assms(3) w] user_page_phys_leaf [OF sp w] by (auto simp: leaf f h Let_def)
qed

theorem vmm_map_page_translates_witness:
  "\<exists>s'. vmm_map_page 16 0x400000 28672 6 vm_demo = (True, s') \<and> vmm_virt_to_phys 16 0x400123 s' = 0x7123 \<and>
     vmm_user_page_phys 16 0x400123 True s' = 0x7123"
proof -
  obtain s' where s': "vmm_map_page 16 0x400000 28672 6 vm_demo = (True, s')"
    by (rule vm_demo_map)
  have "(2::nat) ^ 12 dvd 28672" "(28672::nat) < 2 ^ 52" "6 AND PHYS_ADDR_MASK = 0"
    "0x400123 div PAGE_SIZE = 0x400000 div PAGE_SIZE" "bit (6 :: u64) 1" "bit (6 :: u64) 2"
    by (simp_all add: PHYS_ADDR_MASK_def PAGE_SIZE_def)
  then show ?thesis
    using vmm_map_page_translates [OF vm_demo_inv vm_demo_space _ vm_demo_range _ _ _ s', where w = "0x400123" and wr = True] s' by simp
qed


text \<open>The small machine with the data frame mapped.\<close>

lemma vm_demo_mapped:
  assumes "vmm_map_page 16 0x400000 28672 6 vm_demo = (True, s)"
  shows "as_inv s {4096, 28672}" and "space s 16 4096" and "16 \<noteq> g_kernel_pagemap s" and "leaf s 4096 0x400000 = 28679"
    and "w < VMM_USER_END \<Longrightarrow> w div PAGE_SIZE \<noteq> 1024 \<Longrightarrow> leaf s 4096 w = 0"
proof -
  have l: "leaf vm_demo 4096 w = 0" for w
    by (simp add: leaf_def vm_demo_def split: option.split)
  note m = map_page_spec [OF vm_demo_inv vm_demo_space _ vm_demo_range assms]
  then show "as_inv s {4096, 28672}" "space s 16 4096" "16 \<noteq> g_kernel_pagemap s"
    using vm_demo_space by (auto simp: space_def vm_demo_def)
  show "leaf s 4096 0x400000 = 28679" "w < VMM_USER_END \<Longrightarrow> w div PAGE_SIZE \<noteq> 1024 \<Longrightarrow> leaf s 4096 w = 0"
    using m by (simp_all add: l VMM_USER_END_def PAGE_SIZE_def ALIGN_DOWN_def VMM_FLAG_PRESENT_def)
qed


text \<open>
  C34: changing the protection of a range is all or nothing. If some page of the range is not
  present, \<open>vmm_set_range_flags\<close> returns false and changes nothing; otherwise it changes exactly
  the pages the range touches, keeping frame, ownership and caching bits.
\<close>

theorem vmm_set_range_flags_atomic:
  assumes "as_inv s R" and "space s mp P" and "P \<in> R" and "0 < sz" and "vmm_user_range v sz"
    and "vmm_set_range_flags mp v sz flags s = (ok, s')"
  shows "(ok \<longleftrightarrow> (\<forall>w \<in> set (range_list v sz). has (leaf s P w) VMM_FLAG_PRESENT)) \<and> (\<not> ok \<longrightarrow> s' = s) \<and>
    (ok \<longrightarrow> as_inv s' R \<and> (\<forall>Q \<in> R. \<forall>w < VMM_USER_END. leaf s' Q w =
       (if Q = P \<and> w div PAGE_SIZE \<in> {v div PAGE_SIZE..(v + sz - 1) div PAGE_SIZE}
        then range_flags flags (leaf s P w) else leaf s Q w)))"
proof (cases "list_all (\<lambda>w. has (leaf s P w) VMM_FLAG_PRESENT) (range_list v sz)")
  case True
  then have ok: "ok = True" "s' = fold (update_leaf P (range_flags flags)) (range_list v sz) s"
    using assms(6) by (simp_all add: set_range_flags_unfold [OF assms(2,4,5)])
  note rl = range_list_props [OF assms(4,5)]
  have "w < VMM_USER_END \<and> walk s P (vpath w) \<noteq> None" if "w \<in> set (range_list v sz)" for w
    using True that rl(3) by (auto simp: list_all_iff leaf_def has_def split: option.splits)
  from update_leaves_spec [OF assms(1,3) this rl(2), of "range_flags flags"] show ?thesis
    using True unfolding rl(1) ok by (simp add: list_all_iff)
next
  case False
  then have "ok = False" "s' = s"
    using assms(6) by (simp_all only: set_range_flags_unfold [OF assms(2,4,5)] if_False prod.inject)
  then show ?thesis
    using False by (simp add: list_all_iff)
qed

theorem vmm_set_range_flags_atomic_witness:
  "\<exists>s s'. as_inv s {4096, 28672} \<and> vmm_set_range_flags 16 0x400000 16 4 s = (True, s') \<and> leaf s' 4096 0x400000 = 28677"
proof -
  obtain s where s: "vmm_map_page 16 0x400000 28672 6 vm_demo = (True, s)"
    by (rule vm_demo_map)
  note m = vm_demo_mapped [OF s]
  obtain ok s' where r: "vmm_set_range_flags 16 0x400000 16 4 s = (ok, s')"
    by fastforce
  have u: "vmm_user_range 0x400000 16"
    by (simp add: vmm_user_range_def PAGE_SIZE_def VMM_USER_END_def)
  have "range_list 0x400000 16 = [0x400000]"
    by (simp add: range_list_def ALIGN_DOWN_def ALIGN_UP_def add64_def PAGE_SIZE_def)
  moreover have "has 28679 VMM_FLAG_PRESENT" "(0x400000::nat) < VMM_USER_END" "range_flags 4 28679 = 28677"
    by (simp_all add: has_def VMM_FLAG_PRESENT_def VMM_USER_END_def range_flags_def PHYS_ADDR_MASK_def
        VMM_FLAG_BORROWED_def VMM_FLAG_WRITE_THROUGH_def VMM_FLAG_CACHE_DISABLE_def)
  moreover have "0x400000 div PAGE_SIZE \<in> {0x400000 div PAGE_SIZE..(0x400000 + 16 - 1) div PAGE_SIZE}"
    by (simp add: PAGE_SIZE_def)
  ultimately show ?thesis
    using vmm_set_range_flags_atomic [OF m(1,2) _ _ u r] m(1,4) r by auto
qed



end
