(* ===== verification/Usercopy.thy ===== *)
theory Usercopy
  imports Vmm Kstring Sched
begin

text \<open>
  Copying between the kernel and a process, \<^verbatim>\<open>kernel/src/mm/usercopy.c\<close>. The process comes
  from the scheduler's state \<open>b\<close>, its page tables from the virtual memory \<open>vs\<close>, which copying leaves
  alone; the bytes, of kernel buffers and of user pages seen through the direct map, are in \<open>m\<close>.
  Sums of a user address and an offset are plain because the range has been checked not to wrap.
\<close>

section \<open>Operations\<close>

definition USER_ADDR_MAX :: nat where
  "USER_ADDR_MAX = 0x7FFFFFFFFFFF"

definition valid_user_range :: "nat \<Rightarrow> nat \<Rightarrow> bool" where
  "valid_user_range addr len =
     (if len = 0 then True
      else if add64 addr len < addr then False
      else if addr > USER_ADDR_MAX \<or> sub64 (add64 addr len) 1 > USER_ADDR_MAX then False
      else True)"

function do_copy_from :: "vmm \<Rightarrow> nat \<Rightarrow> nat \<Rightarrow> nat \<Rightarrow> nat \<Rightarrow> bool \<Rightarrow> nat \<Rightarrow> mem \<Rightarrow> bool \<times> mem" where
  "do_copy_from vs pm kernel_buf user_addr len to_user copd m =
     (if copd < len
      then let current_addr = user_addr + copd;
               page_offset = current_addr mod PAGE_SIZE;
               chunk = min (PAGE_SIZE - page_offset) (len - copd);
               phys = vmm_user_page_phys pm current_addr to_user vs
           in if phys = 0 then (False, m)
              else let hhdm_ptr = phys + g_hhdm_base (vheap vs)
                   in do_copy_from vs pm kernel_buf user_addr len to_user (copd + chunk)
                        (if to_user then memcpy hhdm_ptr (kernel_buf + copd) chunk m
                         else memcpy (kernel_buf + copd) hhdm_ptr chunk m)
      else (True, m))"
  by auto
termination
proof (relation "measure (\<lambda>(vs, pm, kb, ua, len, w, copd, m). len - copd)", goal_cases)
  case (2 vs pm kb ua len w copd m ca off chunk phys h)
  have "(ua + copd) mod PAGE_SIZE < PAGE_SIZE"
    by simp
  then have "0 < chunk"
    using 2 by (simp add: min_def)
  then show ?case
    using 2(1) by simp
qed simp

declare do_copy_from.simps [simp del]

definition do_copy :: "vmm \<Rightarrow> nat \<Rightarrow> nat \<Rightarrow> nat \<Rightarrow> nat \<Rightarrow> bool \<Rightarrow> mem \<Rightarrow> bool \<times> mem" where
  "do_copy vs pm kernel_buf user_addr len to_user m =
     (if len = 0 then (True, m)
      else if kernel_buf = 0 \<or> pm = 0 then (False, m)
      else if \<not> valid_user_range user_addr len then (False, m)
      else do_copy_from vs pm kernel_buf user_addr len to_user 0 m)"

text \<open>The pagemap of the current process, 0 when there is no process or it has none.\<close>

definition current_pagemap :: "nat \<Rightarrow> sys \<Rightarrow> nat" where
  "current_pagemap cpu b = (case sched_get_current_process cpu b of None \<Rightarrow> 0 | Some p \<Rightarrow> pagemap (prc b p))"

definition copy_from_user :: "nat \<Rightarrow> sys \<Rightarrow> vmm \<Rightarrow> nat \<Rightarrow> nat \<Rightarrow> nat \<Rightarrow> mem \<Rightarrow> bool \<times> mem" where
  "copy_from_user cpu b vs dst user_src len m =
     (let pm = current_pagemap cpu b in if pm = 0 then (False, m) else do_copy vs pm dst user_src len False m)"

definition copy_to_user :: "nat \<Rightarrow> sys \<Rightarrow> vmm \<Rightarrow> nat \<Rightarrow> nat \<Rightarrow> nat \<Rightarrow> mem \<Rightarrow> bool \<times> mem" where
  "copy_to_user cpu b vs user_dst src len m =
     (let pm = current_pagemap cpu b in if pm = 0 then (False, m) else do_copy vs pm src user_dst len True m)"

text \<open>The inner loop of \<open>copy_string_from_user\<close>; \<open>Some\<close> is its \<open>return\<close>.\<close>

fun string_page :: "nat \<Rightarrow> nat \<Rightarrow> nat \<Rightarrow> nat \<Rightarrow> nat \<Rightarrow> mem \<Rightarrow> nat option \<times> nat \<times> mem" where
  "string_page 0 src dst i max_len m = (None, i, m)"
| "string_page (Suc remaining) src dst i max_len m =
     (if i < max_len - 1
      then let c = m src; m1 = m(dst + i := c)
           in if c = 0 then (Some i, i, m1) else string_page remaining (src + 1) dst (i + 1) max_len m1
      else (None, i, m))"

lemma string_page_mono: "string_page r src dst i mx m = (q, j, m') \<Longrightarrow> i \<le> j \<and> j \<le> max i (mx - 1)"
  by (induction r src dst i mx m rule: string_page.induct) (fastforce simp: Let_def split: if_splits)+

lemma string_page_progress:
  assumes "string_page r src dst i mx m = (None, j, m')" and "0 < r" and "i < mx - 1"
  shows "i < j"
  using assms string_page_mono [of "r - 1" "src + 1" dst "i + 1" mx "m(dst + i := m src)" None j m']
  by (cases r) (auto simp: Let_def split: if_splits)

function string_from :: "vmm \<Rightarrow> nat \<Rightarrow> nat \<Rightarrow> nat \<Rightarrow> nat \<Rightarrow> nat \<Rightarrow> mem \<Rightarrow> int \<times> mem" where
  "string_from vs pm dst user_src max_len i m =
     (if i < max_len - 1
      then let addr = user_src + i in
        if addr > USER_ADDR_MAX then (-1, m)
        else let phys = vmm_user_page_phys pm addr False vs in
          if phys = 0 then (-1, m)
          else (case string_page (PAGE_SIZE - addr mod PAGE_SIZE) (phys + g_hhdm_base (vheap vs)) dst i max_len m of
                  (Some r, _, m1) \<Rightarrow> (int r, m1)
                | (None, j, m1) \<Rightarrow> string_from vs pm dst user_src max_len j m1)
      else (-1, m(dst + (max_len - 1) := 0)))"
  by auto
termination
proof (relation "measure (\<lambda>(vs, pm, dst, us, mx, i, m). mx - 1 - i)", goal_cases)
  case (2 vs pm dst us mx i m addr phys x y j m1)
  have "string_page (PAGE_SIZE - addr mod PAGE_SIZE) (phys + g_hhdm_base (vheap vs)) dst i mx m = (None, j, m1)"
    using 2 by simp
  then have "i < j"
    by (rule string_page_progress) (use 2(1) in simp_all)
  then show ?case
    using 2(1) by simp
qed simp

declare string_from.simps [simp del]

definition copy_string_from_user :: "nat \<Rightarrow> sys \<Rightarrow> vmm \<Rightarrow> nat \<Rightarrow> nat \<Rightarrow> nat \<Rightarrow> mem \<Rightarrow> int \<times> mem" where
  "copy_string_from_user cpu b vs dst user_src max_len m =
     (if dst = 0 \<or> max_len = 0 then (-1, m)
      else let pm = current_pagemap cpu b in
        if pm = 0 then (-1, m)
        else if user_src > USER_ADDR_MAX then (-1, m)
        else string_from vs pm dst user_src max_len 0 m)"

definition verify_user_read :: "nat \<Rightarrow> sys \<Rightarrow> vmm \<Rightarrow> nat \<Rightarrow> nat \<Rightarrow> bool" where
  "verify_user_read cpu b vs user_addr len =
     (if \<not> valid_user_range user_addr len then False
      else if len = 0 then True
      else let pm = current_pagemap cpu b in
        if pm = 0 then False
        else list_all (\<lambda>k. vmm_user_page_phys pm (user_addr + k * PAGE_SIZE) False vs \<noteq> 0)
               [0..<(len + PAGE_SIZE - 1) div PAGE_SIZE] \<and>
             vmm_user_page_phys pm (user_addr + len - 1) False vs \<noteq> 0)"

definition verify_user_write :: "nat \<Rightarrow> sys \<Rightarrow> vmm \<Rightarrow> nat \<Rightarrow> nat \<Rightarrow> bool" where
  "verify_user_write cpu b vs user_addr len =
     (if \<not> valid_user_range user_addr len then False
      else if len = 0 then True
      else let pm = current_pagemap cpu b in
        if pm = 0 then False
        else list_all (\<lambda>k. vmm_user_page_phys pm (user_addr + k * PAGE_SIZE) True vs \<noteq> 0)
               [0..<(len + PAGE_SIZE - 1) div PAGE_SIZE] \<and>
             vmm_user_page_phys pm (user_addr + len - 1) True vs \<noteq> 0)"

section \<open>Translation of the bytes of a range\<close>

lemma user_page_phys_space:
  assumes "vmm_user_page_phys pm a w vs \<noteq> 0"
  obtains P where "space vs pm P" and "a < VMM_USER_END"
  using assms by (auto simp: vmm_user_page_phys_def space_def VMM_USER_END_def split: option.splits if_splits)

text \<open>Within a page the translation of a byte is that of the page plus the offset.\<close>

lemma translate_offset:
  assumes a: "vmm_user_page_phys pm a w vs \<noteq> 0" and j: "a mod PAGE_SIZE + j < PAGE_SIZE"
  shows "vmm_user_page_phys pm (a + j) w vs = vmm_user_page_phys pm a w vs + j"
proof -
  obtain P where P: "space vs pm P" "a < VMM_USER_END"
    using user_page_phys_space [OF a] .
  have d: "(a + j) div PAGE_SIZE = a div PAGE_SIZE" and m: "(a + j) mod PAGE_SIZE = a mod PAGE_SIZE + j"
  proof -
    have "a + j = a div PAGE_SIZE * PAGE_SIZE + (a mod PAGE_SIZE + j)"
      by simp
    then show "(a + j) div PAGE_SIZE = a div PAGE_SIZE" "(a + j) mod PAGE_SIZE = a mod PAGE_SIZE + j"
      using j by (metis div_mult_self3 add.commute add_0 div_less PAGE_SIZE_pos(2), metis mod_mult_self3 mod_less)
  qed
  have e: "VMM_USER_END = 2 ^ 35 * PAGE_SIZE"
    by (simp add: VMM_USER_END_def PAGE_SIZE_def)
  have aj: "a + j < VMM_USER_END"
    using P(2) d unfolding e by (metis less_mult_imp_div_less div_less_iff_less_mult PAGE_SIZE_pos(1))
  have "leaf vs P (a + j) = leaf vs P a"
    using page_indices [OF d] by (simp add: leaf_def split: option.split)
  then show ?thesis
    using user_page_phys_leaf [OF P(1) aj, of w] user_page_phys_leaf [OF P, of w] a m
    by (simp add: Let_def PAGE_SIZE_def split: if_splits)
qed

text \<open>Where the byte \<open>i\<close> of a user range lies in the direct map, and what a range needs of it.\<close>

definition ubyte :: "vmm \<Rightarrow> nat \<Rightarrow> bool \<Rightarrow> nat \<Rightarrow> nat \<Rightarrow> nat" where
  "ubyte vs pm w ua i = vmm_user_page_phys pm (ua + i) w vs + g_hhdm_base (vheap vs)"

definition granted :: "vmm \<Rightarrow> nat \<Rightarrow> bool \<Rightarrow> nat \<Rightarrow> nat \<Rightarrow> bool" where
  "granted vs pm w ua len \<longleftrightarrow> (\<forall>i < len. vmm_user_page_phys pm (ua + i) w vs \<noteq> 0)"

definition apart :: "vmm \<Rightarrow> nat \<Rightarrow> bool \<Rightarrow> nat \<Rightarrow> nat \<Rightarrow> nat \<Rightarrow> bool" where
  "apart vs pm w ua len kb \<longleftrightarrow> (\<forall>i < len. ubyte vs pm w ua i < kb \<or> kb + len \<le> ubyte vs pm w ua i)"

lemma chunk_bytes:
  assumes "vmm_user_page_phys pm (ua + c) w vs \<noteq> 0" and "j < PAGE_SIZE - (ua + c) mod PAGE_SIZE"
  shows "ubyte vs pm w ua (c + j) = ubyte vs pm w ua c + j"
  using translate_offset [OF assms(1), of j] assms(2) by (simp add: ubyte_def add.assoc)

section \<open>The copy loop\<close>

text \<open>One round of the loop, in either direction, is an exact copy of its chunk.\<close>

lemma copy_chunk:
  assumes t: "vmm_user_page_phys pm (ua + c) w vs \<noteq> 0" and k: "k \<le> PAGE_SIZE - (ua + c) mod PAGE_SIZE" "c + k \<le> len"
    and ap: "apart vs pm w ua len kb" and kb: "kb \<noteq> 0"
  shows "memcpy (kb + c) (ubyte vs pm w ua c) k m = copied (kb + c) (ubyte vs pm w ua c) k m"
    and "memcpy (ubyte vs pm w ua c) (kb + c) k m = copied (ubyte vs pm w ua c) (kb + c) k m"
proof -
  let ?u = "ubyte vs pm w ua c"
  have out: "?u + j < kb \<or> kb + len \<le> ?u + j" if "j < k" for j
    using ap [unfolded apart_def, rule_format, of "c + j"] that k chunk_bytes [OF t, of j] by simp
  have "\<not> (?u < kb + c \<and> kb + c < ?u + k)"
  proof
    assume "?u < kb + c \<and> kb + c < ?u + k"
    then have "kb + c - ?u < k" "?u + (kb + c - ?u) = kb + c"
      by linarith+
    then show False
      using out [of "kb + c - ?u"] k(2) \<open>?u < kb + c \<and> kb + c < ?u + k\<close> by linarith
  qed
  moreover have "\<not> (kb + c < ?u \<and> ?u < kb + c + k)"
    using out [of 0] k(2) by auto
  moreover have "?u \<noteq> 0"
    using t by (simp add: ubyte_def)
  ultimately show "memcpy (kb + c) ?u k m = copied (kb + c) ?u k m" "memcpy ?u (kb + c) k m = copied ?u (kb + c) k m"
    using kb by (auto intro!: memcpy_copied)
qed

definition chunk_size :: "nat \<Rightarrow> nat \<Rightarrow> nat \<Rightarrow> nat" where
  "chunk_size ua len c = min (PAGE_SIZE - (ua + c) mod PAGE_SIZE) (len - c)"

lemma chunk_size_bounds:
  assumes "c < len"
  shows "0 < chunk_size ua len c" "chunk_size ua len c \<le> PAGE_SIZE - (ua + c) mod PAGE_SIZE" "c + chunk_size ua len c \<le> len"
  using assms by (simp_all add: chunk_size_def)

lemma do_copy_from_step:
  "do_copy_from vs pm kb ua len w c m =
     (if c < len
      then if vmm_user_page_phys pm (ua + c) w vs = 0 then (False, m)
           else let k = chunk_size ua len c; u = ubyte vs pm w ua c
                in do_copy_from vs pm kb ua len w (c + k)
                     (if w then memcpy u (kb + c) k m else memcpy (kb + c) u k m)
      else (True, m))"
  by (subst do_copy_from.simps) (simp add: Let_def chunk_size_def ubyte_def)

text \<open>Rounds of the loop as an induction rule: the end, a fault, and a chunk.\<close>

lemma copy_rounds:
  assumes "\<And>c m. len \<le> c \<Longrightarrow> X c m (True, m)"
    and "\<And>c m. c < len \<Longrightarrow> vmm_user_page_phys pm (ua + c) w vs = 0 \<Longrightarrow> X c m (False, m)"
    and "\<And>c m r k u. c < len \<Longrightarrow> vmm_user_page_phys pm (ua + c) w vs \<noteq> 0 \<Longrightarrow> k = chunk_size ua len c \<Longrightarrow>
      u = ubyte vs pm w ua c \<Longrightarrow> X (c + k) (if w then memcpy u (kb + c) k m else memcpy (kb + c) u k m) r \<Longrightarrow> X c m r"
  shows "X c m (do_copy_from vs pm kb ua len w c m)"
proof (induction "len - c" arbitrary: c m rule: less_induct)
  case less
  show ?case
  proof (cases "c < len \<and> vmm_user_page_phys pm (ua + c) w vs \<noteq> 0")
    case True
    then have "len - (c + chunk_size ua len c) < len - c"
      using chunk_size_bounds(1) [of c len ua] by linarith
    from assms(3) [OF _ _ refl refl less [OF this]] True show ?thesis
      by (subst do_copy_from_step) (simp add: Let_def)
  next
    case False
    then show ?thesis
      using assms(1) [of c m] assms(2) [of c m] by (subst do_copy_from_step) (simp split: if_split)
  qed
qed

lemma copy_in:
  assumes kb: "kb \<noteq> 0" and ap: "apart vs pm False ua len kb" and r: "do_copy_from vs pm kb ua len False 0 m = (ok, m')"
  shows "ok \<longrightarrow> (\<forall>i < len. m' (kb + i) = m (ubyte vs pm False ua i))"
    and "\<forall>a. a < kb \<or> kb + len \<le> a \<longrightarrow> m' a = m a"
proof -
  let ?u = "ubyte vs pm False ua"
  let ?X = "\<lambda>c m r. (fst r \<longrightarrow> (\<forall>i. c \<le> i \<and> i < len \<longrightarrow> snd r (kb + i) = m (?u i))) \<and>
      (\<forall>a. a < kb + c \<or> kb + len \<le> a \<longrightarrow> snd r a = m a)"
  have "?X 0 m (do_copy_from vs pm kb ua len False 0 m)"
  proof (rule copy_rounds [where X = ?X])
    fix c m r k u
    assume c: "c < len" and t: "vmm_user_page_phys pm (ua + c) False vs \<noteq> 0" and k: "k = chunk_size ua len c"
      and u: "u = ?u c" and ih: "?X (c + k) (if False then memcpy u (kb + c) k m else memcpy (kb + c) u k m) r"
    note kc = chunk_size_bounds [OF c, of ua, folded k]
    let ?m = "copied (kb + c) u k m"
    have ih: "?X (c + k) ?m r"
      using ih copy_chunk(1) [OF t kc(2,3) ap kb, of m] by (simp add: u)
    have out: "?m (?u i) = m (?u i)" if "i < len" for i
      using ap [unfolded apart_def, rule_format, OF that] kc(3) by (auto simp: copied_def)
    have inn: "snd r (kb + i) = m (?u i)" if "c \<le> i" "i < c + k" for i
    proof -
      have "snd r (kb + i) = ?m (kb + i)"
        using ih that by simp
      also have "\<dots> = m (u + (i - c))"
        using that copied_inside [of "i - c" k "kb + c" u m] by simp
      also have "u + (i - c) = ?u i"
        using chunk_bytes [OF t, of "i - c"] that kc(2) by (simp add: u)
      finally show ?thesis .
    qed
    show "?X c m r"
    proof (intro conjI impI allI)
      fix i assume "fst r" "c \<le> i \<and> i < len"
      then show "snd r (kb + i) = m (?u i)"
        using ih out [of i] inn [of i] by (cases "i < c + k") auto
    next
      fix a assume "a < kb + c \<or> kb + len \<le> a"
      then show "snd r a = m a"
        using ih kc(3) by (auto simp: copied_def)
    qed
  qed auto
  then show "ok \<longrightarrow> (\<forall>i < len. m' (kb + i) = m (?u i))" "\<forall>a. a < kb \<or> kb + len \<le> a \<longrightarrow> m' a = m a"
    unfolding r by auto
qed

lemma copy_out:
  assumes kb: "kb \<noteq> 0" and ap: "apart vs pm True ua len kb" and r: "do_copy_from vs pm kb ua len True 0 m = (ok, m')"
    and inj: "inj_on (ubyte vs pm True ua) {..<len}"
  shows "ok \<longrightarrow> (\<forall>i < len. m' (ubyte vs pm True ua i) = m (kb + i))"
    and "\<forall>a. a \<notin> ubyte vs pm True ua ` {..<len} \<longrightarrow> m' a = m a"
proof -
  let ?u = "ubyte vs pm True ua"
  let ?X = "\<lambda>c m r. (fst r \<longrightarrow> (\<forall>i. c \<le> i \<and> i < len \<longrightarrow> snd r (?u i) = m (kb + i))) \<and>
      (\<forall>a. a \<notin> ?u ` {c..<len} \<longrightarrow> snd r a = m a)"
  have "?X 0 m (do_copy_from vs pm kb ua len True 0 m)"
  proof (rule copy_rounds [where X = ?X])
    fix c m r k u
    assume c: "c < len" and t: "vmm_user_page_phys pm (ua + c) True vs \<noteq> 0" and k: "k = chunk_size ua len c"
      and u: "u = ?u c" and ih: "?X (c + k) (if True then memcpy u (kb + c) k m else memcpy (kb + c) u k m) r"
    note kc = chunk_size_bounds [OF c, of ua, folded k]
    let ?m = "copied u (kb + c) k m"
    have ih: "?X (c + k) ?m r"
      using ih copy_chunk(2) [OF t kc(2,3) ap kb, of m] by (simp add: u)
    have chunk: "?u i = u + (i - c)" if "c \<le> i" "i < c + k" for i
      using chunk_bytes [OF t, of "i - c"] that kc(2) by (simp add: u)
    have m: "?m a = m a" if "a \<notin> ?u ` {c..<c + k}" for a
    proof (rule copied_outside, rule ccontr)
      assume "\<not> (a < u \<or> u + k \<le> a)"
      then have "a = ?u (c + (a - u))" "c + (a - u) \<in> {c..<c + k}"
        using chunk [of "c + (a - u)"] by auto
      with that show False
        by blast
    qed
    have buf: "?m (kb + i) = m (kb + i)" if "i < len" for i
    proof (rule m, rule notI)
      assume "kb + i \<in> ?u ` {c..<c + k}"
      then obtain j where "kb + i = ?u j" "j < len"
        using kc(3) by auto
      with ap that show False
        by (auto simp: apart_def)
    qed
    have inn: "snd r (?u i) = m (kb + i)" if "c \<le> i" "i < c + k" for i
    proof -
      have "?u i \<notin> ?u ` {c + k..<len}"
      proof
        assume "?u i \<in> ?u ` {c + k..<len}"
        then obtain x where "?u i = ?u x" "c + k \<le> x" "x < len"
          by auto
        then show False
          using inj_onD [OF inj, of i x] that kc(3) by simp
      qed
      then have "snd r (?u i) = ?m (?u i)"
        by (rule conjunct2 [OF ih, rule_format])
      then show ?thesis
        using that chunk [OF that] copied_inside [of "i - c" k u "kb + c" m] by simp
    qed
    show "?X c m r"
    proof (intro conjI impI allI)
      fix i assume "fst r" "c \<le> i \<and> i < len"
      then show "snd r (?u i) = m (kb + i)"
        using ih buf [of i] inn [of i] by (cases "i < c + k") auto
    next
      fix a assume a: "a \<notin> ?u ` {c..<len}"
      have "?u ` {c + k..<len} \<subseteq> ?u ` {c..<len}" "?u ` {c..<c + k} \<subseteq> ?u ` {c..<len}"
        using kc(3) by (simp_all add: image_mono)
      with a have "a \<notin> ?u ` {c + k..<len}" "a \<notin> ?u ` {c..<c + k}"
        by (auto simp only: subset_iff)
      then show "snd r a = m a"
        using conjunct2 [OF ih, rule_format, of a] m [of a] by simp
    qed
  qed auto
  then show "ok \<longrightarrow> (\<forall>i < len. m' (?u i) = m (kb + i))" "\<forall>a. a \<notin> ?u ` {..<len} \<longrightarrow> m' a = m a"
    unfolding r by (auto simp: lessThan_atLeast0)
qed

text \<open>The loop succeeds when every byte of the range is granted.\<close>

lemma granted_chunk:
  assumes "vmm_user_page_phys pm (ua + c) w vs \<noteq> 0" and "c \<le> i" and "i < c + chunk_size ua len c"
  shows "vmm_user_page_phys pm (ua + i) w vs \<noteq> 0"
proof -
  have "(ua + c) mod PAGE_SIZE + (i - c) < PAGE_SIZE"
    using assms(2,3) by (simp add: chunk_size_def)
  from translate_offset [OF assms(1) this] show ?thesis
    using assms(1,2) by simp
qed

lemma copy_granted: "fst (do_copy_from vs pm kb ua len w 0 m) \<longleftrightarrow> granted vs pm w ua len"
proof -
  let ?X = "\<lambda>c m r. fst r \<longleftrightarrow> (\<forall>i. c \<le> i \<and> i < len \<longrightarrow> vmm_user_page_phys pm (ua + i) w vs \<noteq> 0)"
  have "?X 0 m (do_copy_from vs pm kb ua len w 0 m)"
  proof (rule copy_rounds [where X = ?X])
    fix c m r k u
    assume "c < len" and t: "vmm_user_page_phys pm (ua + c) w vs \<noteq> 0" and k: "k = chunk_size ua len c"
      and ih: "?X (c + k) (if w then memcpy u (kb + c) k m else memcpy (kb + c) u k m) r"
    have g: "vmm_user_page_phys pm (ua + i) w vs \<noteq> 0" if "c \<le> i" "i < c + k" for i
      using granted_chunk [OF t that(1) that(2) [unfolded k]] .
    have "(\<forall>i. c + k \<le> i \<and> i < len \<longrightarrow> vmm_user_page_phys pm (ua + i) w vs \<noteq> 0) \<longleftrightarrow>
        (\<forall>i. c \<le> i \<and> i < len \<longrightarrow> vmm_user_page_phys pm (ua + i) w vs \<noteq> 0)" (is "?A \<longleftrightarrow> ?B")
    proof
      assume A: ?A
      show ?B
      proof (intro allI impI)
        fix i assume "c \<le> i \<and> i < len"
        then show "vmm_user_page_phys pm (ua + i) w vs \<noteq> 0"
          using A [rule_format, of i] g [of i] by linarith
      qed
    qed simp
    with ih show "?X c m r"
      by (simp only:)
  next
    fix c m
    assume "c < len" "vmm_user_page_phys pm (ua + c) w vs = 0"
    then show "?X c m (False, m)"
      by auto
  qed simp
  then show ?thesis
    by (simp add: granted_def)
qed

definition no_zero_frame :: "vmm \<Rightarrow> nat \<Rightarrow> bool \<Rightarrow> bool" where
  "no_zero_frame vs pm w \<longleftrightarrow>
     (\<forall>a. vmm_user_page_phys pm a w vs \<noteq> 0 \<longrightarrow> vmm_user_page_phys pm (a - a mod PAGE_SIZE) w vs \<noteq> 0)"

lemma page_granted:
  assumes z: "no_zero_frame vs pm w" and a: "vmm_user_page_phys pm a w vs \<noteq> 0" and d: "b div PAGE_SIZE = a div PAGE_SIZE"
  shows "vmm_user_page_phys pm b w vs \<noteq> 0"
proof -
  have eq: "a - a mod PAGE_SIZE = b - b mod PAGE_SIZE"
    using d by (simp add: minus_mod_eq_div_mult)
  have t: "vmm_user_page_phys pm (b - b mod PAGE_SIZE) w vs \<noteq> 0"
    using z [unfolded no_zero_frame_def, rule_format, OF a] unfolding eq .
  have "(b - b mod PAGE_SIZE) mod PAGE_SIZE = 0"
    by (simp add: minus_mod_eq_div_mult)
  then show ?thesis
    using translate_offset [OF t, of "b mod PAGE_SIZE"] t by simp
qed

text \<open>The addresses that the verification samples hit every page of the range.\<close>

lemma sampled_pages:
  assumes "i < len"
  shows "(\<exists>k < (len + PAGE_SIZE - 1) div PAGE_SIZE. (ua + i) div PAGE_SIZE = (ua + k * PAGE_SIZE) div PAGE_SIZE) \<or>
    (ua + i) div PAGE_SIZE = (ua + len - 1) div PAGE_SIZE"
proof (cases "(ua + i) div PAGE_SIZE = (ua + len - 1) div PAGE_SIZE")
  case False
  define k where "k = (ua + i) div PAGE_SIZE - ua div PAGE_SIZE"
  have le: "ua div PAGE_SIZE \<le> (ua + i) div PAGE_SIZE" "(ua + i) div PAGE_SIZE \<le> (ua + len - 1) div PAGE_SIZE"
    using assms by (simp_all add: div_le_mono)
  have pg: "(ua + k * PAGE_SIZE) div PAGE_SIZE = (ua + i) div PAGE_SIZE"
    using le(1) by (simp add: k_def)
  have "ua div PAGE_SIZE + k < (ua + len - 1) div PAGE_SIZE"
    using le False by (simp add: k_def)
  then have "(ua div PAGE_SIZE + k + 1) * PAGE_SIZE \<le> ua + len - 1"
    by (metis Suc_eq_plus1 Suc_leI div_le_mono less_eq_div_iff_mult_less_eq PAGE_SIZE_pos(1))
  then have "k * PAGE_SIZE < len"
    using div_mult_mod_eq [of ua PAGE_SIZE] mod_less_divisor [OF PAGE_SIZE_pos(1), of ua] assms
    unfolding add_mult_distrib by linarith
  then have "k < (len + PAGE_SIZE - 1) div PAGE_SIZE"
    using div_le_mono [of "k * PAGE_SIZE + PAGE_SIZE" "len + PAGE_SIZE - 1" PAGE_SIZE] PAGE_SIZE_pos(1) by (simp del: PAGE_SIZE_pos add: Suc_le_eq)
  with pg show ?thesis
    by auto
qed simp

lemma verify_granted:
  assumes z: "no_zero_frame vs pm w" and len: "0 < len"
  shows "list_all (\<lambda>k. vmm_user_page_phys pm (ua + k * PAGE_SIZE) w vs \<noteq> 0) [0..<(len + PAGE_SIZE - 1) div PAGE_SIZE] \<and>
      vmm_user_page_phys pm (ua + len - 1) w vs \<noteq> 0 \<longleftrightarrow> granted vs pm w ua len" (is "?V \<longleftrightarrow> _")
proof
  assume v: ?V
  show "granted vs pm w ua len"
    unfolding granted_def
  proof (intro allI impI)
    fix i assume "i < len"
    from sampled_pages [OF this, of ua] show "vmm_user_page_phys pm (ua + i) w vs \<noteq> 0"
    proof (elim disjE exE conjE)
      fix k assume k: "k < (len + PAGE_SIZE - 1) div PAGE_SIZE" and d: "(ua + i) div PAGE_SIZE = (ua + k * PAGE_SIZE) div PAGE_SIZE"
      from v k have "vmm_user_page_phys pm (ua + k * PAGE_SIZE) w vs \<noteq> 0"
        by (simp add: list_all_iff)
      from page_granted [OF z this d] show ?thesis .
    next
      assume d: "(ua + i) div PAGE_SIZE = (ua + len - 1) div PAGE_SIZE"
      from page_granted [OF z _ d] v show ?thesis
        by blast
    qed
  qed
next
  assume g: "granted vs pm w ua len"
  have "k * PAGE_SIZE < len" if "k < (len + PAGE_SIZE - 1) div PAGE_SIZE" for k
  proof -
    have "(k + 1) * PAGE_SIZE \<le> len + PAGE_SIZE - 1"
      using that by (metis Suc_eq_plus1 Suc_leI less_eq_div_iff_mult_less_eq PAGE_SIZE_pos(1))
    then show ?thesis
      unfolding add_mult_distrib using len PAGE_SIZE_pos(1) by linarith
  qed
  then show ?V
    using g [unfolded granted_def] g [unfolded granted_def, rule_format, of "len - 1"] len by (simp add: list_all_iff)
qed

section \<open>The string loop\<close>

text \<open>What one page contributes: bytes up to the first zero, the page's end or the limit.\<close>

lemma string_page_spec:
  assumes "string_page r src dst i mx m = (q, j, m')" and "i \<le> mx - 1"
    and "\<And>k. k < r \<Longrightarrow> i + k < mx - 1 \<Longrightarrow> src + k < dst \<or> dst + mx \<le> src + k"
  shows "(\<forall>k. i \<le> k \<and> k < j \<longrightarrow> m (src + (k - i)) \<noteq> 0) \<and>
    (case q of None \<Rightarrow> j = min (i + r) (mx - 1) | Some n \<Rightarrow> n = j \<and> j < min (i + r) (mx - 1) \<and> m (src + (j - i)) = 0) \<and>
    (\<forall>k. i \<le> k \<and> k < (if q = None then j else Suc j) \<longrightarrow> m' (dst + k) = m (src + (k - i))) \<and>
    (\<forall>a. a < dst + i \<or> dst + mx \<le> a \<longrightarrow> m' a = m a)"
  using assms
proof (induction r src dst i mx m rule: string_page.induct)
  case (2 r src dst i mx m)
  show ?case
  proof (cases "i < mx - 1 \<and> m src \<noteq> 0")
    case True
    let ?m = "m(dst + i := m src)"
    have ih: "string_page r (src + 1) dst (i + 1) mx ?m = (q, j, m')"
      using 2(2) True by (simp add: Let_def)
    have ap: "src + k < dst \<or> dst + mx \<le> src + k" if "k < Suc r" "i + k < mx - 1" for k
      using 2(4) that by blast
    have rd: "?m (src + 1 + (k - (i + 1))) = m (src + (k - i))" if "i < k" "k < mx - 1" "k - i < Suc r" for k
    proof -
      have "src + 1 + (k - (i + 1)) = src + (k - i)" "src + (k - i) \<noteq> dst + i"
        using ap [of "k - i"] that by linarith+
      then show ?thesis
        by (simp only: fun_upd_other not_False_eq_True)
    qed
    have j: "i + 1 \<le> j" "j \<le> mx - 1"
      using string_page_mono [OF ih] True by auto
    have IH: "(\<forall>k. i + 1 \<le> k \<and> k < j \<longrightarrow> ?m (src + 1 + (k - (i + 1))) \<noteq> 0) \<and>
      (case q of None \<Rightarrow> j = min (i + 1 + r) (mx - 1)
       | Some n \<Rightarrow> n = j \<and> j < min (i + 1 + r) (mx - 1) \<and> ?m (src + 1 + (j - (i + 1))) = 0) \<and>
      (\<forall>k. i + 1 \<le> k \<and> k < (if q = None then j else Suc j) \<longrightarrow> m' (dst + k) = ?m (src + 1 + (k - (i + 1)))) \<and>
      (\<forall>a. a < dst + (i + 1) \<or> dst + mx \<le> a \<longrightarrow> m' a = ?m a)"
    proof (rule 2(1) [OF _ refl refl _ ih])
      fix k assume "k < r" "i + 1 + k < mx - 1"
      then show "src + 1 + k < dst \<or> dst + mx \<le> src + 1 + k"
        using ap [of "Suc k"] by simp
    qed (use True in simp_all)
    have jr: "j \<le> i + 1 + r" "q \<noteq> None \<longrightarrow> j < i + 1 + r \<and> j < mx - 1"
      using IH by (auto split: option.splits)
    have A: "m (src + (k - i)) \<noteq> 0" if "i \<le> k" "k < j" for k
    proof (cases "k = i")
      case False
      then have "i < k" "k < mx - 1" "k - i < Suc r"
        using that j jr(1) by linarith+
      from rd [OF this] conjunct1 [OF IH, rule_format, of k] show ?thesis
        using that False by simp
    qed (use True in simp)
    have B: "case q of None \<Rightarrow> j = min (i + Suc r) (mx - 1) | Some n \<Rightarrow> n = j \<and> j < min (i + Suc r) (mx - 1) \<and> m (src + (j - i)) = 0"
      using IH rd [of j] j(1) by (auto split: option.splits)
    have C: "m' (dst + k) = m (src + (k - i))" if "i \<le> k" "k < (if q = None then j else Suc j)" for k
    proof (cases "k = i")
      case False
      then have "i < k" "k < mx - 1" "k - i < Suc r"
        using that j jr by (auto split: if_splits)
      from rd [OF this] conjunct1 [OF conjunct2 [OF conjunct2 [OF IH]], rule_format, of k] show ?thesis
        using that False by simp
    qed (use IH in simp)
    show ?thesis
      using A B C IH True by auto
  next
    case False
    then show ?thesis
      using 2(2-4) 2(4) [of 0] by (auto simp: Let_def less_Suc_eq split: if_splits)
  qed
qed auto

text \<open>A string of length \<open>n\<close> at the user address \<open>ua\<close>, readable up to and with its terminator.\<close>

definition user_cstr :: "vmm \<Rightarrow> nat \<Rightarrow> mem \<Rightarrow> nat \<Rightarrow> nat \<Rightarrow> bool" where
  "user_cstr vs pm m ua n \<longleftrightarrow> ua + n \<le> USER_ADDR_MAX \<and> granted vs pm False ua (n + 1) \<and>
     (\<forall>k < n. m (ubyte vs pm False ua k) \<noteq> 0) \<and> m (ubyte vs pm False ua n) = 0"

lemma string_from_step:
  assumes "i < mx - 1" and "ua + i \<le> USER_ADDR_MAX" and "vmm_user_page_phys pm (ua + i) False vs \<noteq> 0"
    and "string_page (PAGE_SIZE - (ua + i) mod PAGE_SIZE) (ubyte vs pm False ua i) dst i mx m = (q, j, m1)"
  shows "string_from vs pm dst ua mx i m = (case q of None \<Rightarrow> string_from vs pm dst ua mx j m1 | Some n \<Rightarrow> (int n, m1))"
  using assms by (subst string_from.simps) (simp add: Let_def ubyte_def split: option.split)

lemma string_from_stop:
  assumes "mx - 1 \<le> i \<or> USER_ADDR_MAX < ua + i \<or> vmm_user_page_phys pm (ua + i) False vs = 0"
  shows "string_from vs pm dst ua mx i m = (-1, if mx - 1 \<le> i then m(dst + (mx - 1) := 0) else m)"
  using assms by (subst string_from.simps) (auto simp: Let_def)

text \<open>The state of the loop at offset \<open>i\<close>: what has been read so far is copied and non-zero.\<close>

definition string_result :: "vmm \<Rightarrow> nat \<Rightarrow> nat \<Rightarrow> nat \<Rightarrow> nat \<Rightarrow> mem \<Rightarrow> int \<times> mem \<Rightarrow> bool" where
  "string_result vs pm dst ua mx m r \<longleftrightarrow>
     (\<forall>a. a < dst \<or> dst + mx \<le> a \<longrightarrow> snd r a = m a) \<and>
     (if \<exists>n < mx - 1. user_cstr vs pm m ua n
      then \<exists>n < mx - 1. user_cstr vs pm m ua n \<and> fst r = int n \<and> (\<forall>k \<le> n. snd r (dst + k) = m (ubyte vs pm False ua k))
      else fst r = -1)"

definition string_sofar :: "vmm \<Rightarrow> nat \<Rightarrow> nat \<Rightarrow> nat \<Rightarrow> nat \<Rightarrow> mem \<Rightarrow> nat \<Rightarrow> mem \<Rightarrow> bool" where
  "string_sofar vs pm dst ua mx m0 i m \<longleftrightarrow> i \<le> mx - 1 \<and> granted vs pm False ua i \<and> ua + i \<le> USER_ADDR_MAX + 1 \<and>
     (\<forall>k < i. m0 (ubyte vs pm False ua k) \<noteq> 0 \<and> m (dst + k) = m0 (ubyte vs pm False ua k)) \<and>
     (\<forall>a. a < dst \<or> dst + mx \<le> a \<longrightarrow> m a = m0 a)"

lemma user_cstr_beyond:
  assumes "string_sofar vs pm dst ua mx m0 i m" and "user_cstr vs pm m0 ua n"
  shows "i \<le> n"
  using assms by (auto simp: string_sofar_def user_cstr_def not_le [symmetric])

lemma string_page_sofar:
  assumes inv: "string_sofar vs pm dst ua mx m0 i m" and ap: "apart vs pm False ua mx dst" and mx: "0 < mx"
    and i: "i < mx - 1" "ua + i \<le> USER_ADDR_MAX" and t: "vmm_user_page_phys pm (ua + i) False vs \<noteq> 0"
    and r: "string_page (PAGE_SIZE - (ua + i) mod PAGE_SIZE) (ubyte vs pm False ua i) dst i mx m = (q, j, m1)"
  shows "case q of None \<Rightarrow> string_sofar vs pm dst ua mx m0 j m1
    | Some n \<Rightarrow> n < mx - 1 \<and> user_cstr vs pm m0 ua n \<and> (\<forall>k \<le> n. m1 (dst + k) = m0 (ubyte vs pm False ua k)) \<and>
        (\<forall>a. a < dst \<or> dst + mx \<le> a \<longrightarrow> m1 a = m0 a)"
proof -
  let ?u = "ubyte vs pm False ua" and ?r = "PAGE_SIZE - (ua + i) mod PAGE_SIZE"
  have chunk: "?u k = ?u i + (k - i)" "vmm_user_page_phys pm (ua + k) False vs \<noteq> 0" if "i \<le> k" "k < i + ?r" for k
    using chunk_bytes [OF t, of "k - i"] translate_offset [OF t, of "k - i"] t that by (auto simp: add.assoc)
  have away: "?u i + k < dst \<or> dst + mx \<le> ?u i + k" if "k < ?r" "i + k < mx - 1" for k
    using ap [unfolded apart_def, rule_format, of "i + k"] chunk(1) [of "i + k"] that by simp
  have old: "m (?u k) = m0 (?u k)" if "k < mx" for k
    using inv ap that by (auto simp: string_sofar_def apart_def)
  note sp = string_page_spec [OF r less_imp_le [OF i(1)] away, simplified]
  have b: "i \<le> j" "j \<le> i + ?r" "j \<le> mx - 1" "q \<noteq> None \<Longrightarrow> j < i + ?r \<and> j < mx - 1"
    using sp string_page_mono [OF r] i(1) by (auto split: option.splits)
  have src: "m (?u i + (k - i)) = m0 (?u k)" if "i \<le> k" "k < i + ?r" "k < mx" for k
    using chunk(1) [OF that(1,2)] old [OF that(3)] by simp
  have nz: "m0 (?u k) \<noteq> 0" if "k < j" for k
  proof (cases "k < i")
    case False
    then show ?thesis
      using that conjunct1 [OF sp, rule_format, of k] src [of k] b(2,3) mx by simp
  qed (use inv in \<open>simp add: string_sofar_def\<close>)
  have cp: "m1 (dst + k) = m0 (?u k)" if "k < (if q = None then j else Suc j)" for k
  proof (cases "k < i")
    case True
    then show ?thesis
      using sp inv by (simp add: string_sofar_def)
  next
    case False
    then show ?thesis
      using that sp src [of k] b mx by (auto split: if_splits)
  qed
  have fr: "m1 a = m0 a" if "a < dst \<or> dst + mx \<le> a" for a
    using sp inv that by (auto simp: string_sofar_def)
  have gr: "vmm_user_page_phys pm (ua + k) False vs \<noteq> 0" if "k < (if q = None then j else Suc j)" for k
    using inv chunk(2) [of k] that b by (cases "k < i") (auto simp: string_sofar_def granted_def split: if_splits)
  have top: "ua + k \<le> USER_ADDR_MAX" if "k < i + ?r" for k
  proof -
    have "USER_ADDR_MAX + 1 = 2 ^ 35 * PAGE_SIZE"
      by (simp add: USER_ADDR_MAX_def PAGE_SIZE_def)
    moreover have "((ua + i) div PAGE_SIZE + 1) * PAGE_SIZE \<le> 2 ^ 35 * PAGE_SIZE"
      using i(2) by (intro mult_le_mono1) (simp add: USER_ADDR_MAX_def PAGE_SIZE_def)
    ultimately show ?thesis
      using that div_mult_mod_eq [of "ua + i" PAGE_SIZE] mod_less_divisor [OF PAGE_SIZE_pos(1), of "ua + i"]
      unfolding add_mult_distrib by linarith
  qed
  show ?thesis
  proof (cases q)
    case None
    have "ua + j \<le> USER_ADDR_MAX + 1"
    proof (cases "j = i")
      case False
      then show ?thesis
        using top [of "j - 1"] b(1,2) by linarith
    qed (use i(2) in simp)
    then show ?thesis
      using None nz cp fr gr b(3) by (auto simp: string_sofar_def granted_def)
  next
    case (Some n)
    have "m0 (?u j) = 0"
      using Some sp src [of j] b mx less_imp_le_nat [of j "mx - 1"] by auto
    then show ?thesis
      using Some nz cp fr gr b sp top [of j] by (auto simp: user_cstr_def granted_def)
  qed
qed

lemma string_from_result:
  assumes "string_sofar vs pm dst ua mx m0 i m" and ap: "apart vs pm False ua mx dst" and mx: "0 < mx"
  shows "string_result vs pm dst ua mx m0 (string_from vs pm dst ua mx i m)"
  using assms(1)
proof (induction "mx - 1 - i" arbitrary: i m rule: less_induct)
  case less
  note inv = less.prems
  show ?case
  proof (cases "i < mx - 1 \<and> ua + i \<le> USER_ADDR_MAX \<and> vmm_user_page_phys pm (ua + i) False vs \<noteq> 0")
    case False
    have "\<not> (\<exists>n < mx - 1. user_cstr vs pm m0 ua n)"
    proof
      assume "\<exists>n < mx - 1. user_cstr vs pm m0 ua n"
      then obtain n where n: "n < mx - 1" "user_cstr vs pm m0 ua n"
        by blast
      have "vmm_user_page_phys pm (ua + i) False vs \<noteq> 0" "ua + i \<le> USER_ADDR_MAX"
        using n(2) user_cstr_beyond [OF inv n(2)] by (simp_all add: user_cstr_def granted_def)
      with user_cstr_beyond [OF inv n(2)] n(1) False show False
        by simp
    qed
    moreover have "string_from vs pm dst ua mx i m = (-1, if mx - 1 \<le> i then m(dst + (mx - 1) := 0) else m)"
      using False by (intro string_from_stop) auto
    ultimately show ?thesis
      using inv mx by (auto simp: string_result_def string_sofar_def)
  next
    case True
    obtain q j m1 where r: "string_page (PAGE_SIZE - (ua + i) mod PAGE_SIZE) (ubyte vs pm False ua i) dst i mx m = (q, j, m1)"
      by (metis prod_cases3)
    note st = string_from_step [OF _ _ _ r] and pg = string_page_sofar [OF inv ap mx _ _ _ r]
    show ?thesis
    proof (cases q)
      case None
      have "i < j"
        using string_page_progress [OF r [unfolded None]] True by simp
      then have "mx - 1 - j < mx - 1 - i"
        using True by linarith
      from less.hyps [OF this] show ?thesis
        using pg st True None by simp
    next
      case (Some n)
      then show ?thesis
        using pg st True by (auto simp: string_result_def)
    qed
  qed
qed

section \<open>Properties\<close>

lemma writable_readable:
  "vmm_user_page_phys pm a True vs \<noteq> 0 \<Longrightarrow> vmm_user_page_phys pm a False vs = vmm_user_page_phys pm a True vs"
  by (auto simp: vmm_user_page_phys_def Let_def split: option.splits if_splits)

text \<open>
  C8: What \<open>copy_to_user\<close> has written, \<open>copy_from_user\<close> reads back: if writing \<open>len\<close> bytes of a kernel
  buffer to a user range succeeds, then reading that range into another buffer succeeds and delivers
  the same bytes, and neither changes a byte outside the user range and the target buffer. The bytes
  of the range have to lie on distinct places outside the two buffers.
\<close>

theorem user_copy_roundtrip:
  assumes "copy_to_user cpu b vs ua src len m = (True, m1)" and "copy_from_user cpu b vs dst ua len m1 = (r, m2)"
    and "dst \<noteq> 0" and "pm = current_pagemap cpu b"
    and "apart vs pm True ua len src" and "apart vs pm True ua len dst" and "inj_on (ubyte vs pm True ua) {..<len}"
  shows "r \<and> (\<forall>i < len. m2 (dst + i) = m (src + i)) \<and>
    (\<forall>a. a \<notin> ubyte vs pm True ua ` {..<len} \<and> (a < dst \<or> dst + len \<le> a) \<longrightarrow> m2 a = m a)"
proof (cases "len = 0")
  case True
  then show ?thesis
    using assms by (auto simp: copy_to_user_def copy_from_user_def do_copy_def Let_def split: if_splits)
next
  case False
  have pre: "pm \<noteq> 0" "src \<noteq> 0" "valid_user_range ua len" and w: "do_copy_from vs pm src ua len True 0 m = (True, m1)"
    using assms(1,4) False by (auto simp: copy_to_user_def do_copy_def Let_def split: if_splits)
  have rd: "do_copy_from vs pm dst ua len False 0 m1 = (r, m2)"
    using assms(2-4) False pre by (simp add: copy_from_user_def do_copy_def Let_def)
  have "granted vs pm True ua len"
    using copy_granted [of vs pm src ua len True m] w by simp
  then have eq: "vmm_user_page_phys pm (ua + i) False vs = vmm_user_page_phys pm (ua + i) True vs" and
      g: "granted vs pm False ua len" if "i < len" for i
    using that by (auto simp: granted_def writable_readable)
  have u: "ubyte vs pm False ua i = ubyte vs pm True ua i" if "i < len" for i
    using eq [OF that] by (simp add: ubyte_def)
  have r
    using copy_granted [of vs pm dst ua len False m1] rd g False by simp
  have ap: "apart vs pm False ua len dst"
    using assms(6) u by (simp add: apart_def)
  note i = copy_in [OF assms(3) ap rd] and o = copy_out [OF pre(2) assms(5) w assms(7)]
  show ?thesis
  proof (intro conjI allI impI)
    fix k assume "k < len"
    then show "m2 (dst + k) = m (src + k)"
      using i(1) o(1) u \<open>r\<close> by simp
  next
    fix a assume "a \<notin> ubyte vs pm True ua ` {..<len} \<and> (a < dst \<or> dst + len \<le> a)"
    then show "m2 a = m a"
      using i(2) o(2) by (metis (no_types))
  qed (fact \<open>r\<close>)
qed

definition user_demo :: sys where
  "user_demo = boot_sys\<lparr>current_thread := (\<lambda>_. Some 0), thr := (\<lambda>_. new_thread (Some 0)),
     prc := (\<lambda>_. (prc boot_sys 0)\<lparr>pagemap := 16\<rparr>)\<rparr>"

text \<open>Every user page of the demonstration space is the frame 4096.\<close>

definition one_frame :: vmm where
  "one_frame = vm_demo\<lparr>pmem := \<lambda>_ _. 4103\<rparr>"

lemma user_demo_pagemap [simp]: "current_pagemap c user_demo = 16"
  by (simp add: current_pagemap_def sched_get_current_process_def sched_get_current_thread_def user_demo_def new_thread_def)

lemma one_frame_phys: "vmm_user_page_phys 16 a w one_frame = (if a < VMM_USER_END then 4096 + a mod PAGE_SIZE else 0)"
proof -
  have e: "frame_of 4103 = 4096" "has 4103 VMM_FLAG_PRESENT" "has 4103 VMM_FLAG_USER" "has 4103 VMM_FLAG_WRITABLE" "\<not> huge 4103"
    by (simp_all add: frame_of_def PHYS_ADDR_MASK_def has_def VMM_FLAG_PRESENT_def VMM_FLAG_USER_def VMM_FLAG_WRITABLE_def huge_def)
  have sp: "space one_frame 16 4096"
    by (simp add: space_def vm_demo_def one_frame_def)
  have "leaf one_frame 4096 a = 4103"
    by (simp add: leaf_def walk_def vpath_def step_def e one_frame_def)
  then show ?thesis
    using user_page_phys_leaf [OF sp, of a w] e
    by (auto simp: Let_def PAGE_SIZE_def vmm_user_page_phys_def VMM_USER_END_def one_frame_def vm_demo_def)
qed

lemma one_frame_byte: "0x400000 + i < VMM_USER_END \<Longrightarrow> ubyte one_frame 16 w 0x400000 i = 4096 + i mod PAGE_SIZE"
  using mod_mult_self3 [of 1024 4096 i]
  by (simp add: ubyte_def one_frame_phys PAGE_SIZE_def del: mod_mult_self3) (simp add: one_frame_def vm_demo_def)

theorem user_copy_roundtrip_witness:
  "\<exists>m1 m2. copy_to_user 0 user_demo one_frame 0x400000 100 3 (\<lambda>a. of_nat a) = (True, m1) \<and>
     copy_from_user 0 user_demo one_frame 200 0x400000 3 m1 = (True, m2) \<and> m2 202 = 102"
proof -
  let ?m = "\<lambda>a. of_nat a :: u8"
  have u: "ubyte one_frame 16 w 0x400000 i = 4096 + i" if "i < 3" for i w
    using one_frame_byte [of i w] that by (simp add: VMM_USER_END_def PAGE_SIZE_def)
  obtain r1 m1 where w: "copy_to_user 0 user_demo one_frame 0x400000 100 3 ?m = (r1, m1)"
    by (metis surj_pair)
  obtain r2 m2 where r: "copy_from_user 0 user_demo one_frame 200 0x400000 3 m1 = (r2, m2)"
    by (metis surj_pair)
  have v: "valid_user_range 0x400000 3"
    by (simp add: valid_user_range_def add64_def sub64_def USER_ADDR_MAX_def)
  have "granted one_frame 16 True 0x400000 3"
    by (simp add: granted_def one_frame_phys VMM_USER_END_def)
  then have r1: r1
    using w v copy_granted [of one_frame 16 100 "0x400000" 3 True ?m]
    by (simp add: copy_to_user_def do_copy_def Let_def)
  have "apart one_frame 16 True 0x400000 3 100" "apart one_frame 16 True 0x400000 3 200"
    "inj_on (ubyte one_frame 16 True 0x400000) {..<3}"
    by (auto simp: apart_def u inj_on_def)
  note t = user_copy_roundtrip [OF w [unfolded eqTrueI [OF r1]] r _ user_demo_pagemap [symmetric] this]
  have "m2 (200 + 2) = of_nat (100 + 2)"
    by (rule t [THEN conjunct2, THEN conjunct1, rule_format]) simp_all
  moreover have r2
    using t by simp
  ultimately show ?thesis
    using w r r1 by auto
qed

text \<open>
  C31: Copying and verifying agree. For a positive length, a copy succeeds exactly when the current
  process has a page map, the buffer is not null and the verification of the range answers true, which
  in turn holds exactly when the range lies in user space and every single byte of it is mapped with the
  asked-for permission. The verification only looks at one byte per page and at the last one.
\<close>

theorem verify_copy_equivalent:
  assumes "no_zero_frame vs pm False" and "no_zero_frame vs pm True" and "pm = current_pagemap cpu b" and "0 < len"
  shows "(fst (copy_from_user cpu b vs buf ua len m) \<longleftrightarrow> buf \<noteq> 0 \<and> verify_user_read cpu b vs ua len) \<and>
    (fst (copy_to_user cpu b vs ua buf len m) \<longleftrightarrow> buf \<noteq> 0 \<and> verify_user_write cpu b vs ua len) \<and>
    (verify_user_read cpu b vs ua len \<longleftrightarrow> pm \<noteq> 0 \<and> valid_user_range ua len \<and> granted vs pm False ua len) \<and>
    (verify_user_write cpu b vs ua len \<longleftrightarrow> pm \<noteq> 0 \<and> valid_user_range ua len \<and> granted vs pm True ua len)"
proof -
  have "verify_user_read cpu b vs ua len \<longleftrightarrow> pm \<noteq> 0 \<and> valid_user_range ua len \<and> granted vs pm False ua len"
    "verify_user_write cpu b vs ua len \<longleftrightarrow> pm \<noteq> 0 \<and> valid_user_range ua len \<and> granted vs pm True ua len"
    using assms(3,4) verify_granted [OF assms(1,4), of ua] verify_granted [OF assms(2,4), of ua]
    by (simp_all add: verify_user_read_def verify_user_write_def Let_def)
  then show ?thesis
    using assms(3,4) by (auto simp: copy_from_user_def copy_to_user_def do_copy_def copy_granted Let_def)
qed

theorem verify_copy_equivalent_witness:
  "no_zero_frame one_frame 16 False \<and> verify_user_write 0 user_demo one_frame 0x400000 8192 \<and>
   fst (copy_to_user 0 user_demo one_frame 0x400000 100 8192 (\<lambda>_. 0)) \<and>
   \<not> fst (copy_from_user 0 user_demo one_frame 100 0x7FFFFFFFFFFF 2 (\<lambda>_. 0))"
proof -
  have z: "no_zero_frame one_frame 16 w" for w
    by (auto simp: no_zero_frame_def one_frame_phys)
  have "granted one_frame 16 True 0x400000 8192"
    by (simp add: granted_def one_frame_phys VMM_USER_END_def)
  moreover have "valid_user_range 0x400000 8192" "\<not> valid_user_range 0x7FFFFFFFFFFF 2"
    by (simp_all add: valid_user_range_def add64_def sub64_def USER_ADDR_MAX_def)
  ultimately show ?thesis
    using z verify_copy_equivalent [OF z z user_demo_pagemap [symmetric], where buf = 100 and ua = "0x400000" and len = 8192 and m = "\<lambda>_. 0"]
      verify_copy_equivalent [OF z z user_demo_pagemap [symmetric], where buf = 100 and ua = "0x7FFFFFFFFFFF" and len = 2 and m = "\<lambda>_. 0"] by simp
qed



end
