(* ===== verification/Futex.thy ===== *)
theory Futex
  imports Waitqueue Usercopy
begin

text \<open>
  The futexes of \<^verbatim>\<open>kernel/src/sched/futex.c\<close>: 64 hash buckets of waiting threads. A section under
  a bucket's lock is one function of the scheduler's state \<open>b\<close>; reading the futex word goes through
  the copying functions on the page tables \<open>vs\<close> and the memory \<open>m\<close>, into the kernel stack at
  \<open>kval\<close> and \<open>kts\<close>. \<open>futex_wait\<close> runs up to the point where the thread gives up the CPU;
  \<open>futex_check\<close> and \<open>futex_expire\<close> are the rounds of its timed loop.
\<close>

section \<open>Operations\<close>

definition FUTEX_HASH_SIZE :: nat where
  "FUTEX_HASH_SIZE = 64"

definition FUTEX_HASH :: "nat \<Rightarrow> nat" where
  "FUTEX_HASH addr = addr div 4 mod FUTEX_HASH_SIZE"

definition futex_init :: "sys \<Rightarrow> sys" where
  "futex_init b = fold (\<lambda>i. upd_lnk (list_init (Futex_Bucket i))) [0..<FUTEX_HASH_SIZE] b"

text \<open>Little-endian integers in memory, and C's division of a signed by a positive number.\<close>

definition le_read :: "mem \<Rightarrow> nat \<Rightarrow> nat \<Rightarrow> nat" where
  "le_read m a n = foldr (\<lambda>i v. unat (m (a + i)) + 256 * v) [0..<n] 0"

definition cdiv :: "int \<Rightarrow> int \<Rightarrow> int" where
  "cdiv x y = sgn x * (\<bar>x\<bar> div y)"

text \<open>Taking a thread out of its bucket; the caller decides what state it gets.\<close>

definition futex_unlink :: "nat \<Rightarrow> sys \<Rightarrow> sys" where
  "futex_unlink t b =
     upd_thr t (\<lambda>x. x\<lparr>futex_uaddr := 0, futex_proc := None\<rparr>) (upd_lnk (list_remove (Futex_Node t)) b)"

definition futex_cancel :: "nat \<Rightarrow> sys \<Rightarrow> bool \<times> sys" where
  "futex_cancel t b =
     (if futex_uaddr (thr b t) \<noteq> 0 then (True, set_state THREAD_READY t (futex_unlink t b)) else (False, b))"

definition futex_enqueue :: "nat \<Rightarrow> nat \<Rightarrow> nat \<Rightarrow> sys \<Rightarrow> sys" where
  "futex_enqueue t uaddr p b = upd_lnk (list_add_tail (Futex_Bucket (FUTEX_HASH uaddr)) (Futex_Node t))
     (upd_thr t (\<lambda>x. x\<lparr>tstate := THREAD_BLOCKED, futex_uaddr := uaddr, futex_proc := Some p\<rparr>) b)"

text \<open>The tick at which a timed wait ends, from the seconds and nanoseconds of the timeout.\<close>

definition futex_deadline :: "nat \<Rightarrow> int \<Rightarrow> nat \<Rightarrow> nat \<Rightarrow> nat" where
  "futex_deadline tv_sec tv_nsec start_ticks frq =
     (let wait_ms = add64 (mul64 tv_sec 1000) (nat (cdiv tv_nsec 1000000 mod int W64));
          wait_ms = (if wait_ms = 0 \<and> tv_nsec > 0 then 1 else wait_ms);
          freq = (if frq = 0 then 1000 else frq);
          duration_ticks = mul64 wait_ms freq div 1000;
          duration_ticks = (if duration_ticks = 0 \<and> wait_ms > 0 then 1 else duration_ticks)
      in add64 start_ticks duration_ticks)"

datatype futex_flow = Done int | Timed nat | Blocked

definition futex_wait ::
  "nat \<Rightarrow> nat \<Rightarrow> u32 \<Rightarrow> nat \<Rightarrow> nat \<Rightarrow> nat \<Rightarrow> nat \<Rightarrow> nat \<Rightarrow> vmm \<Rightarrow> mem \<times> sys \<Rightarrow> futex_flow \<times> mem \<times> sys" where
  "futex_wait cpu uaddr val timeout kval kts ticks freq vs = (\<lambda>(m, b).
     case (sched_get_current_process cpu b, sched_get_current_thread cpu b) of
       (Some p, Some t) \<Rightarrow>
         if uaddr = 0 then (Done (-1), m, b)
         else if vmm_virt_to_phys (pagemap (prc b p)) uaddr vs = 0 then (Done (-14), m, b)
         else (case copy_from_user cpu b vs kval uaddr 4 m of
             (False, m1) \<Rightarrow> (Done (-14), m1, b)
           | (True, m1) \<Rightarrow>
               if of_nat (le_read m1 kval 4) \<noteq> val then (Done (-11), m1, b)
               else let b1 = futex_enqueue t uaddr p b
                    in if timeout = 0 then (Blocked, m1, b1)
                       else (case copy_from_user cpu b1 vs kts timeout 16 m1 of
                           (False, m2) \<Rightarrow> (Done (-14), m2, snd (futex_cancel t b1))
                         | (True, m2) \<Rightarrow>
                             (Timed (futex_deadline (le_read m2 kts 8)
                                (sint (of_nat (le_read m2 (kts + 8) 8) :: u64)) ticks freq), m2, b1)))
     | _ \<Rightarrow> (Done (-1), m, b))"

text \<open>One round of the timed loop: leave it, try to expire, or sleep a millisecond.\<close>

datatype futex_round = Leave | Expire | Sleep

definition futex_check :: "nat \<Rightarrow> nat \<Rightarrow> nat \<Rightarrow> sys \<Rightarrow> futex_round" where
  "futex_check t expire_ticks ticks b =
     (if futex_uaddr (thr b t) = 0 then Leave else if ticks \<ge> expire_ticks then Expire else Sleep)"

definition futex_expire :: "nat \<Rightarrow> sys \<Rightarrow> int \<times> sys" where
  "futex_expire t b = (case futex_cancel t b of (True, b1) \<Rightarrow> (-110, b1) | (False, b1) \<Rightarrow> (0, b1))"

definition futex_match :: "nat \<Rightarrow> nat \<Rightarrow> sys \<Rightarrow> nat \<Rightarrow> bool" where
  "futex_match uaddr p b t \<longleftrightarrow> futex_uaddr (thr b t) = uaddr \<and>
     (case futex_proc (thr b t) of None \<Rightarrow> False | Some r \<Rightarrow> r = p \<or> pagemap (prc b r) = pagemap (prc b p))"

definition futex_wake_thread :: "nat \<Rightarrow> sys \<Rightarrow> sys" where
  "futex_wake_thread t b = sched_add_thread t (set_state THREAD_READY t (futex_unlink t b))"

definition wake_body :: "nat \<Rightarrow> int \<Rightarrow> nat \<Rightarrow> node \<Rightarrow> sys \<times> int \<Rightarrow> bool \<times> sys \<times> int" where
  "wake_body uaddr cnt p pos = (\<lambda>(b, woken).
     if woken \<ge> cnt then (True, b, woken)
     else (case pos of
         Futex_Node t \<Rightarrow>
           if futex_match uaddr p b t then (False, futex_wake_thread t b, woken + 1) else (False, b, woken)
       | _ \<Rightarrow> (False, b, woken)))"

definition futex_wake :: "nat \<Rightarrow> nat \<Rightarrow> nat \<Rightarrow> int \<Rightarrow> sys \<Rightarrow> (int \<times> sys) option" where
  "futex_wake fuel cpu uaddr cnt b =
     (if uaddr = 0 \<or> cnt \<le> 0 then Some (0, b)
      else case sched_get_current_process cpu b of
        None \<Rightarrow> Some (0, b)
      | Some p \<Rightarrow>
          let l = Futex_Bucket (FUTEX_HASH uaddr)
          in map_option (\<lambda>(b1, woken). (woken, b1))
               (list_for_each_safe fuel (lnk \<circ> fst) (wake_body uaddr cnt p) l (lnext (lnk b) l) (b, 0)))"

text \<open>A thread pointer below 4096 or in the last 64 KiB is not a thread; \<open>ok\<close> is that test.\<close>

definition futex_remove_thread :: "bool \<Rightarrow> nat \<Rightarrow> sys \<Rightarrow> sys" where
  "futex_remove_thread ok t b = (if \<not> ok \<or> futex_proc (thr b t) = None then b else futex_unlink t b)"

definition requeue_body :: "nat \<Rightarrow> int \<Rightarrow> nat \<Rightarrow> int \<Rightarrow> nat \<Rightarrow> node \<Rightarrow> sys \<times> int \<times> int \<Rightarrow> bool \<times> sys \<times> int \<times> int" where
  "requeue_body uaddr1 wake_count uaddr2 requeue_count p pos = (\<lambda>(b, woken, requeued).
     case pos of
       Futex_Node t \<Rightarrow>
         if futex_match uaddr1 p b t
         then if woken < wake_count then (False, futex_wake_thread t b, woken + 1, requeued)
              else if requeued < requeue_count
              then (False, upd_lnk (list_add_tail (Futex_Bucket (FUTEX_HASH uaddr2)) (Futex_Node t))
                      (upd_thr t (\<lambda>x. x\<lparr>futex_uaddr := uaddr2\<rparr>) (upd_lnk (list_remove (Futex_Node t)) b)),
                    woken, requeued + 1)
              else (True, b, woken, requeued)
         else (False, b, woken, requeued)
     | _ \<Rightarrow> (False, b, woken, requeued))"

definition futex_requeue :: "nat \<Rightarrow> nat \<Rightarrow> nat \<Rightarrow> int \<Rightarrow> nat \<Rightarrow> int \<Rightarrow> sys \<Rightarrow> (int \<times> sys) option" where
  "futex_requeue fuel cpu uaddr1 wake_count uaddr2 requeue_count b =
     (if uaddr1 = 0 \<or> uaddr2 = 0 then Some (-1, b)
      else case sched_get_current_process cpu b of
        None \<Rightarrow> Some (-1, b)
      | Some p \<Rightarrow>
          let l = Futex_Bucket (FUTEX_HASH uaddr1)
          in map_option (\<lambda>(b1, woken, requeued). (woken + requeued, b1))
               (list_for_each_safe fuel (lnk \<circ> fst) (requeue_body uaddr1 wake_count uaddr2 requeue_count p) l
                  (lnext (lnk b) l) (b, 0, 0)))"

section \<open>Waiters\<close>

text \<open>The buckets hold the threads \<open>fb\<close>, none of them on a queue of the scheduler.\<close>

definition fwait :: "sys \<Rightarrow> (nat \<Rightarrow> nat list) \<Rightarrow> nat list \<Rightarrow> nat list \<Rightarrow> bool" where
  "fwait b fb rs ss \<longleftrightarrow>
     (\<exists>q. squeues (lnk b) q rs ss \<and> (\<forall>i. q (Futex_Bucket i) = map Futex_Node (fb i)) \<and> (\<forall>w t. Futex_Node t \<notin> set (q (Wq_Head w)))) \<and>
     (\<forall>i. \<forall>t \<in> set (fb i). t \<notin> set rs \<and> t \<notin> set ss \<and> futex_proc (thr b t) \<noteq> None)"

lemma fwaitI:
  assumes "squeues (lnk b) q rs ss" and "\<And>i. q (Futex_Bucket i) = map Futex_Node (fb i)" and "\<And>w t. Futex_Node t \<notin> set (q (Wq_Head w))"
    and "\<And>i t. t \<in> set (fb i) \<Longrightarrow> t \<notin> set rs \<and> t \<notin> set ss \<and> futex_proc (thr b t) \<noteq> None"
  shows "fwait b fb rs ss"
  using assms unfolding fwait_def by blast

lemma fwaitD: "fwait b fb rs ss \<Longrightarrow> t \<in> set (fb i) \<Longrightarrow> t \<notin> set rs \<and> t \<notin> set ss \<and> futex_proc (thr b t) \<noteq> None"
  unfolding fwait_def by blast

lemma fwaitE:
  assumes "fwait b fb rs ss"
  obtains q where "squeues (lnk b) q rs ss" and "\<forall>i. q (Futex_Bucket i) = map Futex_Node (fb i)"
    and "\<forall>w t. Futex_Node t \<notin> set (q (Wq_Head w))"
  using assms unfolding fwait_def by metis

lemma fwait_distinct:
  assumes "fwait b fb rs ss"
  shows "distinct (fb i)" "i \<noteq> j \<Longrightarrow> set (fb i) \<inter> set (fb j) = {}"
proof -
  obtain q where q: "squeues (lnk b) q rs ss" "\<forall>i. q (Futex_Bucket i) = map Futex_Node (fb i)"
    using fwaitE [OF assms] by metis
  show "distinct (fb i)"
    using ringsD(4) [OF squeuesD(1) [OF q(1)], of "Futex_Bucket i"] by (simp add: q distinct_map)
  show "set (fb i) \<inter> set (fb j) = {}" if "i \<noteq> j"
    using ringsD(3) [OF squeuesD(1) [OF q(1)], of "Futex_Bucket i" "Futex_Bucket j"] that by (auto simp: q)
qed

lemma fwait_lnext:
  assumes "fwait b fb rs ss"
  shows "lnext (lnk b) (Futex_Bucket i) = hd (map Futex_Node (fb i) @ [Futex_Bucket i])"
    "fb i = xs @ t # ys \<Longrightarrow> lnext (lnk b) (Futex_Node t) = hd (map Futex_Node ys @ [Futex_Bucket i])"
proof -
  obtain q where q: "squeues (lnk b) q rs ss" "\<forall>i. q (Futex_Bucket i) = map Futex_Node (fb i)"
    using fwaitE [OF assms] by metis
  show "lnext (lnk b) (Futex_Bucket i) = hd (map Futex_Node (fb i) @ [Futex_Bucket i])"
    using ringsD(5) [OF squeuesD(1) [OF q(1)], of "Futex_Bucket i"] by (simp add: q)
  show "lnext (lnk b) (Futex_Node t) = hd (map Futex_Node ys @ [Futex_Bucket i])" if "fb i = xs @ t # ys"
    using klist_lnext [of "lnk b" "Futex_Bucket i" "map Futex_Node xs" "Futex_Node t" "map Futex_Node ys"]
      ringsD(1) [OF squeuesD(1) [OF q(1)], of "Futex_Bucket i"] that by (simp add: q)
qed

lemma remove1_map_Futex: "remove1 (Futex_Node t) (map Futex_Node xs) = map Futex_Node (remove1 t xs)"
  by (induction xs) auto

text \<open>Unlinking a thread removes it from its bucket and touches nothing else.\<close>

lemma squeues_unlink:
  assumes f: "fwait b fb rs ss" and t: "t \<in> set (fb i)"
  obtains q where "squeues (list_remove (Futex_Node t) (lnk b)) q rs ss"
    and "\<forall>j. q (Futex_Bucket j) = map Futex_Node ((fb(i := remove1 t (fb i))) j)" and "\<not> queued heads q (Futex_Node t)"
    and "\<forall>w x. Futex_Node x \<notin> set (q (Wq_Head w))"
proof -
  obtain q where q: "squeues (lnk b) q rs ss" "\<forall>i. q (Futex_Bucket i) = map Futex_Node (fb i)" "\<forall>w x. Futex_Node x \<notin> set (q (Wq_Head w))"
    using fwaitE [OF f] by metis
  let ?q = "q(Futex_Bucket i := remove1 (Futex_Node t) (q (Futex_Bucket i)))"
  have r: "rings (lnk b) heads q"
    by (rule squeuesD(1) [OF q(1)])
  have mem: "Futex_Node t \<in> set (q (Futex_Bucket i))"
    using t by (simp add: q)
  have "squeues (list_remove (Futex_Node t) (lnk b)) ?q rs ss"
    using squeues_remove_other [OF q(1) _ _ _ mem] by simp
  moreover have "\<forall>j. ?q (Futex_Bucket j) = map Futex_Node ((fb(i := remove1 t (fb i))) j)"
    by (simp add: q remove1_map_Futex)
  moreover have "\<not> queued heads ?q (Futex_Node t)"
  proof
    assume "queued heads ?q (Futex_Node t)"
    then obtain l where l: "l \<in> heads" "Futex_Node t \<in> set (?q l)"
      by (auto simp: queued_def)
    show False
    proof (cases "l = Futex_Bucket i")
      case True
      then show False
        using l ringsD(4) [OF r, of "Futex_Bucket i"] by simp
    next
      case False
      then show False
        using l mem ringsD(3) [OF r heads_simps(3), of l i] by auto
    qed
  qed
  moreover have "\<forall>w x. Futex_Node x \<notin> set (?q (Wq_Head w))"
    by (simp add: q)
  ultimately show thesis
    by (rule that)
qed

lemma futex_wake_thread_spec:
  assumes f: "fwait b fb rs ss" and t: "t \<in> set (fb i)"
  shows "fwait (futex_wake_thread t b) (fb(i := remove1 t (fb i))) (rs @ [t]) ss"
    and "thr (futex_wake_thread t b) =
      (thr b)(t := (thr b t)\<lparr>futex_uaddr := 0, futex_proc := None, tstate := THREAD_READY\<rparr>)"
    and "prc (futex_wake_thread t b) = prc b" "current_thread (futex_wake_thread t b) = current_thread b"
proof -
  obtain q where q: "squeues (list_remove (Futex_Node t) (lnk b)) q rs ss"
      "\<forall>j. q (Futex_Bucket j) = map Futex_Node ((fb(i := remove1 t (fb i))) j)" "\<forall>w x. Futex_Node x \<notin> set (q (Wq_Head w))"
    using squeues_unlink [OF f t] by metis
  have nt: "t \<notin> set rs" "t \<notin> set ss"
    using fwaitD [OF f t] by simp_all
  show thr: "thr (futex_wake_thread t b) =
      (thr b)(t := (thr b t)\<lparr>futex_uaddr := 0, futex_proc := None, tstate := THREAD_READY\<rparr>)"
    and "prc (futex_wake_thread t b) = prc b" "current_thread (futex_wake_thread t b) = current_thread b"
    by (simp_all add: futex_wake_thread_def futex_unlink_def sched_add_thread_def set_state_def upd_thr_def upd_lnk_def)
  have lnk: "lnk (futex_wake_thread t b) = list_add_tail Ready_Queue (Sched_Node t) (list_remove (Futex_Node t) (lnk b))"
    by (simp add: futex_wake_thread_def futex_unlink_def sched_add_thread_def set_state_def upd_thr_def upd_lnk_def)
  show "fwait (futex_wake_thread t b) (fb(i := remove1 t (fb i))) (rs @ [t]) ss"
  proof (rule fwaitI)
    show "squeues (lnk (futex_wake_thread t b)) (q(Ready_Queue := q Ready_Queue @ [Sched_Node t])) (rs @ [t]) ss"
      unfolding lnk by (rule squeues_add_ready [OF q(1) nt])
    fix j x assume "x \<in> set ((fb(i := remove1 t (fb i))) j)"
    then have x: "x \<in> set (fb j)" "x \<noteq> t"
      using fwait_distinct(1) [OF f, of i] fwait_distinct(2) [OF f, of i j] t by (cases "j = i"; auto)+
    then show "x \<notin> set (rs @ [t]) \<and> x \<notin> set ss \<and> futex_proc (thr (futex_wake_thread t b) x) \<noteq> None"
      using fwaitD [OF f x(1)] by (simp add: thr)
  qed (simp_all add: q(2,3))
qed

definition futex_move :: "nat \<Rightarrow> nat \<Rightarrow> sys \<Rightarrow> sys" where
  "futex_move uaddr2 t b = upd_lnk (list_add_tail (Futex_Bucket (FUTEX_HASH uaddr2)) (Futex_Node t))
     (upd_thr t (\<lambda>x. x\<lparr>futex_uaddr := uaddr2\<rparr>) (upd_lnk (list_remove (Futex_Node t)) b))"

lemma futex_move_spec:
  assumes f: "fwait b fb rs ss" and t: "t \<in> set (fb i)" and j: "j = FUTEX_HASH uaddr2" "j \<noteq> i"
  shows "fwait (futex_move uaddr2 t b) (fb(i := remove1 t (fb i), j := fb j @ [t])) rs ss"
    and "thr (futex_move uaddr2 t b) = (thr b)(t := (thr b t)\<lparr>futex_uaddr := uaddr2\<rparr>)"
    and "prc (futex_move uaddr2 t b) = prc b" "current_thread (futex_move uaddr2 t b) = current_thread b"
proof -
  obtain q where q: "squeues (list_remove (Futex_Node t) (lnk b)) q rs ss"
      "\<forall>j. q (Futex_Bucket j) = map Futex_Node ((fb(i := remove1 t (fb i))) j)" "\<not> queued heads q (Futex_Node t)"
      "\<forall>w x. Futex_Node x \<notin> set (q (Wq_Head w))"
    using squeues_unlink [OF f t] by metis
  show thr: "thr (futex_move uaddr2 t b) = (thr b)(t := (thr b t)\<lparr>futex_uaddr := uaddr2\<rparr>)"
    and "prc (futex_move uaddr2 t b) = prc b" "current_thread (futex_move uaddr2 t b) = current_thread b"
    by (simp_all add: futex_move_def upd_thr_def upd_lnk_def)
  have lnk: "lnk (futex_move uaddr2 t b) = list_add_tail (Futex_Bucket j) (Futex_Node t) (list_remove (Futex_Node t) (lnk b))"
    by (simp add: futex_move_def upd_thr_def upd_lnk_def j)
  show "fwait (futex_move uaddr2 t b) (fb(i := remove1 t (fb i), j := fb j @ [t])) rs ss"
  proof (rule fwaitI)
    show "squeues (lnk (futex_move uaddr2 t b)) (q(Futex_Bucket j := q (Futex_Bucket j) @ [Futex_Node t])) rs ss"
      unfolding lnk by (rule squeues_add_other [OF q(1) _ _ _ _ q(3)]) simp_all
    show "(q(Futex_Bucket j := q (Futex_Bucket j) @ [Futex_Node t])) (Futex_Bucket k) =
        map Futex_Node ((fb(i := remove1 t (fb i), j := fb j @ [t])) k)" for k
      using j(2) by (auto simp: q(2))
    show "Futex_Node x \<notin> set ((q(Futex_Bucket j := q (Futex_Bucket j) @ [Futex_Node t])) (Wq_Head w))" for w x
      by (simp add: q(4))
    fix k x assume x: "x \<in> set ((fb(i := remove1 t (fb i), j := fb j @ [t])) k)"
    have "x \<in> set (fb i) \<or> x \<in> set (fb k)"
      using x t set_remove1_subset [of t "fb i"] by (auto split: if_splits)
    then show "x \<notin> set rs \<and> x \<notin> set ss \<and> futex_proc (thr (futex_move uaddr2 t b) x) \<noteq> None"
      using fwaitD [OF f, of x] by (auto simp: thr)
  qed
qed

section \<open>The walks\<close>

text \<open>
  The state of a walk over bucket \<open>i\<close> that wakes \<open>nw\<close> and then moves \<open>nr\<close> matching threads to the
  futex \<open>u2\<close> of bucket \<open>j\<close>, once the threads \<open>ds\<close> are behind it and \<open>ys\<close> are still ahead.
\<close>

definition woken_of :: "nat \<Rightarrow> (nat \<Rightarrow> bool) \<Rightarrow> nat list \<Rightarrow> nat list" where
  "woken_of nw M ds = take nw (filter M ds)"

definition moved_of :: "nat \<Rightarrow> nat \<Rightarrow> (nat \<Rightarrow> bool) \<Rightarrow> nat list \<Rightarrow> nat list" where
  "moved_of nw nr M ds = take nr (drop nw (filter M ds))"

definition fstate :: "sys \<Rightarrow> (nat \<Rightarrow> nat list) \<Rightarrow> nat list \<Rightarrow> nat list \<Rightarrow> nat \<Rightarrow> nat \<Rightarrow> nat \<Rightarrow> (nat \<Rightarrow> bool) \<Rightarrow>
    nat \<Rightarrow> nat \<Rightarrow> nat list \<Rightarrow> nat list \<Rightarrow> sys \<Rightarrow> bool" where
  "fstate b fb rs ss i j u2 M nw nr ds ys b' \<longleftrightarrow>
     (let ws = woken_of nw M ds; ms = moved_of nw nr M ds
      in fwait b' (fb(i := filter (\<lambda>t. t \<notin> set ws \<and> t \<notin> set ms) ds @ ys, j := fb j @ ms)) (rs @ ws) ss \<and>
         prc b' = prc b \<and> current_thread b' = current_thread b \<and>
         (\<forall>t. thr b' t = (if t \<in> set ws then (thr b t)\<lparr>futex_uaddr := 0, futex_proc := None, tstate := THREAD_READY\<rparr>
            else if t \<in> set ms then (thr b t)\<lparr>futex_uaddr := u2\<rparr> else thr b t)))"

lemma woken_moved_subset: "set (woken_of nw M ds) \<subseteq> set ds" "set (moved_of nw nr M ds) \<subseteq> set ds"
  by (auto simp: woken_of_def moved_of_def dest!: in_set_takeD in_set_dropD)

lemma woken_moved_snoc:
  "\<not> M t \<Longrightarrow> woken_of nw M (ds @ [t]) = woken_of nw M ds \<and> moved_of nw nr M (ds @ [t]) = moved_of nw nr M ds"
  "M t \<Longrightarrow> length (filter M ds) < nw \<Longrightarrow>
     woken_of nw M (ds @ [t]) = woken_of nw M ds @ [t] \<and> moved_of nw nr M (ds @ [t]) = moved_of nw nr M ds"
  "M t \<Longrightarrow> nw \<le> length (filter M ds) \<Longrightarrow> length (filter M ds) < nw + nr \<Longrightarrow>
     woken_of nw M (ds @ [t]) = woken_of nw M ds \<and> moved_of nw nr M (ds @ [t]) = moved_of nw nr M ds @ [t]"
  "nw + nr \<le> length (filter M ds) \<Longrightarrow>
     woken_of nw M (ds @ ys) = woken_of nw M ds \<and> moved_of nw nr M (ds @ ys) = moved_of nw nr M ds"
  by (auto simp: woken_of_def moved_of_def)

lemma fstate_start: "fwait b fb rs ss \<Longrightarrow> j \<noteq> i \<Longrightarrow> fstate b fb rs ss i j u2 M nw nr [] (fb i) b"
  by (simp add: fstate_def woken_of_def moved_of_def fun_upd_idem)

lemma fstate_next:
  assumes f: "fstate b fb rs ss i j u2 M nw nr ds (t # ys) b'" and d: "distinct (ds @ t # ys)" and j: "j \<noteq> i"
  shows "lnext (lnk b') (Futex_Node t) = hd (map Futex_Node ys @ [Futex_Bucket i])" "thr b' t = thr b t" "prc b' = prc b"
proof -
  have t: "t \<notin> set (woken_of nw M ds)" "t \<notin> set (moved_of nw nr M ds)"
    using d woken_moved_subset by fastforce+
  show "thr b' t = thr b t" "prc b' = prc b"
    using f t by (simp_all add: fstate_def Let_def)
  show "lnext (lnk b') (Futex_Node t) = hd (map Futex_Node ys @ [Futex_Bucket i])"
    using f j by (auto simp: fstate_def Let_def intro: fwait_lnext(2))
qed

lemma fstate_step:
  assumes f: "fstate b fb rs ss i j u2 M nw nr ds (t # ys) b'" and d: "distinct (ds @ t # ys)"
    and j: "j = FUTEX_HASH u2" "j \<noteq> i"
  shows "\<not> M t \<Longrightarrow> fstate b fb rs ss i j u2 M nw nr (ds @ [t]) ys b'"
    and "M t \<Longrightarrow> length (filter M ds) < nw \<Longrightarrow> fstate b fb rs ss i j u2 M nw nr (ds @ [t]) ys (futex_wake_thread t b')"
    and "M t \<Longrightarrow> nw \<le> length (filter M ds) \<Longrightarrow> length (filter M ds) < nw + nr \<Longrightarrow>
      fstate b fb rs ss i j u2 M nw nr (ds @ [t]) ys (futex_move u2 t b')"
proof -
  let ?ws = "woken_of nw M ds" and ?ms = "moved_of nw nr M ds"
  let ?keep = "filter (\<lambda>t. t \<notin> set ?ws \<and> t \<notin> set ?ms) ds"
  let ?fb = "fb(i := ?keep @ t # ys, j := fb j @ ?ms)"
  have t: "t \<notin> set ?ws" "t \<notin> set ?ms" "t \<notin> set ds"
    using d woken_moved_subset by fastforce+
  have fw: "fwait b' ?fb (rs @ ?ws) ss" and eq: "prc b' = prc b" "current_thread b' = current_thread b"
    and th: "\<And>t. thr b' t = (if t \<in> set ?ws then (thr b t)\<lparr>futex_uaddr := 0, futex_proc := None, tstate := THREAD_READY\<rparr>
            else if t \<in> set ?ms then (thr b t)\<lparr>futex_uaddr := u2\<rparr> else thr b t)"
    using f by (simp_all add: fstate_def Let_def)
  have mem: "t \<in> set (?fb i)"
    using j by simp
  have rm: "remove1 t (?fb i) = ?keep @ ys"
    using j t(3) by (simp add: remove1_append)
  have flt: "filter (\<lambda>x. x \<noteq> t \<and> x \<notin> set ?ws \<and> x \<notin> set ?ms) ds = ?keep" "filter (\<lambda>x. x \<notin> set ?ws \<and> x \<noteq> t \<and> x \<notin> set ?ms) ds = ?keep"
    using t(3) by (auto intro!: filter_cong)
  show "fstate b fb rs ss i j u2 M nw nr (ds @ [t]) ys b'" if "\<not> M t"
    using fw eq th t woken_moved_snoc(1) [where M = M and t = t, OF that] by (simp add: fstate_def)
  note w = futex_wake_thread_spec [OF fw mem] and m = futex_move_spec [OF fw mem j]
  show "fstate b fb rs ss i j u2 M nw nr (ds @ [t]) ys (futex_wake_thread t b')" if h: "M t" "length (filter M ds) < nw"
  proof -
    have e: "?fb(i := remove1 t (?fb i)) = fb(i := ?keep @ ys, j := fb j @ ?ms)"
      unfolding rm using j by auto
    show ?thesis
      using woken_moved_snoc(2) [where M = M and t = t and nr = nr, OF h] w(1) [unfolded e] w(2-) t flt eq th
      by (simp add: fstate_def)
  qed
  show "fstate b fb rs ss i j u2 M nw nr (ds @ [t]) ys (futex_move u2 t b')"
    if h: "M t" "nw \<le> length (filter M ds)" "length (filter M ds) < nw + nr"
  proof -
    have e: "?fb(i := remove1 t (?fb i), j := ?fb j @ [t]) = fb(i := ?keep @ ys, j := fb j @ ?ms @ [t])"
      unfolding rm using j by auto
    show ?thesis
      using woken_moved_snoc(3) [where M = M and t = t, OF h] m(1) [unfolded e] m(2-) t flt eq th
      by (simp add: fstate_def)
  qed
qed

lemma fstate_stop:
  assumes f: "fstate b fb rs ss i j u2 M nw nr ds ys b'" and n: "nw + nr \<le> length (filter M ds)" and d: "distinct (ds @ ys)"
  shows "fstate b fb rs ss i j u2 M nw nr (ds @ ys) [] b'"
proof -
  let ?ws = "woken_of nw M ds" and ?ms = "moved_of nw nr M ds"
  have "\<forall>x \<in> set ys. x \<notin> set ?ws \<and> x \<notin> set ?ms"
    using d woken_moved_subset by fastforce
  then have "filter (\<lambda>x. x \<notin> set ?ws \<and> x \<notin> set ?ms) ys = ys"
    by simp
  then show ?thesis
    using f woken_moved_snoc(4) [OF n, of ys] by (simp add: fstate_def)
qed

lemma futex_match_cong: "thr b' t = thr b t \<Longrightarrow> prc b' = prc b \<Longrightarrow> futex_match u p b' t = futex_match u p b t"
  by (simp add: futex_match_def split: option.split)

lemma wake_walk:
  fixes uaddr p :: nat
  assumes f: "fwait b fb rs ss" and j: "j = FUTEX_HASH u2" "j \<noteq> i" and fuel: "length (fb i) < fuel" and cnt: "0 \<le> cnt"
  defines "M \<equiv> futex_match uaddr p b" and "nw \<equiv> nat cnt"
  shows "\<exists>s. list_for_each_safe fuel (lnk \<circ> fst) (wake_body uaddr cnt p) (Futex_Bucket i) (lnext (lnk b) (Futex_Bucket i)) (b, 0) = Some s \<and>
    fstate b fb rs ss i j u2 M nw 0 (fb i) [] (fst s) \<and> snd s = int (length (woken_of nw M (fb i)))"
proof -
  let ?P = "\<lambda>ns s. \<exists>ds ys. fb i = ds @ ys \<and> ns = map Futex_Node ys \<and> fstate b fb rs ss i j u2 M nw 0 ds ys (fst s) \<and>
      snd s = int (length (woken_of nw M ds))"
  let ?Q = "\<lambda>s. fstate b fb rs ss i j u2 M nw 0 (fb i) [] (fst s) \<and> snd s = int (length (woken_of nw M (fb i)))"
  have "\<exists>s. list_for_each_safe fuel (lnk \<circ> fst) (wake_body uaddr cnt p) (Futex_Bucket i)
      (hd (map Futex_Node (fb i) @ [Futex_Bucket i])) (b, 0) = Some s \<and> ?Q s"
  proof (rule list_for_each_safe_inv [where P = ?P and Q = ?Q])
    show "?P (map Futex_Node (fb i)) (b, 0)"
      using fstate_start [OF f j(2), of u2 M nw 0] by (intro exI [of _ "[]"] exI [of _ "fb i"]) (simp add: woken_of_def)
    fix x ns s assume "?P (x # ns) s"
    then obtain ds t ys where h: "fb i = ds @ t # ys" "x = Futex_Node t" "ns = map Futex_Node ys"
        "fstate b fb rs ss i j u2 M nw 0 ds (t # ys) (fst s)" "snd s = int (length (woken_of nw M ds))"
      by (auto simp: Cons_eq_map_conv)
    obtain b' w where s: "s = (b', w)"
      by force
    have d: "distinct (ds @ t # ys)"
      using fwait_distinct(1) [OF f, of i] h(1) by simp
    note nx = fstate_next [OF h(4) d j(2)] and st = fstate_step [OF h(4) d j] and snoc = woken_moved_snoc(1-3) [where nr = 0 and nw = nw and M = M and ds = ds and t = t]
    have M: "futex_match uaddr p b' t = M t"
      unfolding M_def by (rule futex_match_cong) (use nx s in simp_all)
    have w: "w \<ge> cnt \<longleftrightarrow> nw \<le> length (filter M ds)"
      using h(5) cnt by (auto simp: s woken_of_def nw_def)
    show "lnext ((lnk \<circ> fst) s) x = hd (ns @ [Futex_Bucket i]) \<and>
      (if fst (wake_body uaddr cnt p x s) then ?Q (snd (wake_body uaddr cnt p x s)) else ?P ns (snd (wake_body uaddr cnt p x s)))"
    proof (cases "nw \<le> length (filter M ds)")
      case True
      have "?Q s"
        using fstate_stop [OF h(4) _ d] True woken_moved_snoc(4) [where nr = 0 and nw = nw and M = M and ds = ds and ys = "t # ys"] h(1,5)
        by simp
      then show ?thesis
        using nx(1) h(2,3) w True by (simp add: wake_body_def s)
    next
      case False
      then have body: "wake_body uaddr cnt p x s = (False, if M t then (futex_wake_thread t b', w + 1) else s)"
        using w M by (simp add: wake_body_def h(2) s)
      have "fstate b fb rs ss i j u2 M nw 0 (ds @ [t]) ys (fst (if M t then (futex_wake_thread t b', w + 1) else s)) \<and>
          snd (if M t then (futex_wake_thread t b', w + 1) else s) = int (length (woken_of nw M (ds @ [t])))"
        using st(1,2) snoc(1,2) False h(5) s by (cases "M t") simp_all
      then have "?P ns (snd (wake_body uaddr cnt p x s))"
        unfolding body snd_conv using h(1,3) by (intro exI [of _ "ds @ [t]"] exI [of _ ys]) simp
      moreover have "lnext ((lnk \<circ> fst) s) x = hd (ns @ [Futex_Bucket i])"
        using nx(1) h(2,3) by simp
      ultimately show ?thesis
        using body by simp
    qed
  qed (use fuel in auto)
  then show ?thesis
    unfolding fwait_lnext(1) [OF f] .
qed

lemma requeue_walk:
  fixes uaddr p :: nat
  assumes f: "fwait b fb rs ss" and j: "j = FUTEX_HASH u2" "j \<noteq> i" and fuel: "length (fb i) < fuel" and cnt: "0 \<le> wc" "0 \<le> rc"
  defines "M \<equiv> futex_match uaddr p b" and "nw \<equiv> nat wc" and "nr \<equiv> nat rc"
  shows "\<exists>s. list_for_each_safe fuel (lnk \<circ> fst) (requeue_body uaddr wc u2 rc p) (Futex_Bucket i) (lnext (lnk b) (Futex_Bucket i)) (b, 0, 0) = Some s \<and>
    fstate b fb rs ss i j u2 M nw nr (fb i) [] (fst s) \<and>
    snd s = (int (length (woken_of nw M (fb i))), int (length (moved_of nw nr M (fb i))))"
proof -
  let ?c = "\<lambda>ds. (int (length (woken_of nw M ds)), int (length (moved_of nw nr M ds)))"
  let ?P = "\<lambda>ns s. \<exists>ds ys. fb i = ds @ ys \<and> ns = map Futex_Node ys \<and> fstate b fb rs ss i j u2 M nw nr ds ys (fst s) \<and> snd s = ?c ds"
  let ?Q = "\<lambda>s. fstate b fb rs ss i j u2 M nw nr (fb i) [] (fst s) \<and> snd s = ?c (fb i)"
  let ?body = "requeue_body uaddr wc u2 rc p"
  have "\<exists>s. list_for_each_safe fuel (lnk \<circ> fst) ?body (Futex_Bucket i)
      (hd (map Futex_Node (fb i) @ [Futex_Bucket i])) (b, 0, 0) = Some s \<and> ?Q s"
  proof (rule list_for_each_safe_inv [where P = ?P and Q = ?Q])
    show "?P (map Futex_Node (fb i)) (b, 0, 0)"
      using fstate_start [OF f j(2), of u2 M nw nr] by (intro exI [of _ "[]"] exI [of _ "fb i"]) (simp add: woken_of_def moved_of_def)
    fix x ns s assume "?P (x # ns) s"
    then obtain ds t ys where h: "fb i = ds @ t # ys" "x = Futex_Node t" "ns = map Futex_Node ys"
        "fstate b fb rs ss i j u2 M nw nr ds (t # ys) (fst s)" "snd s = ?c ds"
      by (auto simp: Cons_eq_map_conv)
    obtain b' w r where s: "s = (b', w, r)"
      by (cases s) auto
    have d: "distinct (ds @ t # ys)"
      using fwait_distinct(1) [OF f, of i] h(1) by simp
    note nx = fstate_next [OF h(4) d j(2)] and st = fstate_step [OF h(4) d j]
      and snoc = woken_moved_snoc(1-3) [where nr = nr and nw = nw and M = M and ds = ds and t = t]
    have M: "futex_match uaddr p b' t = M t"
      unfolding M_def by (rule futex_match_cong) (use nx s in simp_all)
    let ?n = "length (filter M ds)"
    have w: "w < wc \<longleftrightarrow> ?n < nw" "nw \<le> ?n \<Longrightarrow> r < rc \<longleftrightarrow> ?n < nw + nr"
      using h(5) cnt by (auto simp: s woken_of_def moved_of_def nw_def nr_def)
    have body: "?body x s = (if M t then if ?n < nw then (False, futex_wake_thread t b', w + 1, r)
        else if ?n < nw + nr then (False, futex_move u2 t b', w, r + 1) else (True, s) else (False, s))"
      using w M by (simp add: requeue_body_def h(2) s futex_move_def)
    have nxt: "lnext ((lnk \<circ> fst) s) x = hd (ns @ [Futex_Bucket i])"
      using nx(1) h(2,3) by simp
    show "lnext ((lnk \<circ> fst) s) x = hd (ns @ [Futex_Bucket i]) \<and> (if fst (?body x s) then ?Q (snd (?body x s)) else ?P ns (snd (?body x s)))"
    proof (cases "M t \<and> nw + nr \<le> ?n")
      case True
      then have "?Q s"
        using fstate_stop [OF h(4) _ d] woken_moved_snoc(4) [where nr = nr and nw = nw and M = M and ds = ds and ys = "t # ys"] h(1,5) by simp
      with nxt True show ?thesis
        by (simp add: body)
    next
      case False
      let ?s = "if M t then if ?n < nw then (futex_wake_thread t b', w + 1, r) else (futex_move u2 t b', w, r + 1) else s"
      have body: "?body x s = (False, ?s)"
        using False by (auto simp: body)
      have "fstate b fb rs ss i j u2 M nw nr (ds @ [t]) ys (fst ?s) \<and> snd ?s = ?c (ds @ [t])"
      proof (cases "M t")
        case True
        then show ?thesis
          using st(2,3) snoc(2,3) False h(5) s by (cases "?n < nw") simp_all
      qed (use st(1) snoc(1) h(5) in simp)
      then have "?P ns (snd (?body x s))"
        unfolding body snd_conv using h(1,3) by (intro exI [of _ "ds @ [t]"] exI [of _ ys]) simp
      with nxt body show ?thesis
        by simp
    qed
  qed (use fuel in auto)
  then show ?thesis
    unfolding fwait_lnext(1) [OF f] .
qed

lemma futex_enqueue_spec:
  assumes f: "fwait b fb rs ss" and t: "\<And>i. t \<notin> set (fb i)" "t \<notin> set rs" "t \<notin> set ss"
  shows "fwait (futex_enqueue t u p b) (fb(FUTEX_HASH u := fb (FUTEX_HASH u) @ [t])) rs ss"
proof -
  let ?b = "futex_enqueue t u p b" and ?i = "FUTEX_HASH u"
  obtain q where q: "squeues (lnk b) q rs ss" "\<forall>i. q (Futex_Bucket i) = map Futex_Node (fb i)" "\<forall>w x. Futex_Node x \<notin> set (q (Wq_Head w))"
    using fwaitE [OF f] by metis
  have nq: "\<not> queued heads q (Futex_Node t)"
    using t(1) q squeuesD(2,3) [OF q(1)] by (auto simp: queued_def heads_def)
  show ?thesis
  proof (rule fwaitI)
    show "squeues (lnk ?b) (q(Futex_Bucket ?i := q (Futex_Bucket ?i) @ [Futex_Node t])) rs ss"
      using squeues_add_other [OF q(1) _ _ _ _ nq, of "Futex_Bucket ?i"] by (simp add: futex_enqueue_def upd_lnk_def upd_thr_def)
  next
    fix k x assume "x \<in> set ((fb(?i := fb ?i @ [t])) k)"
    then have "x \<in> set (fb k) \<or> x = t"
      by (auto split: if_splits)
    then show "x \<notin> set rs \<and> x \<notin> set ss \<and> futex_proc (thr ?b x) \<noteq> None"
      using fwaitD [OF f, of x k] t by (auto simp: futex_enqueue_def upd_lnk_def upd_thr_def)
  qed (use q in auto)
qed

lemma woken_result:
  assumes f: "fwait b fb rs ss" and u: "uaddr \<noteq> 0" and p: "sched_get_current_process cpu b = Some p" and c: "0 < cnt"
    and fuel: "length (fb (FUTEX_HASH uaddr)) < fuel"
  defines "i \<equiv> FUTEX_HASH uaddr" and "ws \<equiv> take (nat cnt) (filter (futex_match uaddr p b) (fb (FUTEX_HASH uaddr)))"
  shows "\<exists>b'. futex_wake fuel cpu uaddr cnt b = Some (int (length ws), b') \<and>
    fwait b' (fb(i := filter (\<lambda>t. t \<notin> set ws) (fb i))) (rs @ ws) ss \<and>
    (\<forall>t. thr b' t = (if t \<in> set ws then (thr b t)\<lparr>futex_uaddr := 0, futex_proc := None, tstate := THREAD_READY\<rparr> else thr b t))"
proof -
  define u2 where "u2 = 4 * (Suc i mod 64)"
  have i: "i < 64"
    by (simp add: i_def FUTEX_HASH_def FUTEX_HASH_SIZE_def)
  have j: "FUTEX_HASH u2 \<noteq> i"
    using i by (cases "i = 63") (auto simp: u2_def FUTEX_HASH_def FUTEX_HASH_SIZE_def)
  from wake_walk [OF f refl j fuel [folded i_def], of cnt uaddr p] c obtain b' w
    where s: "list_for_each_safe fuel (lnk \<circ> fst) (wake_body uaddr cnt p) (Futex_Bucket i) (lnext (lnk b) (Futex_Bucket i)) (b, 0) = Some (b', w)"
      "fstate b fb rs ss i (FUTEX_HASH u2) u2 (futex_match uaddr p b) (nat cnt) 0 (fb i) [] b'"
      "w = int (length (woken_of (nat cnt) (futex_match uaddr p b) (fb i)))"
    by auto
  have ws: "woken_of (nat cnt) (futex_match uaddr p b) (fb i) = ws" "moved_of (nat cnt) 0 (futex_match uaddr p b) (fb i) = []"
    by (simp_all add: woken_of_def moved_of_def ws_def i_def)
  have "fb(i := xs, FUTEX_HASH u2 := fb (FUTEX_HASH u2)) = fb(i := xs)" for xs
    using j by auto
  then show ?thesis
    using s u p c by (auto simp: futex_wake_def i_def [symmetric] fstate_def ws Let_def)
qed

section \<open>Properties\<close>

text \<open>
  C25: \<open>futex_wake\<close> terminates and wakes exactly the longest-waiting threads of the address, at most
  \<open>cnt\<close> of them: they leave the bucket, become ready and join the ready queue in the order in which
  they went to sleep. All other waiters, those of other addresses in the same bucket included, and
  all other queues stay as they are, and the result is the number of woken threads.
\<close>

theorem futex_wake_fifo:
  assumes "fwait b fb rs ss" and "uaddr \<noteq> 0" and "sched_get_current_process cpu b = Some p" and "0 < cnt"
    and "i = FUTEX_HASH uaddr" and "length (fb i) < fuel"
    and "ws = take (nat cnt) (filter (futex_match uaddr p b) (fb i))"
  shows "\<exists>b'. futex_wake fuel cpu uaddr cnt b = Some (int (length ws), b') \<and>
    fwait b' (fb(i := filter (\<lambda>t. t \<notin> set ws) (fb i))) (rs @ ws) ss \<and>
    (\<forall>t \<in> set ws. tstate (thr b' t) = THREAD_READY \<and> futex_uaddr (thr b' t) = 0) \<and>
    (\<forall>t. t \<notin> set ws \<longrightarrow> thr b' t = thr b t)"
  using woken_result [OF assms(1-4), of fuel] assms(5-7) by fastforce

lemma fwait_boot: "fwait user_demo (\<lambda>_. []) [] []"
proof (rule fwaitI)
  have "lnk user_demo = \<lparr>lprev = id, lnext = id\<rparr>"
    by (simp add: user_demo_def boot_sys_def sched_init_def upd_lnk_def)
  moreover have "rings \<lparr>lprev = id, lnext = id\<rparr> heads (\<lambda>_. [])"
    by (auto simp: rings_def klist_def unlinked_def)
  ultimately show "squeues (lnk user_demo) (\<lambda>_. []) [] []"
    by (simp add: squeues_def)
qed simp_all

lemma user_demo_current [simp]: "sched_get_current_process c user_demo = Some 0" "sched_get_current_thread c user_demo = Some 0"
  by (simp_all add: sched_get_current_process_def sched_get_current_thread_def user_demo_def new_thread_def)

lemma futex_enqueue_sel [simp]:
  "thr (futex_enqueue t u p b) = (thr b)(t := (thr b t)\<lparr>tstate := THREAD_BLOCKED, futex_uaddr := u, futex_proc := Some p\<rparr>)"
  "prc (futex_enqueue t u p b) = prc b" "current_thread (futex_enqueue t u p b) = current_thread b"
  "g_idle_threads (futex_enqueue t u p b) = g_idle_threads b"
  by (simp_all add: futex_enqueue_def upd_lnk_def upd_thr_def)

lemma futex_enqueue_process [simp]: "sched_get_current_process c (futex_enqueue t u p b) = sched_get_current_process c b"
  by (simp add: sched_get_current_process_def sched_get_current_thread_def split: option.split)

lemma FUTEX_HASH_0 [simp]: "FUTEX_HASH 256 = 0" "FUTEX_HASH 512 = 0"
  by (simp_all add: FUTEX_HASH_def FUTEX_HASH_SIZE_def)

text \<open>Threads 1, 2 and 3 wait in one bucket, the second one for another address.\<close>

definition three_waiters :: sys where
  "three_waiters = futex_enqueue 3 256 0 (futex_enqueue 2 512 0 (futex_enqueue 1 256 0 user_demo))"

lemma three_waiters_fwait: "fwait three_waiters ((\<lambda>_. [])(0 := [1, 2, 3])) [] []"
proof -
  have "fwait (futex_enqueue 1 256 0 user_demo) ((\<lambda>_. [])(0 := [1])) [] []"
    using futex_enqueue_spec [OF fwait_boot, of 1 256 0] by simp
  from futex_enqueue_spec [OF this, of 2 512 0]
  have "fwait (futex_enqueue 2 512 0 (futex_enqueue 1 256 0 user_demo)) ((\<lambda>_. [])(0 := [1, 2])) [] []"
    by simp
  from futex_enqueue_spec [OF this, of 3 256 0] show ?thesis
    by (simp add: three_waiters_def)
qed

lemma three_waiters_match: "futex_match 256 0 three_waiters t \<longleftrightarrow> t = 1 \<or> t = 3"
  by (auto simp: futex_match_def three_waiters_def user_demo_def new_thread_def)

lemma three_waiters_process: "sched_get_current_process c three_waiters = Some 0"
  by (simp add: three_waiters_def)

theorem futex_wake_fifo_witness:
  "\<exists>b'. futex_wake 4 0 256 7 three_waiters = Some (2, b') \<and> fwait b' ((\<lambda>_. [])(0 := [2])) [1, 3] []"
  using futex_wake_fifo [OF three_waiters_fwait _ three_waiters_process, of 256 7 0 4 "[1, 3]" 0]
  by (auto simp: three_waiters_match)

text \<open>
  C26: \<open>futex_requeue\<close> between two buckets terminates, wakes the first \<open>wake_count\<close> waiters of the
  first address and moves the next \<open>requeue_count\<close> ones, still asleep and in their order, to the
  end of the bucket of the second address; it returns how many it touched, and nobody is lost.
\<close>

theorem futex_requeue_correct:
  assumes "fwait b fb rs ss" and "u1 \<noteq> 0" and "u2 \<noteq> 0" and "sched_get_current_process cpu b = Some p" and "0 \<le> wc" and "0 \<le> rc"
    and "i = FUTEX_HASH u1" and "j = FUTEX_HASH u2" and "j \<noteq> i" and "length (fb i) < fuel"
    and "xs = filter (futex_match u1 p b) (fb i)" and "ws = take (nat wc) xs" and "ms = take (nat rc) (drop (nat wc) xs)"
  shows "\<exists>b'. futex_requeue fuel cpu u1 wc u2 rc b = Some (int (length ws + length ms), b') \<and>
    fwait b' (fb(i := filter (\<lambda>t. t \<notin> set ws \<and> t \<notin> set ms) (fb i), j := fb j @ ms)) (rs @ ws) ss \<and>
    (\<forall>t. thr b' t = (if t \<in> set ws then (thr b t)\<lparr>futex_uaddr := 0, futex_proc := None, tstate := THREAD_READY\<rparr>
       else if t \<in> set ms then (thr b t)\<lparr>futex_uaddr := u2\<rparr> else thr b t))"
proof -
  have ws: "woken_of (nat wc) (futex_match u1 p b) (fb i) = ws" "moved_of (nat wc) (nat rc) (futex_match u1 p b) (fb i) = ms"
    by (simp_all add: woken_of_def moved_of_def assms)
  from requeue_walk [OF assms(1,8,9,10,5,6), of u1 p] show ?thesis
    using assms(2-4) unfolding ws by (auto simp: futex_requeue_def assms(7) [symmetric] fstate_def ws Let_def)
qed

theorem futex_requeue_correct_witness:
  "\<exists>b'. futex_requeue 4 0 256 1 260 1 three_waiters = Some (2, b') \<and> fwait b' ((\<lambda>_. [])(0 := [2], 1 := [3])) [1] [] \<and>
     tstate (thr b' 3) = THREAD_BLOCKED"
proof -
  have "FUTEX_HASH 260 = 1"
    by (simp add: FUTEX_HASH_def FUTEX_HASH_SIZE_def)
  then show ?thesis
    using futex_requeue_correct [OF three_waiters_fwait _ _ three_waiters_process, of 256 260 1 1 0 1 4 "[1, 3]" "[1]" "[3]" 0]
    by (auto simp: three_waiters_match) (auto simp: three_waiters_def)
qed


lemma copy_zero_word: "\<exists>m'. copy_from_user 0 user_demo one_frame 100 0x400000 4 (\<lambda>_. 0) = (True, m') \<and> m' = (\<lambda>_. 0)"
proof -
  obtain r m' where c: "do_copy_from one_frame 16 100 0x400000 4 False 0 (\<lambda>_. 0) = (r, m')"
    by (metis surj_pair)
  have u: "ubyte one_frame 16 w 0x400000 i = 4096 + i" if "i < 4" for i w
    using one_frame_byte [of i w] that by (simp add: VMM_USER_END_def PAGE_SIZE_def)
  have "granted one_frame 16 False 0x400000 4"
    by (simp add: granted_def one_frame_phys VMM_USER_END_def)
  then have r: r
    using copy_granted [of one_frame 16 100 "0x400000" 4 False "\<lambda>_. 0"] c by simp
  have "apart one_frame 16 False 0x400000 4 100"
    by (auto simp: apart_def u)
  note ci = copy_in [OF _ this c, simplified]
  have "m' a = 0" for a
    using ci r by (cases "a < 100 \<or> 104 \<le> a") (auto dest: spec [of _ "a - 100"])
  moreover have "valid_user_range 0x400000 4"
    by (simp add: valid_user_range_def add64_def sub64_def USER_ADDR_MAX_def)
  ultimately show ?thesis
    using c r by (auto simp: copy_from_user_def do_copy_def Let_def)
qed

lemma one_frame_virt: "vmm_virt_to_phys 16 0x400000 one_frame \<noteq> 0"
  by (simp add: vmm_virt_to_phys_def one_frame_def vm_demo_def has_def huge_def VMM_FLAG_PRESENT_def frame_of_def PHYS_ADDR_MASK_def Let_def)

lemma user_demo_blocks:
  "futex_wait 0 0x400000 0 0 100 200 0 1000 one_frame (\<lambda>_. 0, user_demo) = (Blocked, \<lambda>_. 0, futex_enqueue 0 0x400000 0 user_demo)"
proof -
  have "pagemap (prc user_demo 0) = 16" "le_read (\<lambda>_. 0) 100 4 = 0"
    by (simp_all add: user_demo_def le_read_def upt_rec)
  then show ?thesis
    using one_frame_virt copy_zero_word by (auto simp: futex_wait_def)
qed


end
