(* ===== verification/Netbuf.thy ===== *)
theory Netbuf
  imports Prelude
begin

text \<open>
  The packet buffers, byte order and checksums of \<^verbatim>\<open>kernel/include/net/net.h\<close> and
  \<^verbatim>\<open>kernel/src/net/ipv4.c\<close>. A buffer is a value: every function of the stack that is handed one
  frees it or passes it on. The header structures are packed, so their fields are bytes at fixed
  places; a 16- or 32-bit field is read and written in the machine's little-endian order.
\<close>

unbundle bit_operations_syntax

section \<open>Buffers and fields\<close>

definition NET_MAX_PACKET_SIZE :: nat where
  "NET_MAX_PACKET_SIZE = 2048"

record net_buf =
  bdata :: "u8 list"
  blen :: nat
  boffset :: nat

definition buf_ok :: "net_buf \<Rightarrow> bool" where
  "buf_ok b \<longleftrightarrow> length (bdata b) = NET_MAX_PACKET_SIZE \<and> boffset b + blen b \<le> NET_MAX_PACKET_SIZE"

definition zero_buf :: net_buf where
  "zero_buf = \<lparr>bdata = replicate NET_MAX_PACKET_SIZE 0, blen = 0, boffset = 0\<rparr>"

text \<open>The bytes that a buffer carries.\<close>

definition content :: "net_buf \<Rightarrow> u8 list" where
  "content b = take (blen b) (drop (boffset b) (bdata b))"

definition get8 :: "u8 list \<Rightarrow> nat \<Rightarrow> u8" where
  "get8 d i = (if i < length d then d ! i else 0)"

definition get16 :: "u8 list \<Rightarrow> nat \<Rightarrow> u16" where
  "get16 d i = of_nat (unat (get8 d i) + 256 * unat (get8 d (i + 1)))"

definition get32 :: "u8 list \<Rightarrow> nat \<Rightarrow> u32" where
  "get32 d i = of_nat (unat (get16 d i) + 65536 * unat (get16 d (i + 2)))"

text \<open>
  Writing \<open>xs\<close> at \<open>i\<close>, \<open>None\<close> when this leaves the array: the C code would overwrite whatever
  lies behind it.
\<close>

definition put :: "nat \<Rightarrow> u8 list \<Rightarrow> u8 list \<Rightarrow> u8 list option" where
  "put i xs d = (if i + length xs \<le> length d then Some (take i d @ xs @ drop (i + length xs) d) else None)"

definition bytes16 :: "u16 \<Rightarrow> u8 list" where
  "bytes16 w = [of_nat (unat w mod 256), of_nat (unat w div 256)]"

definition bytes32 :: "u32 \<Rightarrow> u8 list" where
  "bytes32 w = bytes16 (of_nat (unat w mod 65536)) @ bytes16 (of_nat (unat w div 65536))"

section \<open>Byte order\<close>

definition htons :: "u16 \<Rightarrow> u16" where
  "htons h = push_bit 8 (h AND 0xFF) OR (drop_bit 8 h AND 0xFF)"

definition ntohs :: "u16 \<Rightarrow> u16" where
  "ntohs n = htons n"

definition htonl :: "u32 \<Rightarrow> u32" where
  "htonl h = push_bit 24 (h AND 0xFF) OR push_bit 8 (h AND 0xFF00) OR drop_bit 8 (h AND 0xFF0000) OR (drop_bit 24 h AND 0xFF)"

definition ntohl :: "u32 \<Rightarrow> u32" where
  "ntohl n = htonl n"

section \<open>Checksums\<close>

text \<open>The summing loop, over 16-bit words and a last odd byte, and the loop that folds the carries.\<close>

fun sum16 :: "u8 list \<Rightarrow> u32 \<Rightarrow> u32" where
  "sum16 (a # b # r) acc = sum16 r (acc + of_nat (unat a + 256 * unat b))"
| "sum16 [a] acc = acc + of_nat (unat a)"
| "sum16 [] acc = acc"

function fold_carry :: "u32 \<Rightarrow> u32" where
  "fold_carry acc = (if drop_bit 16 acc \<noteq> 0 then fold_carry ((acc AND 0xFFFF) + drop_bit 16 acc) else acc)"
  by auto

lemma fold_parts: "unat (s AND 0xFFFF) = unat s mod 65536" "unat (drop_bit 16 s) = unat s div 65536" for s :: u32
proof -
  have "s AND 0xFFFF = take_bit 16 s"
    by (simp add: take_bit_eq_mask mask_eq_exp_minus_1)
  moreover have "unat (take_bit 16 s) = take_bit 16 (unat s)"
    by (rule unsigned_take_bit_eq)
  ultimately show "unat (s AND 0xFFFF) = unat s mod 65536"
    by (simp only: take_bit_eq_mod) simp
  show "unat (drop_bit 16 s) = unat s div 65536"
    by (simp add: drop_bit_eq_div unat_div)
qed

lemma fold_step: "unat ((s AND 0xFFFF) + drop_bit 16 s) = unat s mod 65536 + unat s div 65536" for s :: u32
proof -
  have "unat s < 2 ^ 32"
    using unsigned_less [of s] by simp
  then have "unat s mod 65536 + unat s div 65536 < 2 ^ 32"
    by linarith
  then show ?thesis
    by (simp add: unat_word_ariths fold_parts)
qed

termination fold_carry
proof (relation "measure unat", goal_cases)
  case (2 s)
  then have "unat s div 65536 \<noteq> 0"
    using fold_parts(2) [of s] by (metis unat_eq_0)
  then have "unat s mod 65536 + unat s div 65536 < unat s"
    using div_mult_mod_eq [of "unat s" 65536] by linarith
  then show ?case
    by (simp add: fold_step)
qed simp

declare fold_carry.simps [simp del]

definition ipv4_checksum :: "u8 list \<Rightarrow> u16" where
  "ipv4_checksum bs = NOT (ucast (fold_carry (sum16 bs 0)))"

text \<open>The pseudo-header sums of UDP and TCP; 0 is sent as 0xFFFF.\<close>

definition IP_PROTO_ICMP :: u8 where "IP_PROTO_ICMP = 1"
definition IP_PROTO_TCP :: u8 where "IP_PROTO_TCP = 6"
definition IP_PROTO_UDP :: u8 where "IP_PROTO_UDP = 17"

definition udp_checksum :: "u32 \<Rightarrow> u32 \<Rightarrow> u8 list \<Rightarrow> u16" where
  "udp_checksum src_ip dest_ip udp =
     (let ph = bytes32 src_ip @ bytes32 dest_ip @ [0, IP_PROTO_UDP] @ bytes16 (htons (of_nat (length udp)));
          res = NOT (ucast (fold_carry (sum16 udp (sum16 ph 0)))) :: u16
      in if res = 0 then 0xFFFF else res)"

definition tcp_checksum :: "u32 \<Rightarrow> u32 \<Rightarrow> u8 list \<Rightarrow> u16" where
  "tcp_checksum src_ip dest_ip tcp =
     (let acc = (src_ip AND 0xFFFF) + drop_bit 16 src_ip + (dest_ip AND 0xFFFF) + drop_bit 16 dest_ip +
            ucast (htons (ucast IP_PROTO_TCP)) + ucast (htons (of_nat (length tcp)));
          res = NOT (ucast (fold_carry (sum16 tcp acc))) :: u16
      in if res = 0 then 0xFFFF else res)"

section \<open>Facts about fields\<close>

lemma unat_less: "unat (a :: u8) < 256" "unat (w :: u16) < 65536"
  using unsigned_less [of a] unsigned_less [of w] by simp_all

lemma word_of_unat: "word_of_nat (unat w) = w"
  by simp

lemma put_length: "put i xs d = Some d' \<Longrightarrow> length d' = length d"
  by (auto simp: put_def split: if_splits)

lemma put_take_drop:
  assumes "put i xs d = Some d'"
  shows "take i d' = take i d" "take (length xs) (drop i d') = xs" "drop (i + length xs) d' = drop (i + length xs) d"
proof -
  have l: "i + length xs \<le> length d" and d': "d' = take i d @ xs @ drop (i + length xs) d"
    using assms by (auto simp: put_def split: if_splits)
  show "take i d' = take i d" "take (length xs) (drop i d') = xs" "drop (i + length xs) d' = drop (i + length xs) d"
    unfolding d' using l by simp_all
qed

lemma bytes16_length [simp]: "length (bytes16 w) = 2" "length (bytes32 v) = 4"
  by (simp_all add: bytes16_def bytes32_def)

lemma unat_bytes16: "unat (of_nat (unat w mod 256) :: u8) = unat w mod 256" "unat (of_nat (unat w div 256) :: u8) = unat w div 256"
  for w :: u16
proof -
  have "unat w < 65536"
    using unsigned_less [of w] by simp
  then have "unat w mod 256 < 2 ^ LENGTH(8)" "unat w div 256 < 2 ^ LENGTH(8)"
    by simp_all
  then show "unat (of_nat (unat w mod 256) :: u8) = unat w mod 256" "unat (of_nat (unat w div 256) :: u8) = unat w div 256"
    by (simp_all only: unat_of_nat mod_less)
qed

lemma get16_bytes: "get16 (xs @ bytes16 w @ ys) (length xs) = w"
proof -
  let ?d = "xs @ bytes16 w @ ys"
  have "get8 ?d (length xs) = of_nat (unat w mod 256)" "get8 ?d (length xs + 1) = of_nat (unat w div 256)"
    by (simp_all add: get8_def bytes16_def nth_append)
  then have "get16 ?d (length xs) = of_nat (unat w mod 256 + 256 * (unat w div 256))"
    unfolding get16_def by (simp only: unat_bytes16)
  also have "unat w mod 256 + 256 * (unat w div 256) = unat w"
    by (simp only: mod_mult_div_eq)
  finally show ?thesis
    by simp
qed

lemma htons_bytes: "htons w = of_nat (unat w div 256 + 256 * (unat w mod 256))"
proof -
  have a: "w AND 0xFF = take_bit 8 w"
    by (simp add: take_bit_eq_mask mask_eq_exp_minus_1)
  have b: "drop_bit 8 w AND 0xFF = drop_bit 8 w"
  proof -
    have "take_bit 8 (drop_bit 8 w) = drop_bit 8 w"
      by (rule bit_word_eqI) (auto simp: bit_simps dest: bit_imp_le_length)
    then show ?thesis
      by (simp add: take_bit_eq_mask mask_eq_exp_minus_1)
  qed
  have "htons w = push_bit 8 (take_bit 8 w) + drop_bit 8 w"
    unfolding htons_def a b by (rule disjunctive_add [symmetric]) (auto simp: bit_simps dest: bit_imp_le_length)
  also have "\<dots> = w div 256 + 256 * (w mod 256)"
    by (simp add: push_bit_eq_mult drop_bit_eq_div take_bit_eq_mod mult.commute add.commute)
  finally have h: "htons w = w div 256 + 256 * (w mod 256)" .
  have "unat w div 256 = unat (w div 256)" "unat w mod 256 = unat (w mod 256)"
    by (simp_all add: unat_div unat_mod)
  then show ?thesis
    unfolding h by (simp only: of_nat_add of_nat_mult word_of_unat of_nat_numeral)
qed

section \<open>One's complement sums\<close>

text \<open>The sum of the words as a natural number; the 32-bit sum is exact for a packet.\<close>

fun nsum :: "u8 list \<Rightarrow> nat" where
  "nsum (a # b # r) = unat a + 256 * unat b + nsum r"
| "nsum [a] = unat a"
| "nsum [] = 0"

lemma sum16_nsum: "sum16 bs acc = acc + of_nat (nsum bs)"
  by (induction bs acc rule: sum16.induct) simp_all

lemma nsum_bound: "nsum bs \<le> 65535 * length bs"
proof (induction bs rule: nsum.induct)
  case (1 a b r)
  then show ?case
    using unat_less(1) [of a] unat_less(1) [of b] by simp
next
  case (2 a)
  then show ?case
    using unat_less(1) [of a] by simp
qed simp

lemma nsum_append: "even (length xs) \<Longrightarrow> nsum (xs @ ys) = nsum xs + nsum ys"
  by (induction xs rule: nsum.induct) auto

lemma nsum_bytes16: "nsum (bytes16 w) = unat w"
  using mod_mult_div_eq [of "unat w" 256] by (simp only: bytes16_def nsum.simps unat_bytes16)

lemma fold_carry_residue: "unat (fold_carry s) mod 65535 = unat s mod 65535 \<and> unat (fold_carry s) < 65536 \<and> (fold_carry s = 0 \<longleftrightarrow> s = 0)"
proof (induction s rule: fold_carry.induct)
  case (1 s)
  show ?case
  proof (cases "drop_bit 16 s = 0")
    case True
    then have "unat s div 65536 = 0"
      using fold_parts(2) [of s] by simp
    then have "unat s < 65536"
      by (simp add: div_eq_0_iff)
    then show ?thesis
      using True by (subst (1 2 3) fold_carry.simps) simp
  next
    case False
    let ?t = "(s AND 0xFFFF) + drop_bit 16 s"
    have f: "fold_carry s = fold_carry ?t"
      using False by (subst fold_carry.simps) simp
    have t: "unat ?t = unat s mod 65536 + unat s div 65536"
      by (rule fold_step)
    have "unat s = unat s div 65536 * 65535 + (unat s mod 65536 + unat s div 65536)"
      using div_mult_mod_eq [of "unat s" 65536] by linarith
    then have m: "unat s mod 65535 = unat ?t mod 65535"
      unfolding t by (metis mod_mult_self3)
    have "unat s div 65536 \<noteq> 0"
      using False fold_parts(2) [of s] by (metis unat_eq_0)
    then have nz: "?t \<noteq> 0" "s \<noteq> 0"
      using t by (auto simp: unat_eq_0 [symmetric])
    from 1 [OF False] show ?thesis
      unfolding f m using nz by simp
  qed
qed

lemma checksum_value: "unat (ipv4_checksum bs) = 65535 - unat (fold_carry (sum16 bs 0))"
proof -
  let ?f = "fold_carry (sum16 bs 0)"
  have "unat ?f < 65536"
    using fold_carry_residue by blast
  then have "unat (ucast ?f :: u16) = unat ?f"
    by (simp add: unsigned_ucast_eq take_bit_nat_eq_self)
  moreover have "NOT w = 0xFFFF - w" for w :: u16
    by (simp add: not_eq_complement)
  moreover have "unat (0xFFFF - w) = 65535 - unat w" for w :: u16
    using unat_less(2) [of w] by (simp add: unat_sub_if')
  ultimately show ?thesis
    by (simp add: ipv4_checksum_def)
qed

text \<open>Storing the checksum of a header with a zero checksum field makes the whole sum vanish.\<close>

lemma checksum_verifies:
  assumes x: "even (length xs)" and l: "length xs + length ys < 65000"
  shows "ipv4_checksum (xs @ bytes16 (ipv4_checksum (xs @ [0, 0] @ ys)) @ ys) = 0"
proof -
  let ?z = "xs @ [0, 0] @ ys"
  let ?c = "ipv4_checksum ?z" and ?n = "nsum xs + nsum ys"
  let ?bs = "xs @ bytes16 ?c @ ys"
  have n: "?n \<le> 65535 * 65000"
    using nsum_bound [of xs] nsum_bound [of ys] l by linarith
  have z: "nsum ?z = ?n" and bs: "nsum ?bs = ?n + unat ?c"
    using x by (simp_all add: nsum_append nsum_bytes16)
  have sm: "unat (sum16 b 0) = nsum b" if "nsum b < 2 ^ 32" for b
    using that by (simp add: sum16_nsum unat_of_nat)
  have c: "unat ?c = 65535 - unat (fold_carry (sum16 ?z 0))" "unat (fold_carry (sum16 ?z 0)) < 65536"
    "unat (fold_carry (sum16 ?z 0)) mod 65535 = ?n mod 65535"
    using checksum_value [of ?z] fold_carry_residue [of "sum16 ?z 0"] sm [of ?z] n z by simp_all
  have "unat (sum16 ?bs 0) = ?n + unat ?c"
    using sm [of ?bs] n bs c(1) by simp
  moreover have "(?n + unat ?c) mod 65535 = 0"
  proof -
    have "(?n + unat ?c) mod 65535 = (unat (fold_carry (sum16 ?z 0)) + unat ?c) mod 65535"
      using c(3) by (metis mod_add_left_eq)
    also have "unat (fold_carry (sum16 ?z 0)) + unat ?c = 65535"
      using c(1,2) by linarith
    finally show ?thesis
      by simp
  qed
  moreover have "?n + unat ?c \<noteq> 0"
  proof
    assume "?n + unat ?c = 0"
    then have "sum16 ?z 0 = 0"
      using sm [of ?z] z by (simp add: unat_eq_0)
    then show False
      using c(1) fold_carry_residue [of "sum16 ?z 0"] \<open>?n + unat ?c = 0\<close> by simp
  qed
  ultimately have "unat (fold_carry (sum16 ?bs 0)) mod 65535 = 0" "unat (fold_carry (sum16 ?bs 0)) \<noteq> 0" "unat (fold_carry (sum16 ?bs 0)) < 65536"
    using fold_carry_residue [of "sum16 ?bs 0"] by (auto simp: unat_eq_0)
  then have "unat (fold_carry (sum16 ?bs 0)) = 65535"
    by (auto simp: mod_eq_0_iff_dvd elim!: dvdE)
  then show ?thesis
    using checksum_value [of ?bs] by (simp add: unat_eq_0)
qed

end
