(* ===== verification/Socket.thy ===== *)
theory Socket
  imports Netbuf
begin

text \<open>
  The sockets of \<^verbatim>\<open>kernel/src/net/socket.c\<close> as far as the protocols use them: creation and look-up
  in the socket list, and the receive buffer with its queue of datagrams, filled by
  \<open>socket_enqueue_data\<close> and emptied by reading. Sockets are numbered; \<open>sock_pool\<close> is how many more the
  heap can provide. The options of a socket, which only the option calls read, are left out.
\<close>

section \<open>State\<close>

datatype sock_state = SS_UNCONNECTED | SS_BIND | SS_LISTENING | SS_CONNECTING | SS_CONNECTED | SS_DISCONNECTING | SS_CLOSED

datatype tcp_state_t = TCP_STATE_CLOSED | TCP_STATE_LISTEN | TCP_STATE_SYN_SENT | TCP_STATE_SYN_RECEIVED
  | TCP_STATE_ESTABLISHED | TCP_STATE_FIN_WAIT_1 | TCP_STATE_FIN_WAIT_2 | TCP_STATE_CLOSE_WAIT
  | TCP_STATE_CLOSING | TCP_STATE_LAST_ACK | TCP_STATE_TIME_WAIT

definition AF_UNIX :: nat where "AF_UNIX = 1"
definition AF_INET :: nat where "AF_INET = 2"
definition SOCK_STREAM :: nat where "SOCK_STREAM = 1"
definition SOCK_DGRAM :: nat where "SOCK_DGRAM = 2"
definition SOCK_RAW :: nat where "SOCK_RAW = 3"
definition SOCK_RX_BUF_SIZE :: nat where "SOCK_RX_BUF_SIZE = 65536"
definition SOCK_DGRAM_QUEUE_LEN :: nat where "SOCK_DGRAM_QUEUE_LEN = 32"

record dgram_meta =
  mlen :: nat
  from_ip :: u32
  from_port :: u16

record socket =
  domain :: nat
  sock_type :: nat
  protocol :: nat
  state :: sock_state
  tcp_state :: tcp_state_t
  local_ip :: u32
  local_port :: u16
  remote_ip :: u32
  remote_port :: u16
  peer :: "nat option"
  snd_una :: u32
  snd_nxt :: u32
  rcv_nxt :: u32
  rx_buf :: "nat \<Rightarrow> u8"
  rx_head :: nat
  rx_tail :: nat
  rx_len :: nat
  dgram_queue :: "nat \<Rightarrow> dgram_meta"
  dgram_head :: nat
  dgram_tail :: nat
  dgram_count :: nat
  accept_queue :: "nat list"
  shutdown_flags :: nat

record socks =
  g_socket_list :: "nat list"
  skt :: "nat \<Rightarrow> socket"
  sock_fresh :: nat
  sock_pool :: nat

definition upd_skt :: "nat \<Rightarrow> (socket \<Rightarrow> socket) \<Rightarrow> 'z socks_scheme \<Rightarrow> 'z socks_scheme" where
  "upd_skt k f s = s\<lparr>skt := (skt s)(k := f (skt s k))\<rparr>"

section \<open>Creation and look-up\<close>

definition new_socket :: "nat \<Rightarrow> nat \<Rightarrow> nat \<Rightarrow> socket" where
  "new_socket dm ty proto =
     \<lparr>domain = dm, sock_type = ty, protocol = proto, state = SS_UNCONNECTED, tcp_state = TCP_STATE_CLOSED,
      local_ip = 0, local_port = 0, remote_ip = 0, remote_port = 0, peer = None, snd_una = 0, snd_nxt = 0, rcv_nxt = 0,
      rx_buf = (\<lambda>_. 0), rx_head = 0, rx_tail = 0, rx_len = 0,
      dgram_queue = (\<lambda>_. \<lparr>mlen = 0, from_ip = 0, from_port = 0\<rparr>), dgram_head = 0, dgram_tail = 0, dgram_count = 0,
      accept_queue = [], shutdown_flags = 0\<rparr>"

definition socket_create :: "nat \<Rightarrow> nat \<Rightarrow> nat \<Rightarrow> 'z socks_scheme \<Rightarrow> nat option \<times> 'z socks_scheme" where
  "socket_create dm ty proto s =
     (if sock_pool s = 0 then (None, s)
      else let k = sock_fresh s
           in (Some k, s\<lparr>skt := (skt s)(k := new_socket dm ty proto), g_socket_list := k # g_socket_list s,
                 sock_fresh := k + 1, sock_pool := sock_pool s - 1\<rparr>))"

definition socket_find_udp :: "u32 \<Rightarrow> u16 \<Rightarrow> 'z socks_scheme \<Rightarrow> nat option" where
  "socket_find_udp ip port s = find (\<lambda>k. sock_type (skt s k) = SOCK_DGRAM \<and> local_port (skt s k) = port \<and>
     (local_ip (skt s k) = 0 \<or> local_ip (skt s k) = ip)) (g_socket_list s)"

definition socket_find_tcp :: "u32 \<Rightarrow> u16 \<Rightarrow> u32 \<Rightarrow> u16 \<Rightarrow> 'z socks_scheme \<Rightarrow> nat option" where
  "socket_find_tcp ip port rip rport s = find (\<lambda>k. sock_type (skt s k) = SOCK_STREAM \<and> local_port (skt s k) = port \<and>
     (local_ip (skt s k) = 0 \<or> local_ip (skt s k) = ip) \<and> remote_port (skt s k) = rport \<and> remote_ip (skt s k) = rip)
     (g_socket_list s)"

definition socket_find_tcp_listener :: "u32 \<Rightarrow> u16 \<Rightarrow> 'z socks_scheme \<Rightarrow> nat option" where
  "socket_find_tcp_listener ip port s = find (\<lambda>k. sock_type (skt s k) = SOCK_STREAM \<and>
     tcp_state (skt s k) = TCP_STATE_LISTEN \<and> local_port (skt s k) = port \<and>
     (local_ip (skt s k) = 0 \<or> local_ip (skt s k) = ip)) (g_socket_list s)"

definition socket_find_icmp :: "'z socks_scheme \<Rightarrow> nat option" where
  "socket_find_icmp s = find (\<lambda>k. domain (skt s k) = AF_INET \<and>
     (sock_type (skt s k) = SOCK_RAW \<or> protocol (skt s k) = unat IP_PROTO_ICMP \<or> protocol (skt s k) = 1)) (g_socket_list s)"

section \<open>The receive buffer\<close>

definition rx_push :: "u8 \<Rightarrow> socket \<Rightarrow> socket" where
  "rx_push x k = k\<lparr>rx_buf := (rx_buf k)(rx_tail k := x), rx_tail := (rx_tail k + 1) mod SOCK_RX_BUF_SIZE, rx_len := rx_len k + 1\<rparr>"

fun rx_fill :: "u8 list \<Rightarrow> socket \<Rightarrow> nat \<times> socket" where
  "rx_fill [] k = (0, k)"
| "rx_fill (x # xs) k =
     (if rx_len k < SOCK_RX_BUF_SIZE then case rx_fill xs (rx_push x k) of (w, k1) \<Rightarrow> (w + 1, k1) else (0, k))"

definition enqueue :: "u8 list \<Rightarrow> u32 \<Rightarrow> u16 \<Rightarrow> socket \<Rightarrow> nat \<times> socket" where
  "enqueue data fip fport k =
     (if data = [] then (0, k)
      else let k1 = (if fip \<noteq> 0 then k\<lparr>remote_ip := fip, remote_port := fport\<rparr> else k)
           in if sock_type k1 = SOCK_DGRAM \<or> sock_type k1 = SOCK_RAW
              then if dgram_count k1 \<ge> SOCK_DGRAM_QUEUE_LEN \<or> rx_len k1 + length data > SOCK_RX_BUF_SIZE then (0, k1)
                   else rx_fill data (k1\<lparr>dgram_queue := (dgram_queue k1)(dgram_tail k1 :=
                            \<lparr>mlen = length data, from_ip = fip, from_port = fport\<rparr>),
                          dgram_tail := (dgram_tail k1 + 1) mod SOCK_DGRAM_QUEUE_LEN, dgram_count := dgram_count k1 + 1\<rparr>)
              else rx_fill data k1)"

definition socket_enqueue_data :: "nat \<Rightarrow> u8 list \<Rightarrow> u32 \<Rightarrow> u16 \<Rightarrow> 'z socks_scheme \<Rightarrow> nat \<times> 'z socks_scheme" where
  "socket_enqueue_data k data fip fport s =
     (case enqueue data fip fport (skt s k) of (w, x) \<Rightarrow> (w, upd_skt k (\<lambda>_. x) s))"

text \<open>Reading \<open>n\<close> bytes of the ring.\<close>

fun rx_pull :: "nat \<Rightarrow> socket \<Rightarrow> u8 list \<times> socket" where
  "rx_pull 0 k = ([], k)"
| "rx_pull (Suc n) k =
     (case rx_pull n (k\<lparr>rx_head := (rx_head k + 1) mod SOCK_RX_BUF_SIZE\<rparr>) of (xs, k1) \<Rightarrow> (rx_buf k (rx_head k) # xs, k1))"

datatype read_flow = Got "u8 list" | Code int | Wait

text \<open>The section of \<open>socket_vfs_read\<close> under the socket's lock.\<close>

definition socket_take :: "bool \<Rightarrow> nat \<Rightarrow> socket \<Rightarrow> read_flow \<times> socket" where
  "socket_take is_nonblock sz k =
     (if sock_type k = SOCK_DGRAM \<or> sock_type k = SOCK_RAW
      then if dgram_count k = 0 then (Code (if is_nonblock then -11 else 0), k)
           else let pkt_len = mlen (dgram_queue k (dgram_head k));
                    k1 = k\<lparr>dgram_head := (dgram_head k + 1) mod SOCK_DGRAM_QUEUE_LEN, dgram_count := dgram_count k - 1\<rparr>;
                    to_read = (if sz < pkt_len then sz else pkt_len)
                in case rx_pull to_read k1 of (dst, k2) \<Rightarrow>
                     let k3 = (if pkt_len > to_read then k2\<lparr>rx_head := (rx_head k2 + (pkt_len - to_read)) mod SOCK_RX_BUF_SIZE\<rparr> else k2)
                     in (Got dst, k3\<lparr>rx_len := (if rx_len k3 \<ge> pkt_len then rx_len k3 - pkt_len else 0)\<rparr>)
      else let to_read = (if sz < rx_len k then sz else rx_len k)
           in case rx_pull to_read k of (dst, k1) \<Rightarrow> (Got dst, k1\<lparr>rx_len := rx_len k1 - to_read\<rparr>))"

text \<open>
  One round of the waiting loops of \<open>socket_vfs_read\<close>, and the read itself once there is data,
  in the state after the poll of the interfaces that precedes the round. \<open>Wait\<close> sleeps, polls and
  tries again. Whether the descriptor is non-blocking, which the code looks up among the descriptors
  of the process, is an argument.
\<close>

definition peer_closed :: "'z socks_scheme \<Rightarrow> nat \<Rightarrow> bool" where
  "peer_closed s k \<longleftrightarrow> state (skt s k) = SS_CLOSED \<or>
     (case peer (skt s k) of None \<Rightarrow> True | Some p \<Rightarrow> state (skt s p) = SS_CLOSED)"

definition socket_vfs_read :: "bool \<Rightarrow> nat \<Rightarrow> nat \<Rightarrow> 'z socks_scheme \<Rightarrow> read_flow \<times> 'z socks_scheme" where
  "socket_vfs_read is_nonblock k sz s =
     (let x = skt s k;
          dgram = (sock_type x = SOCK_DGRAM \<or> sock_type x = SOCK_RAW);
          none = (if domain x = AF_UNIX then rx_len x = 0 else if dgram then dgram_count x = 0 else rx_len x = 0);
          eof = (if domain x = AF_UNIX then peer_closed s k
                 else if dgram then state x = SS_CLOSED
                 else state x = SS_CLOSED \<or> (sock_type x = SOCK_STREAM \<and>
                   (tcp_state x = TCP_STATE_CLOSE_WAIT \<or> tcp_state x = TCP_STATE_CLOSED)))
      in if sz = 0 then (Code 0, s)
         else if odd (shutdown_flags x) then (Code 0, s)
         else if none then (if eof then Code 0 else if is_nonblock then Code (-11) else Wait, s)
         else case socket_take is_nonblock sz x of (r, y) \<Rightarrow> (r, upd_skt k (\<lambda>_. y) s))"

section \<open>Rings\<close>

text \<open>The \<open>n\<close> entries of a ring of \<open>z\<close> places from \<open>h\<close> on.\<close>

definition rng :: "(nat \<Rightarrow> 'a) \<Rightarrow> nat \<Rightarrow> nat \<Rightarrow> nat \<Rightarrow> 'a list" where
  "rng f h n z = map (\<lambda>i. f ((h + i) mod z)) [0..<n]"

lemma rng_0 [simp]: "rng f h 0 z = []"
  by (simp add: rng_def)

lemma rng_push:
  assumes "n < z" and "t = (h + n) mod z"
  shows "rng (f(t := x)) h (n + 1) z = rng f h n z @ [x]"
proof -
  have "(h + i) mod z \<noteq> t" if "i < n" for i
  proof
    assume "(h + i) mod z = t"
    then have "(h + n) mod z = (h + i) mod z"
      by (simp add: assms(2))
    then have "z dvd n - i"
      using that by (simp add: mod_eq_dvd_iff_nat)
    then show False
      using that assms(1) dvd_imp_le [of z "n - i"] by simp
  qed
  then show ?thesis
    by (simp add: rng_def assms(2))
qed

lemma rng_pop: "rng f h (Suc n) z = f (h mod z) # rng f ((h + 1) mod z) n z"
proof -
  have "(Suc h + i) mod z = (Suc h mod z + i) mod z" for i
    by (simp add: mod_simps)
  then show ?thesis
    by (simp add: rng_def upt_conv_Cons map_Suc_upt [symmetric] del: upt_Suc)
qed

lemma rng_mod [simp]: "rng f (h mod z) n z = rng f h n z"
  by (simp add: rng_def mod_simps)

lemma ring_advance:
  fixes z :: nat
  assumes "a \<le> b"
  shows "((h + a) mod z + (b - a)) mod z = (h + b) mod z"
proof -
  have "h + a + (b - a) = h + b"
    using assms by simp
  then show ?thesis
    by (metis mod_add_left_eq)
qed

lemma rng_length [simp]: "length (rng f h n z) = n"
  by (simp add: rng_def)

lemma rng_take: "m \<le> n \<Longrightarrow> take m (rng f h n z) = rng f h m z"
  by (simp add: rng_def take_map)

lemma rng_drop: "m \<le> n \<Longrightarrow> drop m (rng f h n z) = rng f (h + m) (n - m) z"
  by (rule nth_equalityI) (auto simp: rng_def add.assoc)

section \<open>The datagram queue\<close>

definition rx_bytes :: "socket \<Rightarrow> u8 list" where
  "rx_bytes k = rng (rx_buf k) (rx_head k) (rx_len k) SOCK_RX_BUF_SIZE"

definition rx_ok :: "socket \<Rightarrow> bool" where
  "rx_ok k \<longleftrightarrow> rx_head k < SOCK_RX_BUF_SIZE \<and> rx_len k \<le> SOCK_RX_BUF_SIZE \<and> rx_tail k = (rx_head k + rx_len k) mod SOCK_RX_BUF_SIZE"

definition metas :: "socket \<Rightarrow> dgram_meta list" where
  "metas k = rng (dgram_queue k) (dgram_head k) (dgram_count k) SOCK_DGRAM_QUEUE_LEN"

text \<open>A datagram as the application sees it: who sent it, and its bytes.\<close>

type_synonym dgram = "u32 \<times> u16 \<times> u8 list"

definition dgrams :: "socket \<Rightarrow> dgram list \<Rightarrow> bool" where
  "dgrams k ds \<longleftrightarrow> rx_ok k \<and> (sock_type k = SOCK_DGRAM \<or> sock_type k = SOCK_RAW) \<and>
     dgram_head k < SOCK_DGRAM_QUEUE_LEN \<and> dgram_count k \<le> SOCK_DGRAM_QUEUE_LEN \<and>
     dgram_tail k = (dgram_head k + dgram_count k) mod SOCK_DGRAM_QUEUE_LEN \<and>
     metas k = map (\<lambda>(ip, port, bs). \<lparr>mlen = length bs, from_ip = ip, from_port = port\<rparr>) ds \<and>
     rx_bytes k = concat (map (snd \<circ> snd) ds)"

lemma rx_push_spec:
  assumes "rx_ok k" and "rx_len k < SOCK_RX_BUF_SIZE"
  shows "rx_ok (rx_push x k)" "rx_bytes (rx_push x k) = rx_bytes k @ [x]" "rx_len (rx_push x k) = rx_len k + 1"
  using assms rng_push [of "rx_len k" SOCK_RX_BUF_SIZE "rx_tail k" "rx_head k" "rx_buf k" x]
  by (simp_all add: rx_ok_def rx_push_def rx_bytes_def mod_simps)

text \<open>The fields that pushing and pulling bytes leave alone.\<close>

definition same_but_rx :: "socket \<Rightarrow> socket \<Rightarrow> bool" where
  "same_but_rx k k' \<longleftrightarrow> k' = k\<lparr>rx_buf := rx_buf k', rx_head := rx_head k', rx_tail := rx_tail k', rx_len := rx_len k'\<rparr>"

lemma same_but_rx_refl [simp]: "same_but_rx k k"
  by (simp add: same_but_rx_def)

lemma same_but_rx_sel:
  assumes "same_but_rx k k'"
  shows "sock_type k' = sock_type k" "dgram_queue k' = dgram_queue k" "dgram_head k' = dgram_head k"
    "dgram_tail k' = dgram_tail k" "dgram_count k' = dgram_count k" "tcp_state k' = tcp_state k" "state k' = state k"
    "metas k' = metas k"
  by (subst assms [unfolded same_but_rx_def], simp add: metas_def)+

lemma rx_fill_spec:
  assumes "rx_ok k" and "rx_fill xs k = (w, k')"
  shows "w = min (length xs) (SOCK_RX_BUF_SIZE - rx_len k) \<and> rx_ok k' \<and> rx_bytes k' = rx_bytes k @ take w xs \<and>
    rx_len k' = rx_len k + w \<and> same_but_rx k k'"
  using assms
proof (induction xs k arbitrary: w k' rule: rx_fill.induct)
  case (2 x xs k)
  show ?case
  proof (cases "rx_len k < SOCK_RX_BUF_SIZE")
    case True
    then obtain v where v: "rx_fill xs (rx_push x k) = (v, k')" "w = v + 1"
      using 2(3) by (auto split: prod.splits)
    note p = rx_push_spec [OF 2(2) True, of x]
    have "same_but_rx (rx_push x k) k' \<Longrightarrow> same_but_rx k k'"
      by (simp add: same_but_rx_def rx_push_def)
    then show ?thesis
      using 2(1) [OF True p(1) v(1)] p v(2) True by (auto simp: min_def)
  qed (use 2(2,3) in auto)
qed auto

lemma rx_pull_spec:
  assumes "rx_pull n k = (xs, k')" and "n \<le> rx_len k" and "rx_head k < SOCK_RX_BUF_SIZE"
  shows "xs = take n (rx_bytes k) \<and> k' = k\<lparr>rx_head := (rx_head k + n) mod SOCK_RX_BUF_SIZE\<rparr>"
  using assms
proof (induction n k arbitrary: xs k' rule: rx_pull.induct)
  case (2 n k)
  let ?k = "k\<lparr>rx_head := (rx_head k + 1) mod SOCK_RX_BUF_SIZE\<rparr>"
  obtain ys where ys: "rx_pull n ?k = (ys, k')" "xs = rx_buf k (rx_head k) # ys"
    using 2(2) by (auto split: prod.splits)
  have z: "0 < SOCK_RX_BUF_SIZE"
    by (simp add: SOCK_RX_BUF_SIZE_def)
  have "ys = take n (rx_bytes ?k) \<and> k' = ?k\<lparr>rx_head := (rx_head ?k + n) mod SOCK_RX_BUF_SIZE\<rparr>"
    using 2(1) [OF ys(1)] 2(3) z by simp
  moreover have "take (Suc n) (rx_bytes k) = rx_buf k (rx_head k) # take n (rx_bytes ?k)"
    using 2(3,4) rng_pop [of "rx_buf k" "rx_head k" n SOCK_RX_BUF_SIZE] by (simp add: rx_bytes_def rng_take)
  ultimately show ?case
    using ys(2) by (simp add: mod_simps)
qed (simp add: rx_bytes_def)

lemma dgram_count_length:
  assumes "dgrams k ds"
  shows "dgram_count k = length ds"
proof -
  have "length (metas k) = length ds"
    using assms by (simp add: dgrams_def)
  then show ?thesis
    by (simp add: metas_def)
qed

lemma enqueue_dgram:
  assumes d: "dgrams k ds" and n: "data \<noteq> []" and r: "enqueue data ip port k = (w, k')"
  shows "if length ds < SOCK_DGRAM_QUEUE_LEN \<and> rx_len k + length data \<le> SOCK_RX_BUF_SIZE
    then w = length data \<and> dgrams k' (ds @ [(ip, port, data)]) else w = 0 \<and> dgrams k' ds"
proof -
  let ?k = "if ip \<noteq> 0 then k\<lparr>remote_ip := ip, remote_port := port\<rparr> else k"
  have sel: "rx_ok ?k = rx_ok k" "rx_bytes ?k = rx_bytes k" "metas ?k = metas k" "sock_type ?k = sock_type k"
    "dgram_head ?k = dgram_head k" "dgram_tail ?k = dgram_tail k" "dgram_count ?k = dgram_count k" "rx_len ?k = rx_len k"
    "dgram_queue ?k = dgram_queue k"
    by (simp_all add: rx_ok_def rx_bytes_def metas_def)
  have dk: "dgrams ?k ds"
    using d by (simp add: dgrams_def sel)
  have c: "dgram_count k = length ds"
    using dgram_count_length [OF d] .
  have ty: "sock_type k = SOCK_DGRAM \<or> sock_type k = SOCK_RAW"
    using d by (simp add: dgrams_def)
  show ?thesis
  proof (cases "length ds < SOCK_DGRAM_QUEUE_LEN \<and> rx_len k + length data \<le> SOCK_RX_BUF_SIZE")
    case False
    have "enqueue data ip port k = (0, ?k)"
      using n ty False by (auto simp: enqueue_def Let_def sel c)
    then have "w = 0 \<and> dgrams k' ds"
      using r dk by simp
    then show ?thesis
      by (simp only: if_not_P [OF False])
  next
    case True
    define k1 where "k1 = ?k\<lparr>dgram_queue := (dgram_queue k)(dgram_tail k := \<lparr>mlen = length data, from_ip = ip, from_port = port\<rparr>),
      dgram_tail := (dgram_tail k + 1) mod SOCK_DGRAM_QUEUE_LEN, dgram_count := dgram_count k + 1\<rparr>"
    have "enqueue data ip port k = rx_fill data k1"
      using n ty True by (auto simp: enqueue_def Let_def c k1_def)
    then have f: "rx_fill data k1 = (w, k')"
      using r by simp
    have k1: "rx_ok k1" "rx_bytes k1 = rx_bytes k" "rx_len k1 = rx_len k" "sock_type k1 = sock_type k"
      using d by (simp_all add: k1_def rx_ok_def rx_bytes_def dgrams_def)
    have m: "metas k1 = metas k @ [\<lparr>mlen = length data, from_ip = ip, from_port = port\<rparr>]"
      using d True rng_push [of "dgram_count k" SOCK_DGRAM_QUEUE_LEN "dgram_tail k" "dgram_head k" "dgram_queue k"]
      by (simp add: metas_def k1_def dgrams_def c)
    note s = rx_fill_spec [OF k1(1) f]
    have "length data \<le> SOCK_RX_BUF_SIZE - rx_len k1"
      using True k1(3) by linarith
    then have w: "w = length data"
      using s by (simp only: min_absorb1)
    have sb: "same_but_rx k1 k'"
      using s by simp
    have "dgram_head k' = dgram_head k" "dgram_tail k' = (dgram_tail k + 1) mod SOCK_DGRAM_QUEUE_LEN" "dgram_count k' = dgram_count k + 1"
      "sock_type k' = sock_type k" "metas k' = metas k1"
      using same_but_rx_sel [OF sb] k1 by (simp_all add: k1_def)
    then have "dgrams k' (ds @ [(ip, port, data)])"
      using d s m w True k1 by (simp add: dgrams_def c mod_simps)
    then show ?thesis
      using w True by simp
  qed
qed

lemma take_dgram:
  assumes d: "dgrams k ((ip, port, bs) # ds)"
  shows "\<exists>k'. socket_take nb sz k = (Got (take sz bs), k') \<and> dgrams k' ds"
proof -
  let ?n = "if sz < length bs then sz else length bs"
  let ?k = "k\<lparr>dgram_head := (dgram_head k + 1) mod SOCK_DGRAM_QUEUE_LEN, dgram_count := dgram_count k - 1\<rparr>"
  have c: "dgram_count k = Suc (length ds)"
    using dgram_count_length [OF d] by simp
  have h: "dgram_head k < SOCK_DGRAM_QUEUE_LEN" "rx_head k < SOCK_RX_BUF_SIZE" "rx_ok k"
    and b: "rx_bytes k = bs @ concat (map (snd \<circ> snd) ds)" and ty: "sock_type k = SOCK_DGRAM \<or> sock_type k = SOCK_RAW"
    using d by (auto simp: dgrams_def rx_ok_def)
  have "metas k = dgram_queue k (dgram_head k) # metas ?k"
    using h(1) c rng_pop [of "dgram_queue k" "dgram_head k" "length ds" SOCK_DGRAM_QUEUE_LEN] by (simp add: metas_def)
  then have q: "dgram_queue k (dgram_head k) = \<lparr>mlen = length bs, from_ip = ip, from_port = port\<rparr>"
    and m: "metas ?k = map (\<lambda>(ip, port, bs). \<lparr>mlen = length bs, from_ip = ip, from_port = port\<rparr>) ds"
    using d by (simp_all add: dgrams_def)
  have l: "length bs \<le> rx_len k"
    using arg_cong [OF b, of length] by (simp add: rx_bytes_def)
  obtain xs k2 where p: "rx_pull ?n ?k = (xs, k2)"
    by force
  have "?n \<le> rx_len ?k" "rx_head ?k < SOCK_RX_BUF_SIZE" "rx_bytes ?k = rx_bytes k" "rx_head ?k = rx_head k"
    using l h(2) by (simp_all add: rx_bytes_def)
  with rx_pull_spec [OF p] have xs: "xs = take ?n (rx_bytes k)" and k2: "k2 = ?k\<lparr>rx_head := (rx_head k + ?n) mod SOCK_RX_BUF_SIZE\<rparr>"
    by (simp_all only:)
  have xs: "xs = take sz bs"
    unfolding xs b by simp
  define k3 where "k3 = ?k\<lparr>rx_head := (rx_head k + length bs) mod SOCK_RX_BUF_SIZE, rx_len := rx_len k - length bs\<rparr>"
  have "socket_take nb sz k = (Got (take sz bs), k3)"
  proof (cases "sz < length bs")
    case True
    then show ?thesis
      using ring_advance [of sz "length bs" "rx_head k" SOCK_RX_BUF_SIZE] ty p l by (simp add: socket_take_def c q Let_def xs k2 k3_def mod_simps del: rx_pull.simps)
  next
    case False
    then show ?thesis
      using ty p l by (simp add: socket_take_def c q Let_def xs k2 k3_def mod_simps del: rx_pull.simps)
  qed
  moreover have "dgrams k3 ds"
  proof -
    have "rx_bytes k3 = drop (length bs) (rx_bytes k)"
      using l by (simp add: rx_bytes_def k3_def rng_drop)
    then have "rx_bytes k3 = concat (map (snd \<circ> snd) ds)"
      by (simp add: b)
    moreover have "rx_ok k3"
      using h(3) l ring_advance [OF l, of "rx_head k" SOCK_RX_BUF_SIZE] by (auto simp: rx_ok_def k3_def)
    moreover have "metas k3 = metas ?k"
      by (simp add: metas_def k3_def)
    ultimately show ?thesis
      using d m c by (simp add: dgrams_def k3_def mod_simps SOCK_DGRAM_QUEUE_LEN_def)
  qed
  ultimately show ?thesis
    by blast
qed

section \<open>Properties\<close>

text \<open>
  C14: The receive buffer of a datagram socket is a queue of datagrams. Delivery appends a datagram
  with its sender when the queue and the byte ring have room and otherwise drops all of it; reading
  takes the oldest datagram, as much of it as the reader asked for, and discards the rest of exactly
  that datagram. Other sockets are untouched.
\<close>

theorem socket_datagram_queue:
  assumes "dgrams (skt s k) ds" and "data \<noteq> []"
  shows "(case socket_enqueue_data k data ip port s of (w, s') \<Rightarrow> (\<forall>j. j \<noteq> k \<longrightarrow> skt s' j = skt s j) \<and>
      (if length ds < SOCK_DGRAM_QUEUE_LEN \<and> rx_len (skt s k) + length data \<le> SOCK_RX_BUF_SIZE
       then w = length data \<and> dgrams (skt s' k) (ds @ [(ip, port, data)]) else w = 0 \<and> dgrams (skt s' k) ds)) \<and>
    (\<forall>nb sz. 0 < sz \<and> even (shutdown_flags (skt s k)) \<and> domain (skt s k) \<noteq> AF_UNIX \<longrightarrow>
      (case ds of
         [] \<Rightarrow> snd (socket_vfs_read nb k sz s) = s \<and> (\<forall>bs. fst (socket_vfs_read nb k sz s) \<noteq> Got bs)
       | (_, _, bs) # r \<Rightarrow> \<exists>s'. socket_vfs_read nb k sz s = (Got (take sz bs), s') \<and> dgrams (skt s' k) r \<and>
            (\<forall>j. j \<noteq> k \<longrightarrow> skt s' j = skt s j)))"
proof -
  have E: "case socket_enqueue_data k data ip port s of (w, s') \<Rightarrow> (\<forall>j. j \<noteq> k \<longrightarrow> skt s' j = skt s j) \<and>
      (if length ds < SOCK_DGRAM_QUEUE_LEN \<and> rx_len (skt s k) + length data \<le> SOCK_RX_BUF_SIZE
       then w = length data \<and> dgrams (skt s' k) (ds @ [(ip, port, data)]) else w = 0 \<and> dgrams (skt s' k) ds)"
  proof (cases "enqueue data ip port (skt s k)")
    case (Pair w k')
    from enqueue_dgram [OF assms this] show ?thesis
      by (simp add: socket_enqueue_data_def Pair upd_skt_def)
  qed
  have c: "dgram_count (skt s k) = length ds" and ty: "sock_type (skt s k) = SOCK_DGRAM \<or> sock_type (skt s k) = SOCK_RAW"
    using dgram_count_length [OF assms(1)] assms(1) by (simp_all add: dgrams_def)
  have R: "case ds of
         [] \<Rightarrow> snd (socket_vfs_read nb k sz s) = s \<and> (\<forall>bs. fst (socket_vfs_read nb k sz s) \<noteq> Got bs)
       | (_, _, bs) # r \<Rightarrow> \<exists>s'. socket_vfs_read nb k sz s = (Got (take sz bs), s') \<and> dgrams (skt s' k) r \<and>
            (\<forall>j. j \<noteq> k \<longrightarrow> skt s' j = skt s j)"
    if h: "0 < sz" "even (shutdown_flags (skt s k))" "domain (skt s k) \<noteq> AF_UNIX" for nb sz
  proof (cases ds)
    case Nil
    then show ?thesis
      using c ty h by (simp add: socket_vfs_read_def Let_def)
  next
    case (Cons d r)
    obtain i p bs where d: "d = (i, p, bs)"
      by (cases d)
    obtain k' where k': "socket_take nb sz (skt s k) = (Got (take sz bs), k')" "dgrams k' r"
      using take_dgram assms(1) unfolding Cons d by blast
    show ?thesis
      using k' c ty h by (simp add: Cons d socket_vfs_read_def Let_def upd_skt_def)
  qed
  show ?thesis
    using E R by blast
qed

definition udp_demo :: socks where
  "udp_demo = \<lparr>g_socket_list = [0], skt = (\<lambda>_. new_socket AF_INET SOCK_DGRAM 17), sock_fresh = 1, sock_pool = 4\<rparr>"

lemma udp_demo_dgrams: "dgrams (skt udp_demo 0) []"
  by (simp add: udp_demo_def new_socket_def dgrams_def rx_ok_def metas_def rx_bytes_def SOCK_RX_BUF_SIZE_def SOCK_DGRAM_QUEUE_LEN_def)

theorem socket_datagram_queue_witness:
  "\<exists>s'. socket_enqueue_data 0 [1, 2, 3] 127 53 udp_demo = (3, s') \<and> dgrams (skt s' 0) [(127, 53, [1, 2, 3])]"
proof -
  have "rx_len (skt udp_demo 0) + length [1, 2, 3 :: u8] \<le> SOCK_RX_BUF_SIZE" "length ([] :: dgram list) < SOCK_DGRAM_QUEUE_LEN"
    by (simp_all add: udp_demo_def new_socket_def SOCK_RX_BUF_SIZE_def SOCK_DGRAM_QUEUE_LEN_def)
  moreover obtain w s' where e: "socket_enqueue_data 0 [1, 2, 3] 127 53 udp_demo = (w, s')"
    by (metis surj_pair)
  ultimately have "w = length [1, 2, 3 :: u8] \<and> dgrams (skt s' 0) ([] @ [(127, 53, [1, 2, 3])])"
    using socket_datagram_queue [OF udp_demo_dgrams, of "[1, 2, 3]" 127 53, THEN conjunct1, unfolded e prod.case, THEN conjunct2]
    by (simp only: if_True simp_thms list.distinct not_Cons_self2)
  then show ?thesis
    using e by simp
qed

end
