(* ===== verification/Net.thy ===== *)
theory Net
  imports Socket
begin

text \<open>
  The network stack of \<^verbatim>\<open>kernel/src/net\<close>: interfaces, the loopback device, ARP, IPv4, ICMP, UDP and
  TCP, in the order of the files. Interfaces are numbered. The functions call each other in a
  circle, from \<open>netif_input\<close> through the protocols and \<open>ipv4_output\<close> to \<open>loopback_send\<close> and back, so
  every function takes the packet handler \<open>input\<close> that the loopback device calls, and \<open>netif_input\<close>
  ties the knot with a bound on the nesting. \<open>Deep\<close> is the bound running out, \<open>Fault\<close> a write
  behind the end of a buffer. The network cards are the parameter \<open>env\<close>: what the driver's send
  function answers to a frame, and what its poll function does to the stack. \<open>buf_pool\<close> is how
  many more packet buffers the heap can provide, \<open>wire\<close> records the frames given to the drivers.
\<close>

section \<open>State\<close>

definition ETH_P_IP :: u16 where "ETH_P_IP = 0x0800"
definition ETH_P_ARP :: u16 where "ETH_P_ARP = 0x0806"
definition NETIF_FLAG_UP :: u32 where "NETIF_FLAG_UP = 1"
definition NETIF_FLAG_LOOPBACK :: u32 where "NETIF_FLAG_LOOPBACK = 2"
definition NETIF_FLAG_RUNNING :: u32 where "NETIF_FLAG_RUNNING = 4"
definition ICMP_TYPE_ECHOREPLY :: u8 where "ICMP_TYPE_ECHOREPLY = 0"
definition ICMP_TYPE_ECHOREQ :: u8 where "ICMP_TYPE_ECHOREQ = 8"
definition ARP_OP_REQUEST :: u16 where "ARP_OP_REQUEST = 1"
definition ARP_OP_REPLY :: u16 where "ARP_OP_REPLY = 2"
definition TCP_FLAG_FIN :: u8 where "TCP_FLAG_FIN = 1"
definition TCP_FLAG_SYN :: u8 where "TCP_FLAG_SYN = 2"
definition TCP_FLAG_RST :: u8 where "TCP_FLAG_RST = 4"
definition TCP_FLAG_ACK :: u8 where "TCP_FLAG_ACK = 16"

datatype send_fn = Loopback_Send | Driver_Send nat

record netif =
  name :: string
  mac :: "u8 list"
  ip :: u32
  netmask :: u32
  gateway :: u32
  flags :: u32
  rx_packets :: nat
  tx_packets :: nat
  rx_bytes_count :: nat
  tx_bytes_count :: nat
  send :: "send_fn option"
  poll :: "nat option"

record arp_entry =
  arp_ip :: u32
  arp_mac :: "u8 list"
  valid :: bool

record net = socks +
  nif :: "nat \<Rightarrow> netif"
  g_netif_list :: "nat list"
  g_arp_cache :: "arp_entry list"
  g_ip_id :: u16
  buf_pool :: nat
  wire :: "(nat \<times> u8 list) list"

record env =
  drv_send :: "nat \<Rightarrow> u8 list \<Rightarrow> int"
  drv_poll :: "nat \<Rightarrow> net \<Rightarrow> net"

datatype 'a out = Fault | Deep | Ok 'a

type_synonym handler = "nat \<Rightarrow> net_buf \<Rightarrow> net \<Rightarrow> net out"

fun out_bind :: "'a out \<Rightarrow> ('a \<Rightarrow> 'b out) \<Rightarrow> 'b out" where
  "out_bind Fault f = Fault"
| "out_bind Deep f = Deep"
| "out_bind (Ok x) f = f x"

definition on :: "u32 \<Rightarrow> u32 \<Rightarrow> bool" where
  "on fl bits \<longleftrightarrow> fl AND bits \<noteq> 0"

definition has_flag :: "u8 \<Rightarrow> u8 \<Rightarrow> bool" where
  "has_flag fl bits \<longleftrightarrow> fl AND bits \<noteq> 0"

section \<open>Interfaces: \<^verbatim>\<open>netif.c\<close>\<close>

definition net_buf_alloc :: "net \<Rightarrow> net_buf option \<times> net" where
  "net_buf_alloc s = (if buf_pool s = 0 then (None, s) else (Some zero_buf, s\<lparr>buf_pool := buf_pool s - 1\<rparr>))"

definition net_buf_free :: "net \<Rightarrow> net" where
  "net_buf_free s = s\<lparr>buf_pool := buf_pool s + 1\<rparr>"

text \<open>A fresh buffer with \<open>xs\<close> written at its start.\<close>

definition fill_buf :: "u8 list \<Rightarrow> net_buf \<Rightarrow> net_buf out" where
  "fill_buf xs b = (case put 0 xs (bdata b) of None \<Rightarrow> Fault | Some d \<Rightarrow> Ok (b\<lparr>bdata := d, blen := length xs, boffset := 0\<rparr>))"

definition netif_register :: "nat \<Rightarrow> net \<Rightarrow> net" where
  "netif_register n s = s\<lparr>g_netif_list := n # g_netif_list s\<rparr>"

definition netif_get_loopback :: "net \<Rightarrow> nat option" where
  "netif_get_loopback s = find (\<lambda>n. on (flags (nif s n)) NETIF_FLAG_LOOPBACK) (g_netif_list s)"

definition netif_get_default :: "net \<Rightarrow> nat option" where
  "netif_get_default s =
     (case find (\<lambda>n. \<not> on (flags (nif s n)) NETIF_FLAG_LOOPBACK \<and> on (flags (nif s n)) NETIF_FLAG_UP) (g_netif_list s) of
        Some n \<Rightarrow> Some n | None \<Rightarrow> netif_get_loopback s)"

definition netif_find_by_name :: "string \<Rightarrow> net \<Rightarrow> nat option" where
  "netif_find_by_name nm s = find (\<lambda>n. name (nif s n) = nm) (g_netif_list s)"

definition netif_find_by_ip :: "u32 \<Rightarrow> net \<Rightarrow> nat option" where
  "netif_find_by_ip a s = find (\<lambda>n. ip (nif s n) = a) (g_netif_list s)"

definition loopback_send :: "handler \<Rightarrow> nat \<Rightarrow> net_buf \<Rightarrow> net \<Rightarrow> (int \<times> net) out" where
  "loopback_send input n buf s =
     (case net_buf_alloc s of
        (None, s1) \<Rightarrow> Ok (-1, s1)
      | (Some b, s1) \<Rightarrow>
          out_bind (fill_buf (content buf) b) (\<lambda>rx_copy.
            let x = nif s1 n;
                s2 = s1\<lparr>nif := (nif s1)(n := x\<lparr>tx_packets := tx_packets x + 1, tx_bytes_count := tx_bytes_count x + blen buf,
                       rx_packets := rx_packets x + 1, rx_bytes_count := rx_bytes_count x + blen buf\<rparr>)\<rparr>
            in out_bind (input n rx_copy s2) (\<lambda>s3. Ok (0, s3))))"

definition netif_output :: "env \<Rightarrow> handler \<Rightarrow> nat \<Rightarrow> net_buf \<Rightarrow> net \<Rightarrow> (int \<times> net) out" where
  "netif_output env input n buf s =
     (case send (nif s n) of
        None \<Rightarrow> Ok (-1, net_buf_free s)
      | Some Loopback_Send \<Rightarrow> out_bind (loopback_send input n buf s) (\<lambda>(res, s1). Ok (res, net_buf_free s1))
      | Some (Driver_Send d) \<Rightarrow>
          Ok (drv_send env d (content buf), net_buf_free (s\<lparr>wire := wire s @ [(d, content buf)]\<rparr>)))"

definition netif_poll_all :: "env \<Rightarrow> net \<Rightarrow> net" where
  "netif_poll_all env s =
     fold (\<lambda>n t. case poll (nif s n) of None \<Rightarrow> t | Some d \<Rightarrow> drv_poll env d t)
       (take 8 (filter (\<lambda>n. poll (nif s n) \<noteq> None \<and> on (flags (nif s n)) NETIF_FLAG_UP) (g_netif_list s))) s"

definition loopback_netif :: netif where
  "loopback_netif = \<lparr>name = ''lo'', mac = replicate 6 0, ip = 127 OR push_bit 24 1, netmask = 255, gateway = 0,
     flags = NETIF_FLAG_UP OR NETIF_FLAG_LOOPBACK OR NETIF_FLAG_RUNNING, rx_packets = 0, tx_packets = 0,
     rx_bytes_count = 0, tx_bytes_count = 0, send = Some Loopback_Send, poll = None\<rparr>"

definition loopback_init :: "nat \<Rightarrow> net \<Rightarrow> net" where
  "loopback_init n s = netif_register n (s\<lparr>nif := (nif s)(n := loopback_netif)\<rparr>)"

section \<open>ARP: \<^verbatim>\<open>arp.c\<close>\<close>

definition ARP_CACHE_SIZE :: nat where
  "ARP_CACHE_SIZE = 64"

definition arp_init :: "net \<Rightarrow> net" where
  "arp_init s = s\<lparr>g_arp_cache := replicate ARP_CACHE_SIZE \<lparr>arp_ip = 0, arp_mac = replicate 6 0, valid = False\<rparr>\<rparr>"

definition arp_slot :: "u32 \<Rightarrow> arp_entry list \<Rightarrow> nat option" where
  "arp_slot a c = find (\<lambda>i. valid (c ! i) \<and> arp_ip (c ! i) = a) [0..<length c]"

definition arp_cache_insert :: "u32 \<Rightarrow> u8 list \<Rightarrow> net \<Rightarrow> net" where
  "arp_cache_insert a m s =
     (let c = g_arp_cache s; e = \<lparr>arp_ip = a, arp_mac = m, valid = True\<rparr>
      in s\<lparr>g_arp_cache :=
           (case arp_slot a c of
              Some i \<Rightarrow> c[i := (c ! i)\<lparr>arp_mac := m\<rparr>]
            | None \<Rightarrow> (case find (\<lambda>i. \<not> valid (c ! i)) [0..<length c] of Some i \<Rightarrow> c[i := e] | None \<Rightarrow> c[0 := e]))\<rparr>)"

definition arp_lookup :: "u32 \<Rightarrow> net \<Rightarrow> u8 list option" where
  "arp_lookup a s = map_option (\<lambda>i. arp_mac (g_arp_cache s ! i)) (arp_slot a (g_arp_cache s))"

text \<open>The Ethernet and ARP headers as both senders fill them in.\<close>

definition arp_frame :: "u8 list \<Rightarrow> netif \<Rightarrow> u16 \<Rightarrow> u8 list \<Rightarrow> u32 \<Rightarrow> u8 list" where
  "arp_frame dest x opcode target_mac target_ip =
     dest @ mac x @ bytes16 (htons ETH_P_ARP) @
     bytes16 (htons 1) @ bytes16 (htons ETH_P_IP) @ [6, 4] @ bytes16 (htons opcode) @
     mac x @ bytes32 (ip x) @ target_mac @ bytes32 target_ip"

definition arp_send_request :: "env \<Rightarrow> handler \<Rightarrow> nat \<Rightarrow> u32 \<Rightarrow> net \<Rightarrow> net out" where
  "arp_send_request env input n target_ip s =
     (if send (nif s n) = None then Ok s
      else case net_buf_alloc s of
        (None, s1) \<Rightarrow> Ok s1
      | (Some b, s1) \<Rightarrow>
          out_bind (fill_buf (arp_frame (replicate 6 0xFF) (nif s1 n) ARP_OP_REQUEST (replicate 6 0) target_ip) b) (\<lambda>buf.
            out_bind (netif_output env input n buf s1) (\<lambda>(_, s2). Ok s2)))"

definition arp_send_reply :: "env \<Rightarrow> handler \<Rightarrow> nat \<Rightarrow> u32 \<Rightarrow> u8 list \<Rightarrow> net \<Rightarrow> net out" where
  "arp_send_reply env input n target_ip target_mac s =
     (if send (nif s n) = None then Ok s
      else case net_buf_alloc s of
        (None, s1) \<Rightarrow> Ok s1
      | (Some b, s1) \<Rightarrow>
          out_bind (fill_buf (arp_frame target_mac (nif s1 n) ARP_OP_REPLY target_mac target_ip) b) (\<lambda>buf.
            out_bind (netif_output env input n buf s1) (\<lambda>(_, s2). Ok s2)))"

definition arp_input :: "env \<Rightarrow> handler \<Rightarrow> handler" where
  "arp_input env input n buf s =
     (if blen buf < 28 then Ok (net_buf_free s)
      else let d = bdata buf; off = boffset buf;
               opcode = ntohs (get16 d (off + 6));
               sender_mac = take 6 (drop (off + 8) d);
               sender_ip = get32 d (off + 14);
               target_ip = get32 d (off + 24);
               s1 = arp_cache_insert sender_ip sender_mac s
           in out_bind (if opcode = ARP_OP_REQUEST \<and> target_ip = ip (nif s1 n)
                        then arp_send_reply env input n sender_ip sender_mac s1 else Ok s1)
                (\<lambda>s2. Ok (net_buf_free s2)))"

section \<open>IPv4: \<^verbatim>\<open>ipv4.c\<close>\<close>

definition ipv4_init :: "net \<Rightarrow> net" where
  "ipv4_init s = s\<lparr>g_ip_id := 1\<rparr>"

definition ip_route :: "nat option \<Rightarrow> u32 \<Rightarrow> net \<Rightarrow> nat option" where
  "ip_route no dest_ip s =
     (case no of
        Some n \<Rightarrow> Some n
      | None \<Rightarrow> if dest_ip AND 0xFF = 127 \<or> netif_find_by_ip dest_ip s \<noteq> None
                then netif_get_loopback s else netif_get_default s)"

text \<open>The loop that waits for the answer to an ARP request: poll, look, sleep a millisecond.\<close>

fun arp_wait :: "env \<Rightarrow> u32 \<Rightarrow> nat \<Rightarrow> net \<Rightarrow> net" where
  "arp_wait env a 0 s = s"
| "arp_wait env a (Suc r) s =
     (let s1 = netif_poll_all env s in if arp_lookup a s1 \<noteq> None then s1 else arp_wait env a r s1)"

definition ip_dst_mac :: "env \<Rightarrow> handler \<Rightarrow> nat \<Rightarrow> u32 \<Rightarrow> net \<Rightarrow> (u8 list option \<times> net) out" where
  "ip_dst_mac env input n dest_ip s =
     (let x = nif s n;
          next_hop_ip = (if \<not> on (flags x) NETIF_FLAG_LOOPBACK \<and> dest_ip AND netmask x \<noteq> ip x AND netmask x
                         then gateway x else dest_ip)
      in if on (flags x) NETIF_FLAG_LOOPBACK then Ok (Some (replicate 6 0), s)
         else if dest_ip = 0xFFFFFFFF then Ok (Some (replicate 6 0xFF), s)
         else (case arp_lookup next_hop_ip s of
             Some m \<Rightarrow> Ok (Some m, s)
           | None \<Rightarrow>
               out_bind (arp_send_request env input n next_hop_ip s) (\<lambda>s1.
                 let s2 = arp_wait env next_hop_ip 20 s1 in Ok (arp_lookup next_hop_ip s2, s2))))"

definition ip_header :: "netif \<Rightarrow> u16 \<Rightarrow> u32 \<Rightarrow> u8 \<Rightarrow> nat \<Rightarrow> u8 list" where
  "ip_header x ident dest_ip proto len =
     (let h1 = [0x45, 0] @ bytes16 (htons (of_nat (20 + len))) @ bytes16 (htons ident) @ bytes16 (htons 0x4000) @ [64, proto];
          h2 = bytes32 (ip x) @ bytes32 dest_ip
      in h1 @ bytes16 (ipv4_checksum (h1 @ [0, 0] @ h2)) @ h2)"

definition ip_frame :: "u8 list \<Rightarrow> netif \<Rightarrow> u16 \<Rightarrow> u32 \<Rightarrow> u8 \<Rightarrow> u8 list \<Rightarrow> u8 list" where
  "ip_frame dst_mac x ident dest_ip proto payload =
     dst_mac @ mac x @ bytes16 (htons ETH_P_IP) @ ip_header x ident dest_ip proto (length payload) @ payload"

definition ipv4_output :: "env \<Rightarrow> handler \<Rightarrow> nat option \<Rightarrow> u32 \<Rightarrow> u8 \<Rightarrow> net_buf \<Rightarrow> net \<Rightarrow> (int \<times> net) out" where
  "ipv4_output env input no dest_ip proto payload s =
     (case ip_route no dest_ip s of
        None \<Rightarrow> Ok (-1, net_buf_free s)
      | Some n \<Rightarrow>
          out_bind (ip_dst_mac env input n dest_ip s) (\<lambda>(m, s1).
            case m of
              None \<Rightarrow> Ok (-1, net_buf_free s1)
            | Some dst_mac \<Rightarrow>
                (case net_buf_alloc s1 of
                   (None, s2) \<Rightarrow> Ok (-1, net_buf_free s2)
                 | (Some b, s2) \<Rightarrow>
                     out_bind (fill_buf (ip_frame dst_mac (nif s2 n) (g_ip_id s2) dest_ip proto (content payload)) b) (\<lambda>tx_buf.
                       netif_output env input n tx_buf (net_buf_free (s2\<lparr>g_ip_id := g_ip_id s2 + 1\<rparr>))))))"

section \<open>ICMP: \<^verbatim>\<open>icmp.c\<close>\<close>

text \<open>The source address of the IP header that is taken to lie in the 20 bytes before the payload.\<close>

definition ip_src :: "net_buf \<Rightarrow> u32" where
  "ip_src buf = get32 (bdata buf) (boffset buf - 20 + 12)"

definition ip_dest :: "net_buf \<Rightarrow> u32" where
  "ip_dest buf = get32 (bdata buf) (boffset buf - 20 + 16)"

definition icmp_reply :: "u8 list \<Rightarrow> u8 list" where
  "icmp_reply c = [ICMP_TYPE_ECHOREPLY, 0] @ bytes16 (ipv4_checksum ([ICMP_TYPE_ECHOREPLY, 0, 0, 0] @ drop 4 c)) @ drop 4 c"

definition icmp_input :: "env \<Rightarrow> handler \<Rightarrow> handler" where
  "icmp_input env input n buf s =
     (if blen buf < 8 then Ok (net_buf_free s)
      else let typ = get8 (bdata buf) (boffset buf)
           in out_bind
                (if typ = ICMP_TYPE_ECHOREQ
                 then (case net_buf_alloc s of
                     (None, s1) \<Rightarrow> Ok s1
                   | (Some b, s1) \<Rightarrow>
                       out_bind (fill_buf (icmp_reply (content buf)) b) (\<lambda>reply.
                         out_bind (ipv4_output env input (Some n) (ip_src buf) IP_PROTO_ICMP reply s1) (\<lambda>(_, s2). Ok s2)))
                 else if typ = ICMP_TYPE_ECHOREPLY
                 then (case socket_find_icmp s of
                     None \<Rightarrow> Ok s
                   | Some k \<Rightarrow> Ok (snd (socket_enqueue_data k (content buf) (ip_src buf) 0 s)))
                 else Ok s)
                (\<lambda>s1. Ok (net_buf_free s1)))"

definition icmp_send_echo_request ::
  "env \<Rightarrow> handler \<Rightarrow> u32 \<Rightarrow> u16 \<Rightarrow> u16 \<Rightarrow> u8 list \<Rightarrow> net \<Rightarrow> (int \<times> net) out" where
  "icmp_send_echo_request env input dest_ip ident sq payload s =
     (case net_buf_alloc s of
        (None, s1) \<Rightarrow> Ok (-1, s1)
      | (Some b, s1) \<Rightarrow>
          let rest = bytes16 (htons ident) @ bytes16 (htons sq) @ payload
          in out_bind (fill_buf ([ICMP_TYPE_ECHOREQ, 0] @
                 bytes16 (ipv4_checksum ([ICMP_TYPE_ECHOREQ, 0, 0, 0] @ rest)) @ rest) b) (\<lambda>buf.
               ipv4_output env input None dest_ip IP_PROTO_ICMP buf s1))"

section \<open>UDP: \<^verbatim>\<open>udp.c\<close>\<close>

definition udp_input :: "net_buf \<Rightarrow> net \<Rightarrow> net" where
  "udp_input buf s =
     (if blen buf < 8 then net_buf_free s
      else let d = bdata buf; off = boffset buf;
               src_port = ntohs (get16 d off);
               dest_port = ntohs (get16 d (off + 2));
               len = unat (ntohs (get16 d (off + 4)))
           in if len < 8 \<or> len > blen buf then net_buf_free s
              else let payload = take (len - 8) (drop (off + 8) d)
                   in net_buf_free (case socket_find_udp (ip_dest buf) dest_port s of
                        None \<Rightarrow> s
                      | Some k \<Rightarrow> snd (socket_enqueue_data k payload (ip_src buf) src_port s)))"

definition udp_output :: "env \<Rightarrow> handler \<Rightarrow> u32 \<Rightarrow> u16 \<Rightarrow> u32 \<Rightarrow> u16 \<Rightarrow> net_buf \<Rightarrow> net \<Rightarrow> (int \<times> net) out" where
  "udp_output env input src_ip src_port dest_ip dest_port payload s =
     (case net_buf_alloc s of
        (None, s1) \<Rightarrow> Ok (-1, net_buf_free s1)
      | (Some b, s1) \<Rightarrow>
          out_bind (fill_buf (bytes16 (htons src_port) @ bytes16 (htons dest_port) @
              bytes16 (htons (of_nat (8 + blen payload))) @ [0, 0] @ content payload) b) (\<lambda>tx_buf.
            let no = (if dest_ip AND 0xFF = 127 \<or> netif_find_by_ip dest_ip s1 \<noteq> None
                      then netif_get_loopback s1 else netif_get_default s1)
            in ipv4_output env input no dest_ip IP_PROTO_UDP tx_buf (net_buf_free s1)))"

section \<open>TCP: \<^verbatim>\<open>tcp.c\<close>\<close>

definition tcp_segment :: "u32 \<Rightarrow> u16 \<Rightarrow> u32 \<Rightarrow> u16 \<Rightarrow> u32 \<Rightarrow> u32 \<Rightarrow> u8 \<Rightarrow> u8 list \<Rightarrow> u8 list" where
  "tcp_segment src_ip src_port dest_ip dest_port sq ack fl data =
     (let h1 = bytes16 (htons src_port) @ bytes16 (htons dest_port) @ bytes32 (htonl sq) @ bytes32 (htonl ack) @
            [push_bit 4 5, fl] @ bytes16 (htons 65535);
          rest = [0, 0] @ data
      in h1 @ bytes16 (tcp_checksum src_ip dest_ip (h1 @ [0, 0] @ rest)) @ rest)"

definition tcp_send_segment ::
  "env \<Rightarrow> handler \<Rightarrow> u32 \<Rightarrow> u16 \<Rightarrow> u32 \<Rightarrow> u16 \<Rightarrow> u32 \<Rightarrow> u32 \<Rightarrow> u8 \<Rightarrow> u8 list \<Rightarrow> net \<Rightarrow> (int \<times> net) out" where
  "tcp_send_segment env input src_ip src_port dest_ip dest_port sq ack fl data s =
     (case net_buf_alloc s of
        (None, s1) \<Rightarrow> Ok (-1, s1)
      | (Some b, s1) \<Rightarrow>
          out_bind (fill_buf (tcp_segment src_ip src_port dest_ip dest_port sq ack fl data) b) (\<lambda>buf.
            ipv4_output env input None dest_ip IP_PROTO_TCP buf s1))"

definition socket_create_child :: "nat \<Rightarrow> u32 \<Rightarrow> u16 \<Rightarrow> net \<Rightarrow> nat option \<times> net" where
  "socket_create_child l rip rport s =
     (case socket_create (domain (skt s l)) (sock_type (skt s l)) (protocol (skt s l)) s of
        (None, s1) \<Rightarrow> (None, s1)
      | (Some c, s1) \<Rightarrow>
          let def = (if rip AND 0xFF = 127 then netif_get_loopback s1 else netif_get_default s1);
              lip = (if local_ip (skt s1 l) \<noteq> 0 then local_ip (skt s1 l)
                     else case def of None \<Rightarrow> 0 | Some n \<Rightarrow> ip (nif s1 n));
              s2 = upd_skt c (\<lambda>x. x\<lparr>local_ip := lip, local_port := local_port (skt s1 l), remote_ip := rip, remote_port := rport\<rparr>) s1
          in (Some c, upd_skt l (\<lambda>x. if length (accept_queue x) < 16 then x\<lparr>accept_queue := accept_queue x @ [c]\<rparr> else x) s2))"

text \<open>The acknowledgement that \<open>tcp_input\<close> sends for a socket, with the result dropped.\<close>

definition tcp_ack :: "env \<Rightarrow> handler \<Rightarrow> nat \<Rightarrow> net \<Rightarrow> net out" where
  "tcp_ack env input k s =
     (let x = skt s k
      in out_bind (tcp_send_segment env input (local_ip x) (local_port x) (remote_ip x) (remote_port x) (snd_nxt x) (rcv_nxt x)
           TCP_FLAG_ACK [] s) (\<lambda>(_, s1). Ok s1))"

text \<open>The \<open>switch\<close> over the state of the socket.\<close>

definition tcp_process :: "env \<Rightarrow> handler \<Rightarrow> nat \<Rightarrow> u8 \<Rightarrow> u32 \<Rightarrow> u32 \<Rightarrow> u8 list \<Rightarrow> u32 \<Rightarrow> u16 \<Rightarrow> net \<Rightarrow> net out" where
  "tcp_process env input k fl sq ack payload src_ip src_port s =
     (case tcp_state (skt s k) of
        TCP_STATE_SYN_SENT \<Rightarrow>
          if has_flag fl TCP_FLAG_SYN \<and> has_flag fl TCP_FLAG_ACK
          then tcp_ack env input k (upd_skt k (\<lambda>x. x\<lparr>rcv_nxt := sq + 1, snd_una := ack,
                 tcp_state := TCP_STATE_ESTABLISHED, state := SS_CONNECTED\<rparr>) s)
          else Ok s
      | TCP_STATE_SYN_RECEIVED \<Rightarrow>
          Ok (if has_flag fl TCP_FLAG_ACK
              then upd_skt k (\<lambda>x. x\<lparr>tcp_state := TCP_STATE_ESTABLISHED, state := SS_CONNECTED\<rparr>) s else s)
      | TCP_STATE_ESTABLISHED \<Rightarrow>
          out_bind (if payload \<noteq> []
                    then tcp_ack env input k (upd_skt k (\<lambda>x. x\<lparr>rcv_nxt := rcv_nxt x + of_nat (length payload)\<rparr>)
                           (snd (socket_enqueue_data k payload src_ip src_port s)))
                    else Ok s) (\<lambda>s1.
            if has_flag fl TCP_FLAG_FIN
            then tcp_ack env input k (upd_skt k (\<lambda>x. x\<lparr>rcv_nxt := rcv_nxt x + 1, tcp_state := TCP_STATE_CLOSE_WAIT,
                   state := SS_CLOSED\<rparr>) s1)
            else Ok s1)
      | TCP_STATE_FIN_WAIT_1 \<Rightarrow>
          let s1 = (if has_flag fl TCP_FLAG_ACK then upd_skt k (\<lambda>x. x\<lparr>tcp_state := TCP_STATE_FIN_WAIT_2\<rparr>) s else s)
          in if has_flag fl TCP_FLAG_FIN
             then out_bind (tcp_ack env input k (upd_skt k (\<lambda>x. x\<lparr>rcv_nxt := rcv_nxt x + 1\<rparr>) s1)) (\<lambda>s2.
                    Ok (upd_skt k (\<lambda>x. x\<lparr>tcp_state := TCP_STATE_TIME_WAIT\<rparr>) s2))
             else Ok s1
      | TCP_STATE_FIN_WAIT_2 \<Rightarrow>
          if has_flag fl TCP_FLAG_FIN
          then out_bind (tcp_ack env input k (upd_skt k (\<lambda>x. x\<lparr>rcv_nxt := rcv_nxt x + 1\<rparr>) s)) (\<lambda>s2.
                 Ok (upd_skt k (\<lambda>x. x\<lparr>tcp_state := TCP_STATE_CLOSED, state := SS_CLOSED\<rparr>) s2))
          else Ok s
      | TCP_STATE_LAST_ACK \<Rightarrow>
          Ok (if has_flag fl TCP_FLAG_ACK
              then upd_skt k (\<lambda>x. x\<lparr>tcp_state := TCP_STATE_CLOSED, state := SS_CLOSED\<rparr>) s else s)
      | _ \<Rightarrow> Ok s)"

definition tcp_input :: "env \<Rightarrow> handler \<Rightarrow> handler" where
  "tcp_input env input n buf s =
     (if blen buf < 20 then Ok (net_buf_free s)
      else let d = bdata buf; off = boffset buf;
               src_port = ntohs (get16 d off);
               dest_port = ntohs (get16 d (off + 2));
               sq = ntohl (get32 d (off + 4));
               ack = ntohl (get32 d (off + 8));
               hlen = unat (drop_bit 4 (get8 d (off + 12))) * 4;
               fl = get8 d (off + 13)
           in if hlen < 20 \<or> blen buf < hlen then Ok (net_buf_free s)
              else let payload = drop hlen (content buf) in
                (case socket_find_tcp (ip_dest buf) dest_port (ip_src buf) src_port s of
                   None \<Rightarrow>
                     (case (if has_flag fl TCP_FLAG_SYN then socket_find_tcp_listener (ip_dest buf) dest_port s else None) of
                        Some l \<Rightarrow>
                          (case socket_create_child l (ip_src buf) src_port s of
                             (None, s1) \<Rightarrow> Ok (net_buf_free s1)
                           | (Some c, s1) \<Rightarrow>
                               let s2 = upd_skt c (\<lambda>x. x\<lparr>rcv_nxt := sq + 1, snd_nxt := 1000, tcp_state := TCP_STATE_SYN_RECEIVED\<rparr>) s1
                               in out_bind (tcp_send_segment env input (ip (nif s2 n)) dest_port (ip_src buf) src_port
                                    (snd_nxt (skt s2 c)) (rcv_nxt (skt s2 c)) (TCP_FLAG_SYN OR TCP_FLAG_ACK) [] s2) (\<lambda>(_, s3).
                                    Ok (net_buf_free (upd_skt c (\<lambda>x. x\<lparr>snd_nxt := snd_nxt x + 1\<rparr>) s3))))
                      | None \<Rightarrow>
                          out_bind (if \<not> has_flag fl TCP_FLAG_RST \<and> has_flag fl TCP_FLAG_SYN
                                    then out_bind (tcp_send_segment env input (ip (nif s n)) dest_port (ip_src buf) src_port ack
                                           (sq + (if payload \<noteq> [] then of_nat (length payload) else 1))
                                           (TCP_FLAG_RST OR TCP_FLAG_ACK) [] s) (\<lambda>(_, s1). Ok s1)
                                    else Ok s) (\<lambda>s1. Ok (net_buf_free s1)))
                 | Some k \<Rightarrow>
                     if has_flag fl TCP_FLAG_RST
                     then Ok (net_buf_free (upd_skt k (\<lambda>x. x\<lparr>tcp_state := TCP_STATE_CLOSED, state := SS_CLOSED\<rparr>) s))
                     else let s1 = (if local_ip (skt s k) = 0 then upd_skt k (\<lambda>x. x\<lparr>local_ip := ip (nif s n)\<rparr>) s else s)
                          in out_bind (tcp_process env input k fl sq ack payload (ip_src buf) src_port s1)
                               (\<lambda>s2. Ok (net_buf_free s2))))"

section \<open>The receive path\<close>

definition ipv4_input :: "env \<Rightarrow> handler \<Rightarrow> handler" where
  "ipv4_input env input n buf s =
     (if blen buf < 20 then Ok (net_buf_free s)
      else let d = bdata buf; off = boffset buf;
               version = drop_bit 4 (get8 d off);
               ihl = unat (get8 d off AND 0x0F) * 4;
               dest_ip = get32 d (off + 16);
               total_len = unat (ntohs (get16 d (off + 2)));
               proto = get8 d (off + 9)
           in if version \<noteq> 4 \<or> ihl < 20 \<or> blen buf < ihl then Ok (net_buf_free s)
              else if dest_ip \<noteq> ip (nif s n) \<and> dest_ip \<noteq> 0xFFFFFFFF \<and> \<not> on (flags (nif s n)) NETIF_FLAG_LOOPBACK
              then Ok (net_buf_free s)
              else if total_len > blen buf \<or> total_len < ihl then Ok (net_buf_free s)
              else let buf1 = buf\<lparr>boffset := off + ihl, blen := total_len - ihl\<rparr>
                   in if proto = IP_PROTO_ICMP then icmp_input env input n buf1 s
                      else if proto = IP_PROTO_UDP then Ok (udp_input buf1 s)
                      else if proto = IP_PROTO_TCP then tcp_input env input n buf1 s
                      else Ok (net_buf_free s))"

definition netif_input_body :: "env \<Rightarrow> handler \<Rightarrow> handler" where
  "netif_input_body env input n buf s =
     (if blen buf < 14 then Ok (net_buf_free s)
      else let eth_type = ntohs (get16 (bdata buf) (boffset buf + 12));
               buf1 = buf\<lparr>boffset := boffset buf + 14, blen := blen buf - 14\<rparr>
           in if eth_type = ETH_P_ARP then arp_input env input n buf1 s
              else if eth_type = ETH_P_IP then ipv4_input env input n buf1 s
              else Ok (net_buf_free s))"

fun netif_input :: "env \<Rightarrow> nat \<Rightarrow> handler" where
  "netif_input env 0 n buf s = Deep"
| "netif_input env (Suc fuel) n buf s = netif_input_body env (netif_input env fuel) n buf s"

section \<open>What every step keeps\<close>

text \<open>
  The order in which received segments can move a connection: forward through the handshake, from
  there to the closing states, never back.
\<close>

definition closing :: "tcp_state_t \<Rightarrow> bool" where
  "closing x \<longleftrightarrow> x \<in> {TCP_STATE_CLOSE_WAIT, TCP_STATE_TIME_WAIT, TCP_STATE_CLOSED}"

definition tcp_later :: "tcp_state_t \<Rightarrow> tcp_state_t \<Rightarrow> bool" where
  "tcp_later a b \<longleftrightarrow> closing b \<or> \<not> closing a \<and>
     (a = b \<or> a \<in> {TCP_STATE_SYN_SENT, TCP_STATE_SYN_RECEIVED} \<and> b = TCP_STATE_ESTABLISHED \<or>
      a = TCP_STATE_FIN_WAIT_1 \<and> b = TCP_STATE_FIN_WAIT_2)"

lemma tcp_later_refl [simp]: "tcp_later a a"
  by (simp add: tcp_later_def)

lemma tcp_later_closing [simp]:
  "tcp_later a TCP_STATE_CLOSED" "tcp_later a TCP_STATE_TIME_WAIT" "tcp_later a TCP_STATE_CLOSE_WAIT"
  by (simp_all add: tcp_later_def closing_def)

lemma tcp_later_trans: "tcp_later a b \<Longrightarrow> tcp_later b c \<Longrightarrow> tcp_later a c"
  unfolding tcp_later_def closing_def by auto

definition net_ok :: "net \<Rightarrow> bool" where
  "net_ok s \<longleftrightarrow> length (g_arp_cache s) = ARP_CACHE_SIZE \<and> (\<forall>e \<in> set (g_arp_cache s). length (arp_mac e) = 6) \<and>
     (\<forall>n. length (mac (nif s n)) = 6) \<and> (\<forall>k \<in> set (g_socket_list s). k < sock_fresh s)"

definition advance :: "net \<Rightarrow> net \<Rightarrow> bool" where
  "advance s s' \<longleftrightarrow> net_ok s' \<and> sock_fresh s \<le> sock_fresh s' \<and>
     (\<forall>k < sock_fresh s. tcp_later (tcp_state (skt s k)) (tcp_state (skt s' k)))"

lemma advance_ok: "advance s s' \<Longrightarrow> net_ok s'"
  by (simp add: advance_def)

lemma advance_refl: "net_ok s \<Longrightarrow> advance s s"
  by (simp add: advance_def)

lemma advance_trans:
  assumes "advance s s'" and "advance s' s''"
  shows "advance s s''"
  using assms tcp_later_trans unfolding advance_def by (meson le_trans less_le_trans)

lemma advance_same:
  assumes "net_ok s'" and "skt s' = skt s" and "sock_fresh s' = sock_fresh s"
  shows "advance s s'"
  using assms by (simp add: advance_def)

lemma advance_upd_skt:
  assumes "net_ok s" and "tcp_later (tcp_state (skt s k)) (tcp_state (f (skt s k)))"
  shows "advance s (upd_skt k f s)"
  using assms by (simp add: advance_def upd_skt_def net_ok_def)

lemma buf_pool_upd_skt [simp]: "buf_pool (upd_skt k f s) = buf_pool s" "skt (upd_skt k f s) = (skt s)(k := f (skt s k))"
  by (simp_all add: upd_skt_def)

text \<open>A computation that ends well.\<close>

definition good :: "'a out \<Rightarrow> ('a \<Rightarrow> bool) \<Rightarrow> bool" where
  "good r P \<longleftrightarrow> (\<exists>x. r = Ok x \<and> P x)"

lemma good_Ok [simp]: "good (Ok x) P \<longleftrightarrow> P x"
  by (simp add: good_def)

lemma good_bind: "good r P \<Longrightarrow> (\<And>x. P x \<Longrightarrow> good (f x) Q) \<Longrightarrow> good (out_bind r f) Q"
  by (auto simp: good_def)

lemma good_mono: "good r P \<Longrightarrow> (\<And>x. P x \<Longrightarrow> Q x) \<Longrightarrow> good r Q"
  by (auto simp: good_def)

text \<open>Postconditions: from \<open>s\<close> on, with \<open>p\<close> buffers left in the pool.\<close>

definition post :: "net \<Rightarrow> nat \<Rightarrow> net \<Rightarrow> bool" where
  "post s p s' \<longleftrightarrow> advance s s' \<and> buf_pool s' = p"

lemma post_ok: "post s p s' \<Longrightarrow> net_ok s'"
  by (auto simp: post_def intro: advance_ok)

lemma post_trans: "advance s s' \<Longrightarrow> post s' p s'' \<Longrightarrow> post s p s''"
  by (auto simp: post_def intro: advance_trans)

lemma net_ok_simps [simp]:
  "net_ok (s\<lparr>buf_pool := p\<rparr>) = net_ok s" "net_ok (s\<lparr>g_ip_id := i\<rparr>) = net_ok s" "net_ok (s\<lparr>wire := w\<rparr>) = net_ok s"
  "net_ok (s\<lparr>skt := f\<rparr>) = net_ok s" "net_ok (upd_skt k g s) = net_ok s"
  by (simp_all add: net_ok_def upd_skt_def)

lemma post_free:
  assumes "post s p s'"
  shows "post s (Suc p) (net_buf_free s')"
proof -
  have "advance s' (net_buf_free s')"
    using post_ok [OF assms] by (intro advance_same) (simp_all add: net_buf_free_def)
  then show ?thesis
    using assms advance_trans [of s s'] by (simp add: post_def net_buf_free_def)
qed

lemma post_refl: "net_ok s \<Longrightarrow> post s (buf_pool s) s"
  by (simp add: post_def advance_refl)

lemma post_upd_skt:
  assumes "post s p s'" and "tcp_later (tcp_state (skt s' k)) (tcp_state (f (skt s' k)))"
  shows "post s p (upd_skt k f s')"
  using assms(1) advance_trans [of s s' "upd_skt k f s'"] advance_upd_skt [where f = f and k = k, OF post_ok [OF assms(1)] assms(2)]
  by (simp add: post_def)

lemma alloc_cases:
  assumes "net_ok s"
  obtains "net_buf_alloc s = (None, s)"
  | s1 where "net_buf_alloc s = (Some zero_buf, s1)" "post s (buf_pool s - 1) s1" "buf_pool s = buf_pool s1 + 1"
      "nif s1 = nif s" "g_ip_id s1 = g_ip_id s" "g_netif_list s1 = g_netif_list s" "g_arp_cache s1 = g_arp_cache s"
proof (cases "buf_pool s = 0")
  case True
  then show thesis
    using that(1) by (simp add: net_buf_alloc_def)
next
  case False
  let ?s = "s\<lparr>buf_pool := buf_pool s - 1\<rparr>"
  have "advance s ?s"
    using assms by (intro advance_same) simp_all
  then show thesis
    using that(2) [of ?s] False by (simp add: net_buf_alloc_def post_def)
qed

lemma fill_zero:
  assumes "length xs \<le> NET_MAX_PACKET_SIZE"
  shows "good (fill_buf xs zero_buf) (\<lambda>b. buf_ok b \<and> content b = xs \<and> blen b = length xs \<and> boffset b = 0)"
  using assms by (simp add: fill_buf_def put_def zero_buf_def buf_ok_def content_def)

lemma content_length: "buf_ok b \<Longrightarrow> length (content b) = blen b"
  by (auto simp: content_def buf_ok_def min_def)

lemma rx_fill_tcp_state: "tcp_state (snd (rx_fill xs k)) = tcp_state k"
  by (induction xs k rule: rx_fill.induct) (auto simp: rx_push_def split: prod.splits)

lemma enqueue_tcp_state: "tcp_state (snd (enqueue xs a p k)) = tcp_state k"
  by (simp add: enqueue_def Let_def rx_fill_tcp_state)

lemma socket_enqueue_upd: "snd (socket_enqueue_data k xs a p s) = upd_skt k (\<lambda>x. snd (enqueue xs a p x)) s"
  by (simp add: socket_enqueue_data_def upd_skt_def split: prod.split)

lemma post_enqueue: "post s p s' \<Longrightarrow> post s p (snd (socket_enqueue_data k xs a q s'))"
  unfolding socket_enqueue_upd by (rule post_upd_skt) (simp_all add: enqueue_tcp_state)

lemma find_member: "find P xs = Some x \<Longrightarrow> x \<in> set xs"
  by (auto simp: find_Some_iff)

lemma bytes32_length: "length (bytes32 w) = 4"
  by simp

lemma arp_frame_length: "net_ok s \<Longrightarrow> length dest = 6 \<Longrightarrow> length tm = 6 \<Longrightarrow> length (arp_frame dest (nif s n) op tm ti) = 42"
  by (simp add: arp_frame_def net_ok_def)

lemma ip_frame_length: "net_ok s \<Longrightarrow> length m = 6 \<Longrightarrow> length (ip_frame m (nif s n) i d p xs) = 34 + length xs"
  by (simp add: ip_frame_def ip_header_def net_ok_def Let_def)

lemma arp_slot_bound: "arp_slot a c = Some i \<Longrightarrow> i < length c"
  by (auto simp: arp_slot_def dest: find_member)

lemma arp_lookup_length: "net_ok s \<Longrightarrow> arp_lookup a s = Some m \<Longrightarrow> length m = 6"
  by (auto simp: arp_lookup_def net_ok_def dest!: arp_slot_bound)

lemma post_arp_insert:
  assumes "post s p s'" and "length m = 6"
  shows "post s p (arp_cache_insert a m s')"
proof -
  have n: "net_ok s'"
    by (rule post_ok [OF assms(1)])
  have "net_ok (arp_cache_insert a m s')"
    using n assms(2) by (auto simp: net_ok_def arp_cache_insert_def Let_def ARP_CACHE_SIZE_def
        split: option.split dest!: subsetD [OF set_update_subset_insert] arp_slot_bound)
  then have "advance s' (arp_cache_insert a m s')"
    by (rule advance_same) (simp_all add: arp_cache_insert_def Let_def)
  then show ?thesis
    using assms(1) advance_trans [of s s'] by (simp add: post_def arp_cache_insert_def Let_def)
qed

section \<open>The stack over a packet handler\<close>

text \<open>
  What the stack needs of the handler behind the loopback device and of the drivers. The handler
  has to cope with every well-formed buffer while fewer than \<open>lim\<close> buffers are left, and gives its
  buffer back.
\<close>

locale packet_stack =
  fixes env :: env and input :: handler and lim :: nat
  assumes drivers: "net_ok s \<Longrightarrow> post s (buf_pool s) (drv_poll env d s)"
    and input: "net_ok s \<Longrightarrow> buf_ok buf \<Longrightarrow> buf_pool s < lim \<Longrightarrow> good (input n buf s) (post s (buf_pool s + 1))"
begin

lemma poll_all_post: "net_ok s \<Longrightarrow> post s (buf_pool s) (netif_poll_all env s)"
proof -
  assume s: "net_ok s"
  have "post s (buf_pool s) (fold (\<lambda>n t. case poll (nif s n) of None \<Rightarrow> t | Some d \<Rightarrow> drv_poll env d t) xs u)"
    if "post s (buf_pool s) u" for xs u
    using that
  proof (induction xs arbitrary: u)
    case (Cons n xs)
    have "post s (buf_pool s) (case poll (nif s n) of None \<Rightarrow> u | Some d \<Rightarrow> drv_poll env d u)"
      using Cons.prems drivers [OF post_ok [OF Cons.prems]] post_trans [of s u "buf_pool s"]
      by (auto simp: post_def split: option.split)
    from Cons.IH [OF this] show ?case
      by simp
  qed simp
  from this [OF post_refl [OF s]] show ?thesis
    unfolding netif_poll_all_def .
qed

lemma arp_wait_post: "net_ok s \<Longrightarrow> post s (buf_pool s) (arp_wait env a r s)"
proof (induction r arbitrary: s)
  case (Suc r)
  note p = poll_all_post [OF Suc.prems]
  have "post s (buf_pool s) (arp_wait env a r (netif_poll_all env s))"
    using post_trans [OF _ Suc.IH [OF post_ok [OF p]], of s] p by (simp add: post_def)
  with p show ?case
    by (simp add: Let_def)
qed (simp add: post_refl)

lemma loopback_good:
  assumes s: "net_ok s" and b: "buf_ok buf" and l: "buf_pool s \<le> lim"
  shows "good (loopback_send input n buf s) (\<lambda>(r, s'). post s (buf_pool s) s')"
proof (rule alloc_cases [OF s])
  fix s1
  assume a: "net_buf_alloc s = (Some zero_buf, s1)" "post s (buf_pool s - 1) s1" "buf_pool s = buf_pool s1 + 1"
  let ?x = "nif s1 n"
  let ?s2 = "s1\<lparr>nif := (nif s1)(n := ?x\<lparr>tx_packets := tx_packets ?x + 1, tx_bytes_count := tx_bytes_count ?x + blen buf,
                       rx_packets := rx_packets ?x + 1, rx_bytes_count := rx_bytes_count ?x + blen buf\<rparr>)\<rparr>"
  have o2: "net_ok ?s2"
    using post_ok [OF a(2)] by (simp add: net_ok_def)
  then have "advance s1 ?s2"
    by (rule advance_same) simp_all
  then have adv: "advance s ?s2"
    using a(2) advance_trans [of s s1] by (simp add: post_def)
  have len: "length (content buf) \<le> NET_MAX_PACKET_SIZE"
    using b by (simp add: content_length buf_ok_def)
  have "good (input n rx ?s2) (post s (buf_pool s))" if "buf_ok rx" for rx
  proof (rule good_mono [OF input [OF o2 that]])
    show "buf_pool ?s2 < lim"
      using a(3) l by simp
    show "post s (buf_pool s) x" if "post ?s2 (buf_pool ?s2 + 1) x" for x
      using post_trans [OF adv that] a(3) by simp
  qed
  then show ?thesis
    unfolding loopback_send_def a(1) Let_def prod.case option.case
    by (intro good_bind [OF fill_zero [OF len]] good_bind [where P = "post s (buf_pool s)"]) simp_all
qed (simp add: loopback_send_def post_refl s)

lemma output_good:
  assumes s: "net_ok s" and b: "buf_ok buf" and l: "buf_pool s \<le> lim"
  shows "good (netif_output env input n buf s) (\<lambda>(r, s'). post s (buf_pool s + 1) s')"
proof (cases "send (nif s n)")
  case None
  then show ?thesis
    using post_free [OF post_refl [OF s]] by (simp add: netif_output_def)
next
  case (Some f)
  show ?thesis
  proof (cases f)
    case Loopback_Send
    have "good (out_bind (loopback_send input n buf s) (\<lambda>(res, s1). Ok (res, net_buf_free s1))) (\<lambda>(r, s'). post s (buf_pool s + 1) s')"
      by (rule good_bind [OF loopback_good [OF assms]]) (auto intro: post_free)
    then show ?thesis
      using Some Loopback_Send by (simp add: netif_output_def)
  next
    case (Driver_Send d)
    have "advance s (s\<lparr>wire := wire s @ [(d, content buf)]\<rparr>)"
      using s by (intro advance_same) simp_all
    then have "post s (buf_pool s) (s\<lparr>wire := wire s @ [(d, content buf)]\<rparr>)"
      by (simp add: post_def)
    from post_free [OF this] show ?thesis
      using Some Driver_Send by (simp add: netif_output_def)
  qed
qed

lemma arp_frame_good:
  assumes s: "net_ok s" and l: "buf_pool s \<le> lim + 1" and m: "length dest = 6" "length tm = 6"
  shows "good (case net_buf_alloc s of (None, s1) \<Rightarrow> Ok s1 | (Some b, s1) \<Rightarrow>
      out_bind (fill_buf (arp_frame dest (nif s1 n) op tm ti) b) (\<lambda>buf.
        out_bind (netif_output env input n buf s1) (\<lambda>(_, s2). Ok s2))) (post s (buf_pool s))"
proof (rule alloc_cases [OF s])
  fix s1
  assume a: "net_buf_alloc s = (Some zero_buf, s1)" "post s (buf_pool s - 1) s1" "buf_pool s = buf_pool s1 + 1"
  have o1: "net_ok s1" and l1: "buf_pool s1 \<le> lim"
    using post_ok [OF a(2)] a(3) l by simp_all
  have len: "length (arp_frame dest (nif s1 n) op tm ti) \<le> NET_MAX_PACKET_SIZE"
    using arp_frame_length [OF o1 m] by (simp add: NET_MAX_PACKET_SIZE_def)
  have "good (netif_output env input n buf s1) (\<lambda>(r, s'). post s (buf_pool s) s')" if "buf_ok buf" for buf
    using output_good [OF o1 that l1, of n] by (rule good_mono) (use a(2,3) post_trans in \<open>auto simp: post_def\<close>)
  then show ?thesis
    unfolding a(1) prod.case option.case
    by (intro good_bind [OF fill_zero [OF len]] good_bind [where P = "\<lambda>(r, s'). post s (buf_pool s) s'"]) auto
qed (simp add: post_refl s)

lemma arp_request_good: "net_ok s \<Longrightarrow> buf_pool s \<le> lim + 1 \<Longrightarrow> good (arp_send_request env input n t s) (post s (buf_pool s))"
  using arp_frame_good [of s "replicate 6 0xFF" "replicate 6 0" n ARP_OP_REQUEST t] by (simp add: arp_send_request_def post_refl)

lemma arp_reply_good:
  "net_ok s \<Longrightarrow> buf_pool s \<le> lim + 1 \<Longrightarrow> length m = 6 \<Longrightarrow> good (arp_send_reply env input n t m s) (post s (buf_pool s))"
  using arp_frame_good [of s m m n ARP_OP_REPLY t] by (simp add: arp_send_reply_def post_refl)

lemma arp_input_good:
  assumes s: "net_ok s" and b: "buf_ok buf" and l: "buf_pool s \<le> lim"
  shows "good (arp_input env input n buf s) (post s (buf_pool s + 1))"
proof (cases "blen buf < 28")
  case True
  then show ?thesis
    using post_free [OF post_refl [OF s]] by (simp add: arp_input_def)
next
  case False
  let ?d = "bdata buf" and ?o = "boffset buf"
  let ?m = "take 6 (drop (?o + 8) ?d)" and ?i = "get32 ?d (?o + 14)"
  let ?s = "arp_cache_insert ?i ?m s"
  have m: "length ?m = 6"
    using b False by (auto simp: buf_ok_def min_def)
  have p: "post s (buf_pool s) ?s"
    by (rule post_arp_insert [OF post_refl [OF s] m])
  have pl: "buf_pool ?s = buf_pool s"
    using p by (simp add: post_def)
  have "good (if ntohs (get16 ?d (?o + 6)) = ARP_OP_REQUEST \<and> get32 ?d (?o + 24) = ip (nif ?s n)
      then arp_send_reply env input n ?i ?m ?s else Ok ?s) (post s (buf_pool s))"
    using good_mono [OF arp_reply_good [OF post_ok [OF p] _ m, of n ?i]] p l pl post_trans [of s ?s]
    by (auto simp: post_def)
  then show ?thesis
    unfolding arp_input_def Let_def if_not_P [OF False]
    by (rule good_bind) (use post_free in simp)
qed

lemma dst_mac_good:
  assumes s: "net_ok s" and l: "buf_pool s \<le> lim + 1"
  shows "good (ip_dst_mac env input n d s) (\<lambda>(m, s'). post s (buf_pool s) s' \<and> (\<forall>x. m = Some x \<longrightarrow> length x = 6))"
proof -
  have "good (out_bind (arp_send_request env input n a s) (\<lambda>s1. let s2 = arp_wait env a 20 s1 in Ok (arp_lookup a s2, s2)))
      (\<lambda>(m, s'). post s (buf_pool s) s' \<and> (\<forall>x. m = Some x \<longrightarrow> length x = 6))" for a
  proof (rule good_bind [OF arp_request_good [OF s l]])
    fix s1 assume p: "post s (buf_pool s) s1"
    have w: "post s (buf_pool s) (arp_wait env a 20 s1)"
      using post_trans [OF _ arp_wait_post [OF post_ok [OF p]], of s] p by (simp add: post_def)
    then show "good (let s2 = arp_wait env a 20 s1 in Ok (arp_lookup a s2, s2))
        (\<lambda>(m, s'). post s (buf_pool s) s' \<and> (\<forall>x. m = Some x \<longrightarrow> length x = 6))"
      using arp_lookup_length [OF post_ok [OF w]] by (simp add: Let_def)
  qed
  then show ?thesis
    using post_refl [OF s] arp_lookup_length [OF s] unfolding ip_dst_mac_def Let_def by (simp split: option.split)
qed

lemma ipv4_output_good:
  assumes s: "net_ok s" and b: "buf_ok buf" "blen buf + 34 \<le> NET_MAX_PACKET_SIZE" and l: "buf_pool s \<le> lim"
  shows "good (ipv4_output env input no d pr buf s) (\<lambda>(r, s'). post s (Suc (buf_pool s)) s')"
proof (cases "ip_route no d s")
  case None
  then show ?thesis
    using post_free [OF post_refl [OF s]] by (simp add: ipv4_output_def)
next
  case (Some n)
  let ?k = "\<lambda>(m, s1). case m of None \<Rightarrow> Ok (-1, net_buf_free s1) | Some dst_mac \<Rightarrow>
      (case net_buf_alloc s1 of (None, s2) \<Rightarrow> Ok (-1, net_buf_free s2)
       | (Some b, s2) \<Rightarrow> out_bind (fill_buf (ip_frame dst_mac (nif s2 n) (g_ip_id s2) d pr (content buf)) b) (\<lambda>tx_buf.
           netif_output env input n tx_buf (net_buf_free (s2\<lparr>g_ip_id := g_ip_id s2 + 1\<rparr>))))"
  have k: "good (?k (m, s1)) (\<lambda>(r, s'). post s (Suc (buf_pool s)) s')"
    if p: "post s (buf_pool s) s1" and m: "\<forall>x. m = Some x \<longrightarrow> length x = 6" for m s1
  proof (cases m)
    case None
    then show ?thesis
      using post_free [OF p] by simp
  next
    case (Some x)
    have o1: "net_ok s1" and q: "buf_pool s1 = buf_pool s"
      using post_ok [OF p] p by (simp_all add: post_def)
    show ?thesis
    proof (rule alloc_cases [OF o1])
      fix s2
      assume a: "net_buf_alloc s1 = (Some zero_buf, s2)" "post s1 (buf_pool s1 - 1) s2" "buf_pool s1 = buf_pool s2 + 1"
      let ?s2 = "s2\<lparr>g_ip_id := g_ip_id s2 + 1\<rparr>"
      have o2: "net_ok s2"
        by (rule post_ok [OF a(2)])
      have "advance s2 ?s2"
        using o2 by (intro advance_same) simp_all
      then have p2: "post s1 (buf_pool s1 - 1) ?s2"
        using a(2) advance_trans [of s1 s2] by (simp add: post_def)
      have p3: "post s (buf_pool s) (net_buf_free ?s2)"
        using post_trans [OF _ post_free [OF p2], of s] p a(3) q by (simp add: post_def)
      have len: "length (ip_frame x (nif s2 n) (g_ip_id s2) d pr (content buf)) \<le> NET_MAX_PACKET_SIZE"
        using ip_frame_length [OF o2, of x n] m Some b by (simp add: content_length)
      have "good (netif_output env input n tx (net_buf_free ?s2)) (\<lambda>(r, s'). post s (Suc (buf_pool s)) s')" if "buf_ok tx" for tx
        using output_good [OF post_ok [OF p3] that, of n] l p3
        by (auto elim!: good_mono simp: post_def intro: advance_trans)
      then show ?thesis
        unfolding Some a(1) prod.case option.case by (intro good_bind [OF fill_zero [OF len]]) simp
    qed (use Some post_free [OF p] in simp)
  qed
  have "good (out_bind (ip_dst_mac env input n d s) ?k) (\<lambda>(r, s'). post s (Suc (buf_pool s)) s')"
    by (rule good_bind [OF dst_mac_good [OF s]]) (use l k in auto)
  then show ?thesis
    unfolding ipv4_output_def Some option.case .
qed

text \<open>Sending a freshly allocated buffer: the pool is as before.\<close>

lemma send_good:
  assumes s: "net_ok s" and len: "length xs + 34 \<le> NET_MAX_PACKET_SIZE" and l: "buf_pool s \<le> lim + 1"
  shows "good (case net_buf_alloc s of (None, s1) \<Rightarrow> Ok (-1, s1) | (Some b, s1) \<Rightarrow>
      out_bind (fill_buf xs b) (\<lambda>buf. ipv4_output env input no d pr buf s1)) (\<lambda>(r, s'). post s (buf_pool s) s')"
proof (rule alloc_cases [OF s])
  fix s1
  assume a: "net_buf_alloc s = (Some zero_buf, s1)" "post s (buf_pool s - 1) s1" "buf_pool s = buf_pool s1 + 1"
  have fit: "length xs \<le> NET_MAX_PACKET_SIZE" and o1: "net_ok s1" and l1: "buf_pool s1 \<le> lim"
    using len post_ok [OF a(2)] a(3) l by simp_all
  have "good (ipv4_output env input no d pr buf s1) (\<lambda>(r, s'). post s (buf_pool s) s')" if "buf_ok buf \<and> content buf = xs \<and> blen buf = length xs \<and> boffset buf = 0" for buf
    using ipv4_output_good [OF o1 _ _ l1, of buf no d pr] that len a(2,3)
    by (auto elim!: good_mono simp: post_def intro: advance_trans)
  then show ?thesis
    unfolding a(1) prod.case option.case by (intro good_bind [OF fill_zero [OF fit]]) simp
qed (simp add: post_refl s)

lemma icmp_input_good:
  assumes s: "net_ok s" and b: "buf_ok buf" "34 \<le> boffset buf" and l: "buf_pool s \<le> lim"
  shows "good (icmp_input env input n buf s) (post s (Suc (buf_pool s)))"
proof (cases "blen buf < 8")
  case True
  then show ?thesis
    using post_free [OF post_refl [OF s]] by (simp add: icmp_input_def)
next
  case False
  have len: "length (icmp_reply (content buf)) + 34 \<le> NET_MAX_PACKET_SIZE"
    using b False by (simp add: icmp_reply_def content_length buf_ok_def)
  have l1: "buf_pool s \<le> lim + 1"
    using l by simp
  let ?send = "case net_buf_alloc s of (None, s1) \<Rightarrow> Ok s1 | (Some b, s1) \<Rightarrow>
      out_bind (fill_buf (icmp_reply (content buf)) b) (\<lambda>reply.
        out_bind (ipv4_output env input (Some n) (ip_src buf) IP_PROTO_ICMP reply s1) (\<lambda>(_, s2). Ok s2))"
  let ?raw = "case net_buf_alloc s of (None, s1) \<Rightarrow> Ok (-1, s1) | (Some b, s1) \<Rightarrow>
      out_bind (fill_buf (icmp_reply (content buf)) b) (\<lambda>buf'. ipv4_output env input (Some n) (ip_src buf) IP_PROTO_ICMP buf' s1)"
  have assoc: "out_bind (out_bind r f) g = out_bind r (\<lambda>x. out_bind (f x) g)" for r :: "net_buf out" and f :: "net_buf \<Rightarrow> (int \<times> net) out" and g :: "int \<times> net \<Rightarrow> net out"
    by (cases r) simp_all
  have eq: "?send = out_bind ?raw (\<lambda>(_, s2). Ok s2)"
    by (simp add: assoc split: prod.split option.split)
  have snd: "good ?send (post s (buf_pool s))"
    unfolding eq by (rule good_bind [OF send_good [OF s len l1]]) auto
  have "good (if get8 (bdata buf) (boffset buf) = ICMP_TYPE_ECHOREQ then ?send
      else if get8 (bdata buf) (boffset buf) = ICMP_TYPE_ECHOREPLY
      then (case socket_find_icmp s of None \<Rightarrow> Ok s | Some k \<Rightarrow> Ok (snd (socket_enqueue_data k (content buf) (ip_src buf) 0 s)))
      else Ok s) (post s (buf_pool s))"
    using snd post_refl [OF s] post_enqueue [OF post_refl [OF s]] by (simp split: option.split)
  then show ?thesis
    unfolding icmp_input_def Let_def if_not_P [OF False] by (rule good_bind) (use post_free in simp)
qed

lemma segment_good:
  assumes s: "net_ok s" and l: "buf_pool s \<le> lim + 1"
  shows "good (tcp_send_segment env input a p d q sq ack fl [] s) (\<lambda>(r, s'). post s (buf_pool s) s')"
  unfolding tcp_send_segment_def
  by (rule send_good [OF s _ l]) (simp add: tcp_segment_def Let_def NET_MAX_PACKET_SIZE_def)

lemma ack_good:
  assumes p: "post s (buf_pool s) s'" and l: "buf_pool s \<le> lim + 1"
  shows "good (tcp_ack env input k s') (post s (buf_pool s))"
  unfolding tcp_ack_def Let_def
proof (rule good_bind [OF segment_good])
  show "net_ok s'" "buf_pool s' \<le> lim + 1"
    using post_ok [OF p] p l by (simp_all add: post_def)
  show "good (case x of (_, s1) \<Rightarrow> Ok s1) (post s (buf_pool s))" if "case x of (r, s'') \<Rightarrow> post s' (buf_pool s') s''" for x
    using that p by (auto simp: post_def intro: advance_trans)
qed

lemma process_good:
  assumes s: "net_ok s" and l: "buf_pool s \<le> lim + 1"
  shows "good (tcp_process env input k fl sq ack xs a p s) (post s (buf_pool s))"
proof -
  note r = post_refl [OF s] and u = post_upd_skt [OF post_refl [OF s]]
  note ak = ack_good [OF _ l]
  show ?thesis
  proof (cases "tcp_state (skt s k)")
    case TCP_STATE_SYN_SENT
    then show ?thesis
      using r by (auto simp: tcp_process_def tcp_later_def closing_def intro!: ak u)
  next
    case TCP_STATE_SYN_RECEIVED
    then show ?thesis
      using r by (auto simp: tcp_process_def tcp_later_def closing_def intro!: u)
  next
    case TCP_STATE_ESTABLISHED
    have "good (if xs \<noteq> [] then tcp_ack env input k (upd_skt k (\<lambda>x. x\<lparr>rcv_nxt := rcv_nxt x + of_nat (length xs)\<rparr>)
          (snd (socket_enqueue_data k xs a p s))) else Ok s) (post s (buf_pool s))"
      using r by (auto intro!: ak post_upd_skt [OF post_enqueue [OF r]])
    then have "good (out_bind (if xs \<noteq> [] then tcp_ack env input k (upd_skt k (\<lambda>x. x\<lparr>rcv_nxt := rcv_nxt x + of_nat (length xs)\<rparr>)
          (snd (socket_enqueue_data k xs a p s))) else Ok s) (\<lambda>s1. if has_flag fl TCP_FLAG_FIN
          then tcp_ack env input k (upd_skt k (\<lambda>x. x\<lparr>rcv_nxt := rcv_nxt x + 1, tcp_state := TCP_STATE_CLOSE_WAIT, state := SS_CLOSED\<rparr>) s1)
          else Ok s1)) (post s (buf_pool s))"
      by (rule good_bind) (auto intro!: ak post_upd_skt)
    then show ?thesis
      using TCP_STATE_ESTABLISHED by (simp add: tcp_process_def)
  next
    case TCP_STATE_FIN_WAIT_1
    let ?s1 = "if has_flag fl TCP_FLAG_ACK then upd_skt k (\<lambda>x. x\<lparr>tcp_state := TCP_STATE_FIN_WAIT_2\<rparr>) s else s"
    have s1: "post s (buf_pool s) ?s1"
      using r TCP_STATE_FIN_WAIT_1 by (auto simp: tcp_later_def closing_def intro!: u)
    have "good (out_bind (tcp_ack env input k (upd_skt k (\<lambda>x. x\<lparr>rcv_nxt := rcv_nxt x + 1\<rparr>) ?s1)) (\<lambda>s2.
        Ok (upd_skt k (\<lambda>x. x\<lparr>tcp_state := TCP_STATE_TIME_WAIT\<rparr>) s2))) (post s (buf_pool s))"
      by (rule good_bind [OF ak [OF post_upd_skt [OF s1]]]) (auto intro!: post_upd_skt)
    then show ?thesis
      using TCP_STATE_FIN_WAIT_1 s1 by (simp add: tcp_process_def Let_def)
  next
    case TCP_STATE_FIN_WAIT_2
    have "good (out_bind (tcp_ack env input k (upd_skt k (\<lambda>x. x\<lparr>rcv_nxt := rcv_nxt x + 1\<rparr>) s)) (\<lambda>s2.
        Ok (upd_skt k (\<lambda>x. x\<lparr>tcp_state := TCP_STATE_CLOSED, state := SS_CLOSED\<rparr>) s2))) (post s (buf_pool s))"
      by (rule good_bind [OF ak [OF u]]) (auto intro!: post_upd_skt)
    then show ?thesis
      using TCP_STATE_FIN_WAIT_2 r by (simp add: tcp_process_def)
  next
    case TCP_STATE_LAST_ACK
    then show ?thesis
      using r by (auto simp: tcp_process_def intro!: u)
  qed (use r in \<open>simp_all add: tcp_process_def\<close>)
qed

text \<open>Changes to a socket that did not exist in \<open>s\<close> do not count.\<close>

lemma post_upd_fresh:
  assumes "post s p s'" and "sock_fresh s \<le> k"
  shows "post s p (upd_skt k f s')"
  using assms by (auto simp: post_def advance_def upd_skt_def net_ok_def)

lemma child_post:
  assumes s: "net_ok s" and c: "socket_create_child l a p s = (r, s1)"
  shows "post s (buf_pool s) s1 \<and> (\<forall>c. r = Some c \<longrightarrow> c = sock_fresh s)"
proof (cases "sock_pool s = 0")
  case True
  then show ?thesis
    using c post_refl [OF s] by (simp add: socket_create_child_def socket_create_def)
next
  case False
  let ?c = "sock_fresh s"
  define s0 where "s0 = s\<lparr>skt := (skt s)(?c := new_socket (domain (skt s l)) (sock_type (skt s l)) (protocol (skt s l))),
    g_socket_list := ?c # g_socket_list s, sock_fresh := ?c + 1, sock_pool := sock_pool s - 1\<rparr>"
  have cr: "socket_create (domain (skt s l)) (sock_type (skt s l)) (protocol (skt s l)) s = (Some ?c, s0)"
    using False by (simp add: socket_create_def s0_def Let_def)
  have "post s (buf_pool s) s0"
    using s by (auto simp: post_def advance_def net_ok_def s0_def)
  then have "post s (buf_pool s) (upd_skt l (\<lambda>x. if length (accept_queue x) < 16 then x\<lparr>accept_queue := accept_queue x @ [?c]\<rparr> else x)
      (upd_skt ?c h s0))" for h
    by (intro post_upd_skt post_upd_fresh) simp_all
  then show ?thesis
    using c unfolding socket_create_child_def cr by (auto simp: Let_def)
qed

lemma listen_good:
  assumes s: "net_ok s" and l: "buf_pool s \<le> lim"
  shows "good (case socket_create_child ls a p s of (None, s1) \<Rightarrow> Ok (net_buf_free s1)
    | (Some c, s1) \<Rightarrow>
        let s2 = upd_skt c (\<lambda>x. x\<lparr>rcv_nxt := sq + 1, snd_nxt := 1000, tcp_state := TCP_STATE_SYN_RECEIVED\<rparr>) s1
        in out_bind (tcp_send_segment env input (ip (nif s2 n)) dp a p (snd_nxt (skt s2 c)) (rcv_nxt (skt s2 c))
             (TCP_FLAG_SYN OR TCP_FLAG_ACK) [] s2) (\<lambda>(_, s3). Ok (net_buf_free (upd_skt c (\<lambda>x. x\<lparr>snd_nxt := snd_nxt x + 1\<rparr>) s3))))
    (post s (Suc (buf_pool s)))"
proof -
  obtain r s1 where c: "socket_create_child ls a p s = (r, s1)"
    by force
  note p1 = child_post [OF s c, THEN conjunct1]
  show ?thesis
  proof (cases r)
    case None
    then show ?thesis
      using post_free [OF p1] c by simp
  next
    case (Some k)
    have k: "k = sock_fresh s"
      using child_post [OF s c] Some by simp
    define s2 where "s2 = upd_skt k (\<lambda>x. x\<lparr>rcv_nxt := sq + 1, snd_nxt := 1000, tcp_state := TCP_STATE_SYN_RECEIVED\<rparr>) s1"
    have p2: "post s (buf_pool s) s2"
      unfolding s2_def using post_upd_fresh [OF p1] k by simp
    have q: "net_ok s2" "buf_pool s2 \<le> lim + 1" "buf_pool s2 = buf_pool s"
      using post_ok [OF p2] p2 l by (simp_all add: post_def)
    have "good (out_bind (tcp_send_segment env input (ip (nif s2 n)) dp a p (snd_nxt (skt s2 k)) (rcv_nxt (skt s2 k))
        (TCP_FLAG_SYN OR TCP_FLAG_ACK) [] s2) (\<lambda>(_, s3). Ok (net_buf_free (upd_skt k (\<lambda>x. x\<lparr>snd_nxt := snd_nxt x + 1\<rparr>) s3))))
        (post s (Suc (buf_pool s)))"
    proof (rule good_bind [OF segment_good [OF q(1,2)]])
      fix x :: "int \<times> net" assume "case x of (r, s') \<Rightarrow> post s2 (buf_pool s2) s'"
      then have "post s (buf_pool s) (snd x)"
        using p2 q(3) by (auto simp: post_def intro: advance_trans)
      then have "post s (Suc (buf_pool s)) (net_buf_free (upd_skt k (\<lambda>x. x\<lparr>snd_nxt := snd_nxt x + 1\<rparr>) (snd x)))"
        by (intro post_free post_upd_skt) simp_all
      then show "good (case x of (_, s3) \<Rightarrow> Ok (net_buf_free (upd_skt k (\<lambda>x. x\<lparr>snd_nxt := snd_nxt x + 1\<rparr>) s3))) (post s (Suc (buf_pool s)))"
        by (cases x) simp
    qed
    then show ?thesis
      using c Some by (simp add: Let_def s2_def)
  qed
qed

lemma tcp_input_good:
  assumes s: "net_ok s" and l: "buf_pool s \<le> lim"
  shows "good (tcp_input env input n buf s) (post s (Suc (buf_pool s)))"
proof -
  have l1: "buf_pool s \<le> lim + 1"
    using l by simp
  note drop = post_free [OF post_refl [OF s]]
  have rst: "good (out_bind (if c then out_bind (tcp_send_segment env input a p d q sq ack fl [] s) (\<lambda>(_, s1). Ok s1) else Ok s)
      (\<lambda>s1. Ok (net_buf_free s1))) (post s (Suc (buf_pool s)))" for c a p d q sq ack fl
    by (rule good_bind [where P = "post s (buf_pool s)"])
      (auto simp: post_refl [OF s] post_free intro!: good_bind [OF segment_good [OF s l1]])
  have proc: "good (out_bind (tcp_process env input k fl sq ack xs a p (if c then upd_skt k (\<lambda>x. x\<lparr>local_ip := v\<rparr>) s else s))
      (\<lambda>s2. Ok (net_buf_free s2))) (post s (Suc (buf_pool s)))" for k fl sq ack xs a p c v
  proof -
    let ?s = "if c then upd_skt k (\<lambda>x. x\<lparr>local_ip := v\<rparr>) s else s"
    have p: "post s (buf_pool s) ?s"
      using post_refl [OF s] by (auto intro!: post_upd_skt)
    then have q: "advance s ?s" "buf_pool ?s = buf_pool s"
      unfolding post_def by blast+
    have "good (tcp_process env input k fl sq ack xs a p ?s) (post s (buf_pool s))"
    proof (rule good_mono [OF process_good [OF post_ok [OF p]]])
      show "buf_pool ?s \<le> lim + 1"
        unfolding q(2) by (rule l1)
      show "post s (buf_pool s) x" if "post ?s (buf_pool ?s) x" for x
        using post_trans [OF q(1) that] unfolding q(2) .
    qed
    then show ?thesis
      by (rule good_bind) (simp add: post_free)
  qed
  have cl: "post s (Suc (buf_pool s)) (net_buf_free (upd_skt k (\<lambda>x. x\<lparr>tcp_state := TCP_STATE_CLOSED, state := SS_CLOSED\<rparr>) s))" for k
    by (intro post_free post_upd_skt post_refl s) simp
  note ls = listen_good [OF s l]
  show ?thesis
    unfolding tcp_input_def Let_def
    by (simp only: good_Ok drop cl rst proc ls [unfolded Let_def] if_cancel split: option.split if_split) (simp add: ls [unfolded Let_def] rst)
qed

lemma udp_input_post: "net_ok s \<Longrightarrow> post s (Suc (buf_pool s)) (udp_input buf s)"
  using post_free [OF post_refl] post_free [OF post_enqueue [OF post_refl]] by (simp add: udp_input_def Let_def split: option.split)

lemma ipv4_input_good:
  assumes s: "net_ok s" and b: "buf_ok buf" "14 \<le> boffset buf" and l: "buf_pool s \<le> lim"
  shows "good (ipv4_input env input n buf s) (post s (Suc (buf_pool s)))"
proof -
  note drop = post_free [OF post_refl [OF s]]
  have "buf_ok (buf\<lparr>boffset := boffset buf + h, blen := t - h\<rparr>) \<and> 34 \<le> boffset buf + h" if "\<not> h < 20" "\<not> t > blen buf" "\<not> t < h" for h t
    using b that by (simp add: buf_ok_def)
  then have "good (icmp_input env input n (buf\<lparr>boffset := boffset buf + h, blen := t - h\<rparr>) s) (post s (Suc (buf_pool s)))"
    if "\<not> h < 20" "\<not> t > blen buf" "\<not> t < h" for h t
    using icmp_input_good [OF s _ _ l, of "buf\<lparr>boffset := boffset buf + h, blen := t - h\<rparr>" n] that by simp
  then show ?thesis
    using tcp_input_good [OF s l, of n] udp_input_post [OF s] drop
    unfolding ipv4_input_def Let_def by simp
qed

theorem body_good:
  assumes s: "net_ok s" and b: "buf_ok buf" and l: "buf_pool s < Suc lim"
  shows "good (netif_input_body env input n buf s) (post s (buf_pool s + 1))"
proof -
  have "buf_ok (buf\<lparr>boffset := boffset buf + 14, blen := blen buf - 14\<rparr>)" if "\<not> blen buf < 14"
    using b that by (simp add: buf_ok_def)
  then show ?thesis
    using post_free [OF post_refl [OF s]] arp_input_good [OF s, of "buf\<lparr>boffset := boffset buf + 14, blen := blen buf - 14\<rparr>" n]
      ipv4_input_good [OF s, of "buf\<lparr>boffset := boffset buf + 14, blen := blen buf - 14\<rparr>" n] l
    unfolding netif_input_body_def Let_def by simp
qed

end

section \<open>Tying the knot\<close>

definition env_ok :: "env \<Rightarrow> bool" where
  "env_ok env \<longleftrightarrow> (\<forall>d s. net_ok s \<longrightarrow> post s (buf_pool s) (drv_poll env d s))"

lemma netif_stack: "env_ok env \<Longrightarrow> packet_stack env (netif_input env fuel) fuel"
proof (induction fuel)
  case 0
  then show ?case
    by unfold_locales (auto simp: env_ok_def)
next
  case (Suc fuel)
  from packet_stack.body_good [OF Suc.IH [OF Suc.prems]] show ?case
    using Suc.prems by unfold_locales (auto simp: env_ok_def)
qed

text \<open>A machine without network cards.\<close>

definition no_nic :: env where
  "no_nic = \<lparr>drv_send = (\<lambda>_ _. -1), drv_poll = (\<lambda>_ s. s)\<rparr>"

lemma no_nic_ok: "env_ok no_nic"
  by (simp add: env_ok_def no_nic_def post_refl)

interpretation lo: packet_stack no_nic "netif_input no_nic fuel" fuel for fuel
  by (rule netif_stack [OF no_nic_ok])

section \<open>Properties\<close>


definition lo_net :: net where
  "lo_net = loopback_init 0 (arp_init (ipv4_init \<lparr>g_socket_list = [0],
     skt = (\<lambda>_. (new_socket AF_INET SOCK_DGRAM 17)\<lparr>local_port := 53\<rparr>), sock_fresh = 1, sock_pool = 4,
     nif = (\<lambda>_. loopback_netif), g_netif_list = [], g_arp_cache = [], g_ip_id = 0, buf_pool = 4, wire = []\<rparr>))"

lemma lo_net_ok: "net_ok lo_net"
  by (simp add: net_ok_def lo_net_def loopback_init_def netif_register_def arp_init_def ipv4_init_def loopback_netif_def ARP_CACHE_SIZE_def)


lemma arp_slot_iff:
  "arp_slot a c = Some i \<longleftrightarrow> i < length c \<and> valid (c ! i) \<and> arp_ip (c ! i) = a \<and> (\<forall>j < i. \<not> (valid (c ! j) \<and> arp_ip (c ! j) = a))"
  by (auto simp: arp_slot_def find_Some_iff)

lemma arp_slot_cong:
  assumes "length c' = length c" and "\<And>j. j < length c \<Longrightarrow> valid (c' ! j) \<and> arp_ip (c' ! j) = a \<longleftrightarrow> valid (c ! j) \<and> arp_ip (c ! j) = a"
  shows "arp_slot a c' = arp_slot a c"
  unfolding arp_slot_def assms(1) by (rule find_cong) (use assms(2) in auto)

text \<open>
  C35: The ARP cache answers with the address learned last: after an insertion the look-up of that
  address gives the new hardware address, and the look-up of every other address is unchanged,
  except for the entry in slot 0 when the cache was full and the address was new.
\<close>

theorem arp_cache_roundtrip:
  assumes "g_arp_cache s \<noteq> []"
  shows "arp_lookup a (arp_cache_insert a m s) = Some m \<and>
    (\<forall>b. b \<noteq> a \<longrightarrow> arp_lookup b (arp_cache_insert a m s) = arp_lookup b s \<or>
       arp_slot a (g_arp_cache s) = None \<and> (\<forall>e \<in> set (g_arp_cache s). valid e) \<and> arp_ip (g_arp_cache s ! 0) = b)"
proof -
  let ?c = "g_arp_cache s" and ?e = "\<lparr>arp_ip = a, arp_mac = m, valid = True\<rparr>"
  have upd: "arp_lookup b (s\<lparr>g_arp_cache := ?c[i := x]\<rparr>) = arp_lookup b s"
    if "i < length ?c" "\<not> (valid (?c ! i) \<and> arp_ip (?c ! i) = b)" "\<not> (valid x \<and> arp_ip x = b)" for b i x
  proof -
    have sl: "arp_slot b (?c[i := x]) = arp_slot b ?c"
      using that by (intro arp_slot_cong) (auto simp: nth_list_update)
    show ?thesis
    proof (cases "arp_slot b ?c")
      case (Some j)
      then have "j \<noteq> i"
        using that(2) by (auto simp: arp_slot_iff)
      then show ?thesis
        by (simp add: arp_lookup_def sl Some)
    qed (simp add: arp_lookup_def sl)
  qed
  show ?thesis
  proof (cases "arp_slot a ?c")
    case (Some i)
    then have i: "i < length ?c" "valid (?c ! i)" "arp_ip (?c ! i) = a" "\<forall>j < i. \<not> (valid (?c ! j) \<and> arp_ip (?c ! j) = a)"
      by (auto simp: arp_slot_iff)
    have ins: "arp_cache_insert a m s = s\<lparr>g_arp_cache := ?c[i := (?c ! i)\<lparr>arp_mac := m\<rparr>]\<rparr>"
      by (simp add: arp_cache_insert_def Some Let_def)
    have "arp_slot a (?c[i := (?c ! i)\<lparr>arp_mac := m\<rparr>]) = Some i"
      using i by (simp add: arp_slot_iff nth_list_update)
    then show ?thesis
      using upd [of i _ "(?c ! i)\<lparr>arp_mac := m\<rparr>"] i(1-3) unfolding ins by (simp add: arp_lookup_def [of a])
  next
    case None
    have no: "\<not> (valid (?c ! j) \<and> arp_ip (?c ! j) = a)" if "j < length ?c" for j
      using None that by (auto simp: arp_slot_def find_None_iff)
    show ?thesis
    proof (cases "find (\<lambda>i. \<not> valid (?c ! i)) [0..<length ?c]")
      case (Some i)
      then have i: "i < length ?c" "\<not> valid (?c ! i)"
        by (auto simp: find_Some_iff)
      have ins: "arp_cache_insert a m s = s\<lparr>g_arp_cache := ?c[i := ?e]\<rparr>"
        by (simp add: arp_cache_insert_def None Some Let_def)
      have "arp_slot a (?c[i := ?e]) = Some i"
        using i no by (auto simp: arp_slot_iff nth_list_update)
      then show ?thesis
        using upd [of i _ ?e] i unfolding ins by (simp add: arp_lookup_def [of a])
    next
      case full: None
      have v: "\<forall>e \<in> set ?c. valid e"
        using full by (auto simp: find_None_iff in_set_conv_nth)
      have z: "0 < length ?c"
        using assms by simp
      have ins: "arp_cache_insert a m s = s\<lparr>g_arp_cache := ?c[0 := ?e]\<rparr>"
        by (simp add: arp_cache_insert_def None full Let_def)
      have "arp_slot a (?c[0 := ?e]) = Some 0"
        using z by (simp add: arp_slot_iff)
      then show ?thesis
        using upd [of 0 _ ?e] z v None unfolding ins by (simp add: arp_lookup_def [of a]) blast
    qed
  qed
qed

theorem arp_cache_roundtrip_witness:
  "arp_lookup 7 (arp_cache_insert 7 [1, 2, 3, 4, 5, 6] lo_net) = Some [1, 2, 3, 4, 5, 6]"
proof -
  have "g_arp_cache lo_net \<noteq> []"
    using lo_net_ok by (auto simp: net_ok_def ARP_CACHE_SIZE_def)
  then show ?thesis
    using arp_cache_roundtrip [of lo_net 7 "[1, 2, 3, 4, 5, 6]"] by blast
qed

text \<open>
  C36: The checksums that the stack sends verify: the one's complement sum over an IPv4 header built
  by \<open>ipv4_output\<close>, and over an echo reply, is the one a receiver accepts.
\<close>

theorem sent_checksums_verify:
  "ipv4_checksum (ip_header x ident dest proto len) = 0 \<and> (length c \<le> NET_MAX_PACKET_SIZE \<longrightarrow> ipv4_checksum (icmp_reply c) = 0)"
proof -
  let ?h1 = "[0x45, 0] @ bytes16 (htons (of_nat (20 + len))) @ bytes16 (htons ident) @ bytes16 (htons 0x4000) @ [64, proto]"
  let ?h2 = "bytes32 (ip x) @ bytes32 dest"
  have "even (length ?h1)" "length ?h1 + length ?h2 < 65000"
    by simp_all
  from checksum_verifies [OF this] have "ipv4_checksum (ip_header x ident dest proto len) = 0"
    unfolding ip_header_def Let_def .
  moreover have "ipv4_checksum (icmp_reply c) = 0" if "length c \<le> NET_MAX_PACKET_SIZE"
    using checksum_verifies [of "[ICMP_TYPE_ECHOREPLY, 0]" "drop 4 c"] that by (simp add: icmp_reply_def NET_MAX_PACKET_SIZE_def)
  ultimately show ?thesis
    by blast
qed

theorem sent_checksums_verify_witness:
  "ipv4_checksum (icmp_reply [8, 0, 1, 2, 3, 4, 5, 6]) = 0"
  using sent_checksums_verify [of loopback_netif 1 127 1 8 "[8, 0, 1, 2, 3, 4, 5, 6]"] by (simp add: NET_MAX_PACKET_SIZE_def)

section \<open>A datagram through the loopback device\<close>

lemma unat_small16: "n < 65536 \<Longrightarrow> unat (of_nat n :: u16) = n"
  by (simp add: unat_of_nat)

lemma htons_involution: "ntohs (htons w) = w"
proof -
  let ?q = "unat w div 256" and ?r = "unat w mod 256"
  have b: "?q < 256" "?r < 256" "unat w = ?r + 256 * ?q"
    using unat_less(2) [of w] by auto
  have "unat (htons w) = ?q + 256 * ?r"
    unfolding htons_bytes using b(1,2) by (intro unat_small16) linarith
  then have "htons (htons w) = of_nat (?r + 256 * ?q)"
    using b(1) unfolding htons_bytes [of "htons w"] by (simp add: add.commute)
  also have "\<dots> = w"
    using b(3) word_of_unat [of w] by (simp only:)
  finally show ?thesis
    by (simp add: ntohs_def)
qed

lemma get8_at: "i = length a \<Longrightarrow> get8 (a @ x # b) i = x"
  by (simp add: get8_def)

lemma get16_at: "i = length a \<Longrightarrow> get16 (a @ bytes16 w @ b) i = w"
  using get16_bytes by blast

lemma get32_at:
  assumes "i = length a"
  shows "get32 (a @ bytes32 w @ b) i = w"
proof -
  let ?lo = "of_nat (unat w mod 65536) :: u16" and ?hi = "of_nat (unat w div 65536) :: u16"
  have "unat w < 2 ^ 32"
    using unsigned_less [of w] by simp
  then have n: "unat ?lo = unat w mod 65536" "unat ?hi = unat w div 65536"
    by (simp_all add: unat_of_nat)
  have "get16 (a @ bytes32 w @ b) i = ?lo" "get16 (a @ bytes32 w @ b) (i + 2) = ?hi"
    using get16_at [OF assms, of ?lo "bytes16 ?hi @ b"] get16_at [of "i + 2" "a @ bytes16 ?lo" ?hi b] assms
    by (simp_all add: bytes32_def)
  then have "get32 (a @ bytes32 w @ b) i = of_nat (unat w mod 65536 + 65536 * (unat w div 65536))"
    unfolding get32_def by (simp only: n)
  also have "unat w mod 65536 + 65536 * (unat w div 65536) = unat w"
    by (simp only: mod_mult_div_eq)
  finally show ?thesis
    by simp
qed

text \<open>The headers of a frame are read back as they were written.\<close>

lemma ip_frame_fields:
  assumes m: "length dm = 6" "length (mac x) = 6" and d: "d = ip_frame dm x ident dest proto xs @ zs"
  shows "get16 d 12 = htons ETH_P_IP" "get8 d 14 = 0x45" "get16 d 16 = htons (of_nat (20 + length xs))"
    "get8 d 23 = proto" "get32 d 26 = ip x" "get32 d 30 = dest" "drop 34 d = xs @ zs"
proof -
  let ?l = "bytes16 (htons (of_nat (20 + length xs)))" and ?i = "bytes16 (htons ident)" and ?f = "bytes16 (htons 0x4000)"
  obtain ck where h: "ip_header x ident dest proto (length xs) =
      [0x45, 0] @ ?l @ ?i @ ?f @ [64, proto] @ bytes16 ck @ bytes32 (ip x) @ bytes32 dest"
    unfolding ip_header_def Let_def by simp
  have f: "d = (dm @ mac x) @ bytes16 (htons ETH_P_IP) @ [0x45, 0] @ ?l @ ?i @ ?f @ [64, proto] @ bytes16 ck @ bytes32 (ip x) @ bytes32 dest @ xs @ zs"
    unfolding d ip_frame_def h by simp
  let ?e = "dm @ mac x @ bytes16 (htons ETH_P_IP)"
  show "get16 d 12 = htons ETH_P_IP"
    unfolding f by (rule get16_at) (simp add: m)
  show "get8 d 14 = 0x45"
    using get8_at [of 14 ?e "0x45" "0 # ?l @ ?i @ ?f @ [64, proto] @ bytes16 ck @ bytes32 (ip x) @ bytes32 dest @ xs @ zs"] m
    unfolding f by simp
  show "get16 d 16 = htons (of_nat (20 + length xs))"
    using get16_at [of 16 "?e @ [0x45, 0]" "htons (of_nat (20 + length xs))" "?i @ ?f @ [64, proto] @ bytes16 ck @ bytes32 (ip x) @ bytes32 dest @ xs @ zs"] m
    unfolding f by simp
  show "get8 d 23 = proto"
    using get8_at [of 23 "?e @ [0x45, 0] @ ?l @ ?i @ ?f @ [64]" proto "bytes16 ck @ bytes32 (ip x) @ bytes32 dest @ xs @ zs"] m
    unfolding f by simp
  show "get32 d 26 = ip x"
    using get32_at [of 26 "?e @ [0x45, 0] @ ?l @ ?i @ ?f @ [64, proto] @ bytes16 ck" "ip x" "bytes32 dest @ xs @ zs"] m
    unfolding f by simp
  show "get32 d 30 = dest"
    using get32_at [of 30 "?e @ [0x45, 0] @ ?l @ ?i @ ?f @ [64, proto] @ bytes16 ck @ bytes32 (ip x)" dest "xs @ zs"] m
    unfolding f by simp
  show "drop 34 d = xs @ zs"
    unfolding f using m by simp
qed

text \<open>A frame with a UDP datagram, seen by the receive path of a loopback interface.\<close>

lemma frame_to_udp:
  assumes m: "length dm = 6" "length (mac x) = 6" and len: "length xs + 34 \<le> NET_MAX_PACKET_SIZE"
    and lo: "on (flags (nif s n)) NETIF_FLAG_LOOPBACK"
    and b: "b = \<lparr>bdata = ip_frame dm x ident dest IP_PROTO_UDP xs @ zs, blen = 34 + length xs, boffset = 0\<rparr>"
  shows "netif_input_body env input n b s = Ok (udp_input (b\<lparr>boffset := 34, blen := length xs\<rparr>) s)"
proof -
  note f = ip_frame_fields [OF m refl, of ident dest IP_PROTO_UDP xs zs]
  have "20 + length xs < 65536"
    using len by (simp add: NET_MAX_PACKET_SIZE_def)
  then have t: "unat (of_nat (20 + length xs) :: u16) = 20 + length xs"
    by (rule unat_small16)
  have v: "drop_bit 4 (0x45 :: u8) = 4" "unat ((0x45 :: u8) AND 0x0F) = 5"
    by simp_all
  have p: "IP_PROTO_UDP \<noteq> IP_PROTO_ICMP" "ETH_P_IP \<noteq> ETH_P_ARP"
    by (simp_all add: IP_PROTO_UDP_def IP_PROTO_ICMP_def ETH_P_IP_def ETH_P_ARP_def)
  have "ipv4_input env input n (b\<lparr>boffset := 14, blen := 20 + length xs\<rparr>) s = Ok (udp_input (b\<lparr>boffset := 34, blen := length xs\<rparr>) s)"
    using lo p(1) by (simp add: ipv4_input_def Let_def b f htons_involution t v del: of_nat_add of_nat_numeral)
  then show ?thesis
    using p(2) by (simp add: netif_input_body_def Let_def b f htons_involution)
qed

text \<open>The buffer that the loopback device hands to the receive path.\<close>

lemma fill_zero_eq:
  "length xs \<le> NET_MAX_PACKET_SIZE \<Longrightarrow> fill_buf xs zero_buf =
     Ok \<lparr>bdata = xs @ replicate (NET_MAX_PACKET_SIZE - length xs) 0, blen = length xs, boffset = 0\<rparr>"
  by (simp add: fill_buf_def put_def zero_buf_def)

definition udp_bytes :: "u16 \<Rightarrow> u16 \<Rightarrow> u8 list \<Rightarrow> u8 list" where
  "udp_bytes sp dp xs = bytes16 (htons sp) @ bytes16 (htons dp) @ bytes16 (htons (of_nat (8 + length xs))) @ [0, 0] @ xs"

lemma udp_input_delivers:
  assumes len: "length xs + 42 \<le> NET_MAX_PACKET_SIZE" and d: "drop 34 (bdata b) = udp_bytes sp dp xs @ zs"
    and b: "boffset b = 34" "blen b = 8 + length xs" "length (bdata b) = NET_MAX_PACKET_SIZE"
    and k: "socket_find_udp (get32 (bdata b) 30) dp s = Some k"
  shows "udp_input b s = net_buf_free (snd (socket_enqueue_data k xs (get32 (bdata b) 26) sp s))"
proof -
  have e: "bdata b = take 34 (bdata b) @ udp_bytes sp dp xs @ zs"
    using append_take_drop_id [of 34 "bdata b"] d by simp
  have t: "length (take 34 (bdata b)) = 34"
    using b(3) by (simp add: NET_MAX_PACKET_SIZE_def)
  let ?t = "take 34 (bdata b)" and ?n = "of_nat (8 + length xs) :: u16"
  have "get16 (bdata b) 34 = htons sp"
    using get16_at [of 34 ?t "htons sp"] t by (subst e) (simp add: udp_bytes_def)
  moreover have "get16 (bdata b) 36 = htons dp"
    using get16_at [of 36 "?t @ bytes16 (htons sp)" "htons dp"] t by (subst e) (simp add: udp_bytes_def)
  moreover have "get16 (bdata b) 38 = htons ?n"
    using get16_at [of 38 "?t @ bytes16 (htons sp) @ bytes16 (htons dp)" "htons ?n"] t by (subst e) (simp add: udp_bytes_def)
  moreover have "unat ?n = 8 + length xs"
    by (rule unat_small16) (use len in \<open>simp add: NET_MAX_PACKET_SIZE_def\<close>)
  moreover have "take (length xs) (drop 42 (bdata b)) = xs"
    using t by (subst e) (simp add: udp_bytes_def)
  ultimately show ?thesis
    using k by (simp add: udp_input_def Let_def b htons_involution ip_dest_def ip_src_def del: of_nat_add of_nat_numeral)
qed

lemma loopback_udp:
  assumes n: "net_ok s" "on (flags (nif s n)) NETIF_FLAG_LOOPBACK" "send (nif s n) = Some Loopback_Send"
    and xs: "length xs + 42 \<le> NET_MAX_PACKET_SIZE" and p: "0 < buf_pool s"
    and k: "socket_find_udp dest dp s = Some k"
    and tx: "content tx = ip_frame (replicate 6 0) x ident dest IP_PROTO_UDP (udp_bytes sp dp xs)" "length (mac x) = 6"
  shows "\<exists>s'. netif_output env (netif_input env (Suc fuel)) n tx s = Ok (0, s') \<and> buf_pool s' = buf_pool s + 1 \<and>
    skt s' = (skt s)(k := snd (enqueue xs (ip x) sp (skt s k)))"
proof -
  let ?f = "content tx" and ?s1 = "s\<lparr>buf_pool := buf_pool s - 1\<rparr>"
  let ?rx = "\<lparr>bdata = ?f @ replicate (NET_MAX_PACKET_SIZE - length ?f) 0, blen = length ?f, boffset = 0\<rparr>"
  have u: "length (udp_bytes sp dp xs) = 8 + length xs"
    by (simp add: udp_bytes_def)
  have f: "length ?f = 42 + length xs"
    using tx(2) by (simp add: tx(1) ip_frame_def ip_header_def Let_def u)
  define s2 where "s2 = ?s1\<lparr>nif := (nif ?s1)(n := (nif ?s1 n)\<lparr>tx_packets := tx_packets (nif ?s1 n) + 1,
    tx_bytes_count := tx_bytes_count (nif ?s1 n) + blen tx, rx_packets := rx_packets (nif ?s1 n) + 1,
    rx_bytes_count := rx_bytes_count (nif ?s1 n) + blen tx\<rparr>)\<rparr>"
  have s2: "flags (nif s2 n) = flags (nif s n)" "skt s2 = skt s" "g_socket_list s2 = g_socket_list s" "buf_pool s2 = buf_pool s - 1"
    by (simp_all add: s2_def)
  let ?rx34 = "?rx\<lparr>boffset := 34, blen := 8 + length xs\<rparr>"
  have "netif_input_body env (netif_input env fuel) n ?rx s2 = Ok (udp_input ?rx34 s2)"
    using frame_to_udp [OF _ tx(2) _ n(2) [folded s2(1)], of "replicate 6 0" "udp_bytes sp dp xs" ?rx ident dest
        "replicate (NET_MAX_PACKET_SIZE - length ?f) 0"] xs f u by (simp add: tx(1))
  moreover have fl: "get32 (bdata ?rx) 26 = ip x" "get32 (bdata ?rx) 30 = dest"
      "drop 34 (bdata ?rx) = udp_bytes sp dp xs @ replicate (NET_MAX_PACKET_SIZE - length ?f) 0"
    using ip_frame_fields [OF _ tx(2), of "replicate 6 0" "bdata ?rx" ident dest IP_PROTO_UDP "udp_bytes sp dp xs"
        "replicate (NET_MAX_PACKET_SIZE - length ?f) 0"] by (simp_all add: tx(1))
  have "socket_find_udp dest dp s2 = Some k"
    using k by (simp add: socket_find_udp_def s2)
  then have "udp_input ?rx34 s2 = net_buf_free (snd (socket_enqueue_data k xs (ip x) sp s2))"
    using udp_input_delivers [OF xs, of ?rx34 sp dp "replicate (NET_MAX_PACKET_SIZE - length ?f) 0" s2 k] fl xs f by simp
  ultimately have "loopback_send (netif_input env (Suc fuel)) n tx s = Ok (0, net_buf_free (snd (socket_enqueue_data k xs (ip x) sp s2)))"
    using p xs f fill_zero_eq [of ?f] by (simp add: loopback_send_def net_buf_alloc_def Let_def s2_def)
  then have "netif_output env (netif_input env (Suc fuel)) n tx s =
      Ok (0, net_buf_free (net_buf_free (snd (socket_enqueue_data k xs (ip x) sp s2))))"
    using n(3) by (simp add: netif_output_def)
  then show ?thesis
    using p s2 by (simp add: socket_enqueue_upd net_buf_free_def upd_skt_def)
qed





end
