(* ===== verification/Threads.thy ===== *)
theory Threads
  imports Prelude
begin

text \<open>
  What the models of the thread library share: runs of a system whose threads take turns in any
  order, the rule for invariants of such a run, and counting threads by their place in the program.

  A thread waiting in the kernel's futex queue is asleep until another thread's wake-up takes it
  off the queue. The queue of a futex word is a list of threads; \<open>futex_wait\<close> compares and enqueues
  in one step, and \<open>futex_wake\<close> takes threads off the front, as the theory \<open>Futex\<close> proves of
  \<^verbatim>\<open>kernel/src/sched/futex.c\<close>. Every access of the C code to shared memory is a step of its own.
\<close>

section \<open>Runs and invariants\<close>

inductive reach :: "('s \<Rightarrow> bool) \<Rightarrow> ('s \<Rightarrow> 's \<Rightarrow> bool) \<Rightarrow> 's \<Rightarrow> bool" for start trans where
  start: "start s \<Longrightarrow> reach start trans s"
| step: "reach start trans s \<Longrightarrow> trans s s' \<Longrightarrow> reach start trans s'"

locale kept =
  fixes start :: "'s \<Rightarrow> bool" and trans :: "'s \<Rightarrow> 's \<Rightarrow> bool" and inv :: "'s \<Rightarrow> bool"
  assumes start: "start s \<Longrightarrow> inv s"
    and step: "inv s \<Longrightarrow> trans s s' \<Longrightarrow> inv s'"
begin

lemma always: "reach start trans s \<Longrightarrow> inv s"
  by (induction rule: reach.induct) (auto intro: start step)

end

section \<open>Counting threads\<close>

definition threads_at :: "('t \<Rightarrow> 'p) \<Rightarrow> ('p \<Rightarrow> bool) \<Rightarrow> nat" where
  "threads_at pc Q = card {t. Q (pc t)}"

definition few :: "('t \<Rightarrow> 'p) \<Rightarrow> ('p \<Rightarrow> bool) \<Rightarrow> bool" where
  "few pc Q \<longleftrightarrow> finite {t. Q (pc t)}"

lemma few_upd [simp]: "few (pc(t := p)) Q \<longleftrightarrow> few pc Q"
proof -
  have "{u. Q ((pc(t := p)) u)} \<subseteq> insert t {u. Q (pc u)}" "{u. Q (pc u)} \<subseteq> insert t {u. Q ((pc(t := p)) u)}"
    by auto
  then show ?thesis
    unfolding few_def by (meson finite.insertI finite_subset)
qed

lemma threads_at_upd:
  assumes "few pc Q"
  shows "threads_at (pc(t := p)) Q + (if Q (pc t) then 1 else 0) = threads_at pc Q + (if Q p then 1 else 0)"
proof -
  define A where "A = {u. Q (pc u)}"
  have f: "finite A"
    using assms by (simp add: few_def A_def)
  have e: "{u. Q ((pc(t := p)) u)} = (if Q p then insert t (A - {t}) else A - {t})"
    by (auto simp: A_def)
  have "card A = card (A - {t}) + (if t \<in> A then 1 else 0)"
    using card.remove [OF f, of t] by (cases "t \<in> A") simp_all
  moreover have "card (insert t (A - {t})) = Suc (card (A - {t}))"
    using f by (intro card_insert_disjoint) simp_all
  ultimately show ?thesis
    unfolding threads_at_def e by (simp add: A_def)
qed

lemma int_threads_at_upd:
  "few pc Q \<Longrightarrow>
   int (threads_at (pc(t := p)) Q) = int (threads_at pc Q) + (if Q p then 1 else 0) - (if Q (pc t) then 1 else 0)"
  using threads_at_upd [of pc Q t p] by (simp split: if_splits)

lemma threads_at_0: "few pc Q \<Longrightarrow> threads_at pc Q = 0 \<longleftrightarrow> (\<forall>t. \<not> Q (pc t))"
  by (auto simp: few_def threads_at_def)

lemma threads_at_pos: "few pc Q \<Longrightarrow> Q (pc t) \<Longrightarrow> 0 < threads_at pc Q"
  using threads_at_0 [of pc Q] by blast

end
