(* ===== verification/Mutex.thy ===== *)
theory Mutex
  imports Threads
begin

text \<open>
  The mutexes of the thread library, \<^verbatim>\<open>libc/src/pthread/mutex.c\<close>, on the futex calls of the kernel.
  A system has one mutex, the queue of threads that sleep on its word, and for every thread the
  place where it stands in the code. Threads are numbered by \<open>pthread_self\<close>, from 1 on. \<open>depth\<close>
  counts how many times a thread has the mutex locked; no step reads it.
\<close>

definition PTHREAD_MUTEX_NORMAL :: int where "PTHREAD_MUTEX_NORMAL = 0"
definition PTHREAD_MUTEX_RECURSIVE :: int where "PTHREAD_MUTEX_RECURSIVE = 1"
definition PTHREAD_MUTEX_ERRORCHECK :: int where "PTHREAD_MUTEX_ERRORCHECK = 2"
definition PTHREAD_PROCESS_PRIVATE :: int where "PTHREAD_PROCESS_PRIVATE = 0"
definition EPERM :: int where "EPERM = 1"
definition EAGAIN :: int where "EAGAIN = 11"
definition EBUSY :: int where "EBUSY = 16"
definition EINVAL :: int where "EINVAL = 22"
definition ETIMEDOUT :: int where "ETIMEDOUT = 110"

lemmas errno_defs = EPERM_def EAGAIN_def EBUSY_def EINVAL_def ETIMEDOUT_def

record pthread_mutexattr_t =
  attr_type :: int
  attr_pshared :: int

record pthread_mutex_t =
  lock :: int
  mtype :: int
  owner :: int
  mcount :: int

section \<open>Attributes, initialisation and destruction\<close>

text \<open>A null pointer is \<open>None\<close>.\<close>

definition pthread_mutexattr_init :: "pthread_mutexattr_t option \<Rightarrow> int \<times> pthread_mutexattr_t option" where
  "pthread_mutexattr_init attr = (case attr of None \<Rightarrow> (EINVAL, None)
     | Some a \<Rightarrow> (0, Some (a\<lparr>attr_type := PTHREAD_MUTEX_NORMAL, attr_pshared := PTHREAD_PROCESS_PRIVATE\<rparr>)))"

definition pthread_mutexattr_settype :: "pthread_mutexattr_t option \<Rightarrow> int \<Rightarrow> int \<times> pthread_mutexattr_t option" where
  "pthread_mutexattr_settype attr ty = (case attr of None \<Rightarrow> (EINVAL, None)
     | Some a \<Rightarrow>
         if ty \<noteq> PTHREAD_MUTEX_NORMAL \<and> ty \<noteq> PTHREAD_MUTEX_RECURSIVE \<and> ty \<noteq> PTHREAD_MUTEX_ERRORCHECK then (EINVAL, attr)
         else (0, Some (a\<lparr>attr_type := ty\<rparr>)))"

definition pthread_mutexattr_gettype :: "pthread_mutexattr_t option \<Rightarrow> int option \<Rightarrow> int \<times> int option" where
  "pthread_mutexattr_gettype attr ty = (case (attr, ty) of (Some a, Some _) \<Rightarrow> (0, Some (attr_type a)) | _ \<Rightarrow> (EINVAL, ty))"

definition pthread_mutex_init :: "pthread_mutex_t option \<Rightarrow> pthread_mutexattr_t option \<Rightarrow> int \<times> pthread_mutex_t option" where
  "pthread_mutex_init mutex attr = (case mutex of None \<Rightarrow> (EINVAL, None)
     | Some m \<Rightarrow> (0, Some (m\<lparr>lock := 0, mtype := (case attr of None \<Rightarrow> PTHREAD_MUTEX_NORMAL | Some a \<Rightarrow> attr_type a),
                            owner := 0, mcount := 0\<rparr>)))"

definition pthread_mutex_destroy :: "pthread_mutex_t option \<Rightarrow> int" where
  "pthread_mutex_destroy mutex = (case mutex of None \<Rightarrow> EINVAL | Some m \<Rightarrow> if lock m \<noteq> 0 then EBUSY else 0)"

section \<open>Locking and unlocking\<close>

datatype lock_call = Lock | Trylock | Timedlock

text \<open>
  The places of a thread. \<open>Out\<close> and \<open>In\<close> are in the caller, without and with the mutex. The others
  stand before the access to shared memory that they are named after; \<open>Asleep\<close> is inside the kernel.
\<close>

datatype mutex_pc =
    Out | In
  | Enter lock_call | Bump | Cas lock_call | Xchg lock_call | Fwait lock_call | Asleep lock_call | Set_Owner | Set_Count
  | U_Enter | U_Count | U_Owner | U_Zero_Count | U_Sub | U_Store | U_Wake

record mutex_sys =
  mtx :: pthread_mutex_t
  mq :: "nat list"
  mpc :: "nat \<Rightarrow> mutex_pc"
  depth :: "nat \<Rightarrow> nat"
  mres :: "nat \<Rightarrow> int"

definition upd_mtx :: "(pthread_mutex_t \<Rightarrow> pthread_mutex_t) \<Rightarrow> mutex_sys \<Rightarrow> mutex_sys" where
  "upd_mtx f s = s\<lparr>mtx := f (mtx s)\<rparr>"

definition goto :: "nat \<Rightarrow> mutex_pc \<Rightarrow> mutex_sys \<Rightarrow> mutex_sys" where
  "goto t p s = s\<lparr>mpc := (mpc s)(t := p)\<rparr>"

text \<open>Returning to the caller with a result, and with the mutex locked \<open>d\<close> times.\<close>

definition mret :: "nat \<Rightarrow> int \<Rightarrow> nat \<Rightarrow> mutex_sys \<Rightarrow> mutex_sys" where
  "mret t r d s = s\<lparr>mpc := (mpc s)(t := (if d = 0 then Out else In)), mres := (mres s)(t := r), depth := (depth s)(t := d)\<rparr>"

text \<open>\<open>pthread_mutex_lock\<close>, \<open>pthread_mutex_trylock\<close> and \<open>pthread_mutex_timedlock\<close>.\<close>

fun mutex_lock_step :: "nat \<Rightarrow> mutex_pc \<Rightarrow> mutex_sys \<Rightarrow> mutex_sys option" where
  "mutex_lock_step t (Enter c) s =
     Some (goto t (if mtype (mtx s) = PTHREAD_MUTEX_RECURSIVE \<and> owner (mtx s) = int t then Bump else Cas c) s)"
| "mutex_lock_step t Bump s = Some (mret t 0 (depth s t + 1) (upd_mtx (\<lambda>m. m\<lparr>mcount := mcount m + 1\<rparr>) s))"
| "mutex_lock_step t (Cas c) s =
     Some (if lock (mtx s) = 0 then goto t Set_Owner (upd_mtx (\<lambda>m. m\<lparr>lock := 1\<rparr>) s)
           else if c = Trylock then mret t EBUSY (depth s t) s
           else if lock (mtx s) \<noteq> 2 then goto t (Xchg c) s else goto t (Fwait c) s)"
| "mutex_lock_step t (Xchg c) s =
     Some (goto t (if lock (mtx s) = 0 then Set_Owner else Fwait c) (upd_mtx (\<lambda>m. m\<lparr>lock := 2\<rparr>) s))"
| "mutex_lock_step t (Fwait c) s =
     Some (if lock (mtx s) = 2 then goto t (Asleep c) (s\<lparr>mq := mq s @ [t]\<rparr>) else goto t (Xchg c) s)"
| "mutex_lock_step t Set_Owner s = Some (goto t Set_Count (upd_mtx (\<lambda>m. m\<lparr>owner := int t\<rparr>) s))"
| "mutex_lock_step t Set_Count s = Some (mret t 0 1 (upd_mtx (\<lambda>m. m\<lparr>mcount := 1\<rparr>) s))"
| "mutex_lock_step t _ s = None"

text \<open>\<open>pthread_mutex_unlock\<close>. The woken thread goes on after its \<open>futex_wait\<close>.\<close>

fun after_sleep :: "mutex_pc \<Rightarrow> mutex_pc" where
  "after_sleep (Asleep c) = Xchg c"
| "after_sleep p = p"

definition mutex_wake :: "mutex_sys \<Rightarrow> mutex_sys" where
  "mutex_wake s = (case mq s of [] \<Rightarrow> s | u # us \<Rightarrow> goto u (after_sleep (mpc s u)) (s\<lparr>mq := us\<rparr>))"

fun mutex_unlock_step :: "nat \<Rightarrow> mutex_pc \<Rightarrow> mutex_sys \<Rightarrow> mutex_sys option" where
  "mutex_unlock_step t U_Enter s =
     Some (if mtype (mtx s) = PTHREAD_MUTEX_RECURSIVE
           then if owner (mtx s) \<noteq> int t then mret t EPERM (depth s t) s else goto t U_Count s
           else goto t U_Owner s)"
| "mutex_unlock_step t U_Count s =
     (let s1 = upd_mtx (\<lambda>m. m\<lparr>mcount := mcount m - 1\<rparr>) s
      in Some (if mcount (mtx s1) > 0 then mret t 0 (depth s t - 1) s1 else goto t U_Owner s1))"
| "mutex_unlock_step t U_Owner s = Some (goto t U_Zero_Count (upd_mtx (\<lambda>m. m\<lparr>owner := 0\<rparr>) s))"
| "mutex_unlock_step t U_Zero_Count s = Some (goto t U_Sub (upd_mtx (\<lambda>m. m\<lparr>mcount := 0\<rparr>) s))"
| "mutex_unlock_step t U_Sub s =
     (let old = lock (mtx s); s1 = upd_mtx (\<lambda>m. m\<lparr>lock := old - 1\<rparr>) s
      in Some (if old \<noteq> 1 then goto t U_Store s1 else mret t 0 0 s1))"
| "mutex_unlock_step t U_Store s = Some ((goto t U_Wake (upd_mtx (\<lambda>m. m\<lparr>lock := 0\<rparr>) s))\<lparr>depth := (depth s)(t := 0)\<rparr>)"
| "mutex_unlock_step t U_Wake s = Some (mret t 0 0 (mutex_wake s))"
| "mutex_unlock_step t _ s = None"

definition mutex_run :: "nat \<Rightarrow> mutex_sys \<Rightarrow> mutex_sys option" where
  "mutex_run t s = (case mutex_lock_step t (mpc s t) s of None \<Rightarrow> mutex_unlock_step t (mpc s t) s | r \<Rightarrow> r)"

text \<open>
  The threads in any order: a step of the library, a call, or the end of a timed wait. As POSIX
  asks, a caller that does not have the mutex calls \<open>pthread_mutex_unlock\<close> only if it is recursive.
\<close>

inductive mutex_trans :: "mutex_sys \<Rightarrow> mutex_sys \<Rightarrow> bool" where
  run: "0 < t \<Longrightarrow> mutex_run t s = Some s' \<Longrightarrow> mutex_trans s s'"
| call_lock: "0 < t \<Longrightarrow> mpc s t = Out \<or> mpc s t = In \<Longrightarrow> mutex_trans s (goto t (Enter c) s)"
| call_unlock: "0 < t \<Longrightarrow> mpc s t = In \<or> mpc s t = Out \<and> mtype (mtx s) = PTHREAD_MUTEX_RECURSIVE \<Longrightarrow>
    mutex_trans s (goto t U_Enter s)"
| timeout: "0 < t \<Longrightarrow> mpc s t = Asleep Timedlock \<Longrightarrow>
    mutex_trans s (mret t ETIMEDOUT (depth s t) (s\<lparr>mq := remove1 t (mq s)\<rparr>))"

definition mutex_start :: "mutex_sys \<Rightarrow> bool" where
  "mutex_start s \<longleftrightarrow> lock (mtx s) = 0 \<and> owner (mtx s) = 0 \<and> mcount (mtx s) = 0 \<and> mq s = [] \<and>
     mpc s = (\<lambda>_. Out) \<and> depth s = (\<lambda>_. 0)"

section \<open>The invariant\<close>

definition mutex_held :: "mutex_sys \<Rightarrow> nat \<Rightarrow> bool" where
  "mutex_held s t \<longleftrightarrow> 0 < depth s t \<or> mpc s t = Set_Owner \<or> mpc s t = Set_Count"

abbreviation recursive :: "mutex_sys \<Rightarrow> bool" where
  "recursive s \<equiv> mtype (mtx s) = PTHREAD_MUTEX_RECURSIVE"

text \<open>How often a thread may have the mutex locked at each place.\<close>

fun place_ok :: "bool \<Rightarrow> nat \<Rightarrow> mutex_pc \<Rightarrow> bool" where
  "place_ok r d Out \<longleftrightarrow> d = 0"
| "place_ok r d In \<longleftrightarrow> 0 < d \<and> (r \<or> d = 1)"
| "place_ok r d (Enter c) \<longleftrightarrow> r \<or> d \<le> 1"
| "place_ok r d Bump \<longleftrightarrow> r \<and> 0 < d"
| "place_ok r d (Cas c) \<longleftrightarrow> d = 0 \<or> \<not> r \<and> d = 1"
| "place_ok r d (Xchg c) \<longleftrightarrow> d = 0 \<or> \<not> r \<and> d = 1"
| "place_ok r d (Fwait c) \<longleftrightarrow> d = 0 \<or> \<not> r \<and> d = 1"
| "place_ok r d (Asleep c) \<longleftrightarrow> d = 0 \<or> \<not> r \<and> d = 1"
| "place_ok r d Set_Owner \<longleftrightarrow> d = 0"
| "place_ok r d Set_Count \<longleftrightarrow> d = 0"
| "place_ok r d U_Enter \<longleftrightarrow> r \<or> d = 1"
| "place_ok r d U_Count \<longleftrightarrow> r \<and> 0 < d"
| "place_ok r d U_Wake \<longleftrightarrow> d = 0"
| "place_ok r d _ \<longleftrightarrow> d = 1"

text \<open>Whether the owner field names the thread, and whether the count is its depth.\<close>

fun owns :: "nat \<Rightarrow> mutex_pc \<Rightarrow> bool" where
  "owns d Set_Count \<longleftrightarrow> True"
| "owns d U_Zero_Count \<longleftrightarrow> False"
| "owns d U_Sub \<longleftrightarrow> False"
| "owns d U_Store \<longleftrightarrow> False"
| "owns d _ \<longleftrightarrow> 0 < d"

fun counts :: "nat \<Rightarrow> mutex_pc \<Rightarrow> bool" where
  "counts d U_Owner \<longleftrightarrow> False"
| "counts d U_Zero_Count \<longleftrightarrow> False"
| "counts d U_Sub \<longleftrightarrow> False"
| "counts d U_Store \<longleftrightarrow> False"
| "counts d _ \<longleftrightarrow> 0 < d"

fun asleep :: "mutex_pc \<Rightarrow> bool" where
  "asleep (Asleep c) \<longleftrightarrow> True"
| "asleep _ \<longleftrightarrow> False"

text \<open>A thread that is bound to look at the word again or to wake a sleeper.\<close>

fun rescuer :: "mutex_pc \<Rightarrow> bool" where
  "rescuer (Xchg c) \<longleftrightarrow> True"
| "rescuer U_Store \<longleftrightarrow> True"
| "rescuer U_Wake \<longleftrightarrow> True"
| "rescuer _ \<longleftrightarrow> False"

definition holders :: "mutex_sys \<Rightarrow> nat set" where
  "holders s = {t. mutex_held s t}"

definition mutex_excl :: "mutex_sys \<Rightarrow> bool" where
  "mutex_excl s \<longleftrightarrow> lock (mtx s) \<in> {0, 1, 2} \<and>
     (if lock (mtx s) = 0 then holders s = {} else \<exists>h. holders s = {h})"

definition mutex_places :: "mutex_sys \<Rightarrow> bool" where
  "mutex_places s \<longleftrightarrow> (\<forall>t. place_ok (recursive s) (depth s t) (mpc s t)) \<and> mpc s 0 = Out"

definition mutex_owner :: "mutex_sys \<Rightarrow> bool" where
  "mutex_owner s \<longleftrightarrow> (\<forall>t. 0 < t \<longrightarrow> (owner (mtx s) = int t \<longleftrightarrow> owns (depth s t) (mpc s t))) \<and>
     (\<forall>t. counts (depth s t) (mpc s t) \<longrightarrow> mcount (mtx s) = int (depth s t))"

definition mutex_queue :: "mutex_sys \<Rightarrow> bool" where
  "mutex_queue s \<longleftrightarrow> distinct (mq s) \<and> (\<forall>t. t \<in> set (mq s) \<longleftrightarrow> asleep (mpc s t)) \<and>
     (mq s \<noteq> [] \<longrightarrow> lock (mtx s) = 2 \<or> (\<exists>t. rescuer (mpc s t)))"

definition mutex_inv :: "mutex_sys \<Rightarrow> bool" where
  "mutex_inv s \<longleftrightarrow> mutex_excl s \<and> mutex_places s \<and> mutex_owner s \<and> mutex_queue s"

lemmas mutex_step_defs = goto_def mret_def upd_mtx_def

text \<open>The steps of the library, one case for every way through a step.\<close>

lemma run_cases [consumes 1, case_names enter_again enter bump cas_free cas_try cas_one cas_two xchg_free xchg fwait fwait_again
    set_owner set_count u_perm u_rec u_norm u_more u_last u_owner u_zero u_sub_one u_sub u_store u_wake]:
  assumes "mutex_run t s = Some s'"
  obtains c where "mpc s t = Enter c" "recursive s" "owner (mtx s) = int t" "s' = goto t Bump s"
  | c where "mpc s t = Enter c" "\<not> (recursive s \<and> owner (mtx s) = int t)" "s' = goto t (Cas c) s"
  | "mpc s t = Bump" "s' = mret t 0 (depth s t + 1) (upd_mtx (\<lambda>m. m\<lparr>mcount := mcount m + 1\<rparr>) s)"
  | c where "mpc s t = Cas c" "lock (mtx s) = 0" "s' = goto t Set_Owner (upd_mtx (\<lambda>m. m\<lparr>lock := 1\<rparr>) s)"
  | "mpc s t = Cas Trylock" "lock (mtx s) \<noteq> 0" "s' = mret t EBUSY (depth s t) s"
  | c where "mpc s t = Cas c" "lock (mtx s) \<noteq> 0" "lock (mtx s) \<noteq> 2" "s' = goto t (Xchg c) s"
  | c where "mpc s t = Cas c" "lock (mtx s) = 2" "s' = goto t (Fwait c) s"
  | c where "mpc s t = Xchg c" "lock (mtx s) = 0" "s' = goto t Set_Owner (upd_mtx (\<lambda>m. m\<lparr>lock := 2\<rparr>) s)"
  | c where "mpc s t = Xchg c" "lock (mtx s) \<noteq> 0" "s' = goto t (Fwait c) (upd_mtx (\<lambda>m. m\<lparr>lock := 2\<rparr>) s)"
  | c where "mpc s t = Fwait c" "lock (mtx s) = 2" "s' = goto t (Asleep c) (s\<lparr>mq := mq s @ [t]\<rparr>)"
  | c where "mpc s t = Fwait c" "lock (mtx s) \<noteq> 2" "s' = goto t (Xchg c) s"
  | "mpc s t = Set_Owner" "s' = goto t Set_Count (upd_mtx (\<lambda>m. m\<lparr>owner := int t\<rparr>) s)"
  | "mpc s t = Set_Count" "s' = mret t 0 1 (upd_mtx (\<lambda>m. m\<lparr>mcount := 1\<rparr>) s)"
  | "mpc s t = U_Enter" "recursive s" "owner (mtx s) \<noteq> int t" "s' = mret t EPERM (depth s t) s"
  | "mpc s t = U_Enter" "recursive s" "owner (mtx s) = int t" "s' = goto t U_Count s"
  | "mpc s t = U_Enter" "\<not> recursive s" "s' = goto t U_Owner s"
  | "mpc s t = U_Count" "1 < mcount (mtx s)" "s' = mret t 0 (depth s t - 1) (upd_mtx (\<lambda>m. m\<lparr>mcount := mcount m - 1\<rparr>) s)"
  | "mpc s t = U_Count" "mcount (mtx s) \<le> 1" "s' = goto t U_Owner (upd_mtx (\<lambda>m. m\<lparr>mcount := mcount m - 1\<rparr>) s)"
  | "mpc s t = U_Owner" "s' = goto t U_Zero_Count (upd_mtx (\<lambda>m. m\<lparr>owner := 0\<rparr>) s)"
  | "mpc s t = U_Zero_Count" "s' = goto t U_Sub (upd_mtx (\<lambda>m. m\<lparr>mcount := 0\<rparr>) s)"
  | "mpc s t = U_Sub" "lock (mtx s) = 1" "s' = mret t 0 0 (upd_mtx (\<lambda>m. m\<lparr>lock := 0\<rparr>) s)"
  | "mpc s t = U_Sub" "lock (mtx s) \<noteq> 1" "s' = goto t U_Store (upd_mtx (\<lambda>m. m\<lparr>lock := lock (mtx s) - 1\<rparr>) s)"
  | "mpc s t = U_Store" "s' = (goto t U_Wake (upd_mtx (\<lambda>m. m\<lparr>lock := 0\<rparr>) s))\<lparr>depth := (depth s)(t := 0)\<rparr>"
  | "mpc s t = U_Wake" "s' = mret t 0 0 (mutex_wake s)"
proof (cases "mpc s t")
  case (Enter c)
  then show ?thesis
    using assms that(1,2) by (cases "recursive s \<and> owner (mtx s) = int t") (auto simp: mutex_run_def)
next
  case (Cas c)
  then show ?thesis
    using assms that(4-7) by (auto simp: mutex_run_def split: if_splits)
next
  case (Xchg c)
  then show ?thesis
    using assms that(8,9) by (auto simp: mutex_run_def split: if_splits)
next
  case (Fwait c)
  then show ?thesis
    using assms that(10,11) by (auto simp: mutex_run_def split: if_splits)
next
  case U_Enter
  then show ?thesis
    using assms that(14-16) by (auto simp: mutex_run_def split: if_splits)
next
  case U_Count
  then show ?thesis
    using assms that(17,18) by (auto simp: mutex_run_def Let_def upd_mtx_def split: if_splits)
next
  case U_Sub
  then show ?thesis
    using assms that(21,22) by (auto simp: mutex_run_def Let_def split: if_splits)
next
  case Bump
  then show ?thesis
    using assms that(3) by (simp add: mutex_run_def)
next
  case Set_Owner
  then show ?thesis
    using assms that(12) by (simp add: mutex_run_def)
next
  case Set_Count
  then show ?thesis
    using assms that(13) by (simp add: mutex_run_def)
next
  case U_Owner
  then show ?thesis
    using assms that(19) by (simp add: mutex_run_def)
next
  case U_Zero_Count
  then show ?thesis
    using assms that(20) by (simp add: mutex_run_def)
next
  case U_Store
  then show ?thesis
    using assms that(23) by (simp add: mutex_run_def)
next
  case U_Wake
  then show ?thesis
    using assms that(24) by (simp add: mutex_run_def)
qed (use assms in \<open>simp_all add: mutex_run_def\<close>)

lemma place_of: "mutex_inv s \<Longrightarrow> place_ok (recursive s) (depth s t) (mpc s t)"
  by (simp add: mutex_inv_def mutex_places_def)

lemma owner_of: "mutex_inv s \<Longrightarrow> 0 < t \<Longrightarrow> owner (mtx s) = int t \<longleftrightarrow> owns (depth s t) (mpc s t)"
  by (simp add: mutex_inv_def mutex_owner_def)

lemma count_of: "mutex_inv s \<Longrightarrow> counts (depth s t) (mpc s t) \<Longrightarrow> mcount (mtx s) = int (depth s t)"
  by (simp add: mutex_inv_def mutex_owner_def)

lemma sleeper_of: "mutex_inv s \<Longrightarrow> t \<in> set (mq s) \<longleftrightarrow> asleep (mpc s t)"
  by (simp add: mutex_inv_def mutex_queue_def)

lemma asleepE: "asleep p \<Longrightarrow> (\<And>c. p = Asleep c \<Longrightarrow> P) \<Longrightarrow> P"
  by (cases p) auto

text \<open>The wake-up only moves the first sleeper on.\<close>

lemma wake_simps [simp]:
  "mtx (mutex_wake s) = mtx s" "depth (mutex_wake s) = depth s" "mq (mutex_wake s) = tl (mq s)"
  "mres (mutex_wake s) = mres s"
  by (simp_all add: mutex_wake_def goto_def split: list.split)

lemma wake_pc:
  "mpc (mutex_wake s) u = (if mq s \<noteq> [] \<and> u = hd (mq s) then after_sleep (mpc s u) else mpc s u)"
  by (auto simp: mutex_wake_def goto_def split: list.split)

lemma after_sleep_simps [simp]:
  "place_ok r d (after_sleep p) = place_ok r d p" "owns d (after_sleep p) = owns d p"
  "counts d (after_sleep p) = counts d p" "after_sleep p = Set_Owner \<longleftrightarrow> p = Set_Owner"
  "after_sleep p = Set_Count \<longleftrightarrow> p = Set_Count" "\<not> asleep (after_sleep p)"
  by (cases p; simp)+

lemma free_depth: "mutex_inv s \<Longrightarrow> lock (mtx s) = 0 \<Longrightarrow> depth s t = 0"
  by (auto simp: mutex_inv_def mutex_excl_def holders_def mutex_held_def)

lemma held_lock: "mutex_inv s \<Longrightarrow> mutex_held s t \<Longrightarrow> lock (mtx s) \<noteq> 0 \<and> holders s = {t}"
proof -
  assume i: "mutex_inv s" and t: "mutex_held s t"
  have "t \<in> holders s"
    using t by (simp add: holders_def)
  then show "lock (mtx s) \<noteq> 0 \<and> holders s = {t}"
    using i by (auto simp: mutex_inv_def mutex_excl_def split: if_splits)
qed

lemma places_run:
  assumes "mutex_inv s" and "0 < t" and "mutex_run t s = Some s'"
  shows "mutex_places s'"
proof -
  have p: "place_ok (recursive s) (depth s u) (mpc s u)" if "u \<noteq> t" for u
    by (rule place_of [OF assms(1)])
  have pt: "place_ok (recursive s) (depth s t) (mpc s t)"
    by (rule place_of [OF assms(1)])
  have o: "owner (mtx s) = int t \<longleftrightarrow> owns (depth s t) (mpc s t)"
    by (rule owner_of [OF assms(1,2)])
  have c: "counts (depth s t) (mpc s t) \<longrightarrow> mcount (mtx s) = int (depth s t)"
    using count_of [OF assms(1)] by blast
  have z: "mpc s 0 = Out" "depth s 0 = 0"
    using assms(1) place_of [OF assms(1), of 0] by (simp_all add: mutex_inv_def mutex_places_def)
  have f: "lock (mtx s) = 0 \<longrightarrow> depth s t = 0"
    using free_depth [OF assms(1)] by blast
  from assms(3) show ?thesis
    by (cases rule: run_cases)
      (use assms(2) p pt o c z f in \<open>auto simp: mutex_places_def mutex_step_defs wake_pc\<close>)
qed

lemma held_run:
  assumes "mutex_run t s = Some s'" and "u \<noteq> t"
  shows "mutex_held s' u = mutex_held s u"
  using assms(1) by (cases rule: run_cases) (use assms(2) in \<open>simp_all add: mutex_held_def mutex_step_defs wake_pc\<close>)

lemma lock_run:
  assumes "mutex_inv s" and "0 < t" and "mutex_run t s = Some s'"
  shows "lock (mtx s') \<in> {0, 1, 2} \<and>
    (mutex_held s' t = mutex_held s t \<and> (lock (mtx s') = 0 \<longleftrightarrow> lock (mtx s) = 0) \<or>
     lock (mtx s) = 0 \<and> lock (mtx s') \<noteq> 0 \<and> mutex_held s' t \<or>
     mutex_held s t \<and> lock (mtx s') = 0 \<and> \<not> mutex_held s' t)"
proof -
  have p: "place_ok (recursive s) (depth s t) (mpc s t)"
    by (rule place_of [OF assms(1)])
  have l: "lock (mtx s) \<in> {0, 1, 2}"
    using assms(1) by (simp add: mutex_inv_def mutex_excl_def)
  have k: "mutex_held s t \<longrightarrow> lock (mtx s) \<noteq> 0"
    using held_lock [OF assms(1)] by blast
  have c: "counts (depth s t) (mpc s t) \<longrightarrow> mcount (mtx s) = int (depth s t)"
    using count_of [OF assms(1)] by blast
  show ?thesis
    using assms(3) by (cases rule: run_cases)
      (use p l k c in \<open>auto simp: mutex_held_def mutex_step_defs\<close>)
qed

lemma excl_run:
  assumes "mutex_inv s" and "0 < t" and "mutex_run t s = Some s'"
  shows "mutex_excl s'"
proof -
  have f: "lock (mtx s) = 0 \<longrightarrow> holders s = {}" and n: "lock (mtx s) \<noteq> 0 \<longrightarrow> (\<exists>h. holders s = {h})"
    using assms(1) by (simp_all add: mutex_inv_def mutex_excl_def split: if_splits)
  have h: "holders s' = (if mutex_held s' t then insert t (holders s) else holders s - {t})"
    using held_run [OF assms(3)] unfolding holders_def by (rule_tac set_eqI, rename_tac u, case_tac "u = t") simp_all
  have k: "mutex_held s t \<longrightarrow> lock (mtx s) \<noteq> 0 \<and> holders s = {t}" "\<not> mutex_held s t \<longrightarrow> t \<notin> holders s"
    using held_lock [OF assms(1)] by (blast, simp add: holders_def)
  show ?thesis
    unfolding mutex_excl_def h using lock_run [OF assms] f n k
    by (cases "mutex_held s t"; cases "mutex_held s' t"; cases "lock (mtx s) = 0") auto
qed

lemma only_holder:
  assumes "mutex_inv s" and "mutex_held s t" and "u \<noteq> t"
  shows "\<not> counts (depth s u) (mpc s u) \<and> \<not> owns (depth s u) (mpc s u)"
proof -
  have "\<not> mutex_held s u"
    using held_lock [OF assms(1,2)] assms(3) by (auto simp: holders_def)
  then show ?thesis
    by (cases "mpc s u") (auto simp: mutex_held_def)
qed

lemma owner_run:
  assumes "mutex_inv s" and "0 < t" and "mutex_run t s = Some s'"
  shows "mutex_owner s'"
proof -
  have p: "place_ok (recursive s) (depth s t) (mpc s t)"
    by (rule place_of [OF assms(1)])
  have ot: "owner (mtx s) = int t \<longleftrightarrow> owns (depth s t) (mpc s t)"
    by (rule owner_of [OF assms(1,2)])
  have ct: "counts (depth s t) (mpc s t) \<longrightarrow> mcount (mtx s) = int (depth s t)"
    using count_of [OF assms(1)] by blast
  have o: "owner (mtx s) = int u \<longleftrightarrow> owns (depth s u) (mpc s u)" if "u \<noteq> t" "0 < u" for u
    by (rule owner_of [OF assms(1) that(2)])
  have c: "counts (depth s u) (mpc s u) \<longrightarrow> mcount (mtx s) = int (depth s u)" if "u \<noteq> t" for u
    using count_of [OF assms(1)] by blast
  have e: "\<not> counts (depth s u) (mpc s u)" "\<not> owns (depth s u) (mpc s u)" if "u \<noteq> t" "mutex_held s t" for u
    using only_holder [OF assms(1) that(2,1)] by simp_all
  have z: "depth s t = 0 \<or> mutex_held s t" "mpc s t = Set_Owner \<or> mpc s t = Set_Count \<longrightarrow> mutex_held s t"
    by (auto simp: mutex_held_def)
  have f: "lock (mtx s) = 0 \<longrightarrow> depth s t = 0"
    using free_depth [OF assms(1)] by blast
  show ?thesis
    unfolding mutex_owner_def using assms(3)
    by (cases rule: run_cases)
      (use assms(2) p ot ct o c e z f in \<open>auto simp: mutex_step_defs wake_pc\<close>)
qed

lemma queue_run:
  assumes "mutex_inv s" and "0 < t" and "mutex_run t s = Some s'"
  shows "mutex_queue s'"
proof -
  have d: "distinct (mq s)"
    using assms(1) by (simp add: mutex_inv_def mutex_queue_def)
  have a: "u \<in> set (mq s) \<longleftrightarrow> asleep (mpc s u)" for u
    by (rule sleeper_of [OF assms(1)])
  have r: "mq s \<noteq> [] \<longrightarrow> lock (mtx s) = 2 \<or> rescuer (mpc s t) \<or> (\<exists>u. u \<noteq> t \<and> rescuer (mpc s u))"
    using assms(1) unfolding mutex_inv_def mutex_queue_def by metis
  show ?thesis
  proof (cases "mpc s t = U_Wake")
    case True
    then have s': "s' = mret t 0 0 (mutex_wake s)"
      using assms(3) by (simp add: mutex_run_def)
    show ?thesis
    proof (cases "mq s")
      case Nil
      then show ?thesis
        using a True by (auto simp: s' mutex_queue_def mret_def wake_pc)
    next
      case (Cons x xs)
      then have "mpc s x \<noteq> U_Wake" "\<exists>c. mpc s x = Asleep c" "x \<notin> set xs" "t \<notin> set xs"
        using a [of x] a [of t] d True by (auto elim: asleepE)
      then show ?thesis
        using a d Cons True by (auto simp: s' mutex_queue_def mret_def wake_pc)
    qed
  next
    case False
    from assms(3) show ?thesis
      unfolding mutex_queue_def
      by (cases rule: run_cases) (use d a a [of t] r False in \<open>auto simp: mutex_step_defs\<close>)
  qed
qed

lemma inv_call:
  assumes "mutex_inv s" and "0 < t" and "mpc s t = Out \<or> mpc s t = In"
    and "(\<exists>c. p = Enter c) \<or> p = U_Enter \<and> (mpc s t = Out \<longrightarrow> recursive s)"
  shows "mutex_inv (goto t p s)"
proof -
  have g: "mtx (goto t p s) = mtx s" "mq (goto t p s) = mq s" "depth (goto t p s) = depth s"
    and u: "mpc (goto t p s) u = (if u = t then p else mpc s u)" for u
    by (simp_all add: goto_def)
  have q: "owns d (mpc (goto t p s) u) = owns d (mpc s u)" "counts d (mpc (goto t p s) u) = counts d (mpc s u)"
    "asleep (mpc (goto t p s) u) = asleep (mpc s u)" "rescuer (mpc (goto t p s) u) = rescuer (mpc s u)" for d u
    unfolding u using assms(3,4) by (cases "u = t"; fastforce)+
  have "mutex_held (goto t p s) u = mutex_held s u" for u
    using assms(3,4) by (cases "u = t") (auto simp: mutex_held_def g u)
  then have "holders (goto t p s) = holders s"
    by (simp add: holders_def)
  then have "mutex_excl (goto t p s)"
    using assms(1) by (simp add: mutex_inv_def mutex_excl_def g)
  moreover have "place_ok (recursive s) (depth s t) p"
    using place_of [OF assms(1), of t] assms(3,4) by auto
  then have "mutex_places (goto t p s)"
    using assms(1,2) by (simp add: mutex_inv_def mutex_places_def g u)
  moreover have "mutex_owner (goto t p s) = mutex_owner s" "mutex_queue (goto t p s) = mutex_queue s"
    by (simp_all only: mutex_owner_def mutex_queue_def g q)
  ultimately show ?thesis
    using assms(1) by (simp add: mutex_inv_def)
qed

lemma inv_timeout:
  assumes "mutex_inv s" and "0 < t" and "mpc s t = Asleep Timedlock"
  shows "mutex_inv (mret t ETIMEDOUT (depth s t) (s\<lparr>mq := remove1 t (mq s)\<rparr>))" (is "mutex_inv ?s")
proof -
  have g: "mtx ?s = mtx s" "mq ?s = remove1 t (mq s)" "depth ?s = depth s"
    and u: "mpc ?s u = (if u = t then if depth s t = 0 then Out else In else mpc s u)" for u
    by (simp_all add: mret_def)
  have q: "owns (depth s u) (mpc ?s u) = owns (depth s u) (mpc s u)" "counts (depth s u) (mpc ?s u) = counts (depth s u) (mpc s u)"
    "asleep (mpc ?s u) \<longleftrightarrow> u \<noteq> t \<and> asleep (mpc s u)" "rescuer (mpc ?s u) = rescuer (mpc s u)" for u
    unfolding u using assms(3) by (cases "u = t"; simp)+
  have "mutex_held ?s u = mutex_held s u" for u
    using assms(3) by (simp add: mutex_held_def g u)
  then have "holders ?s = holders s"
    by (simp add: holders_def)
  then have "mutex_excl ?s"
    using assms(1) by (simp add: mutex_inv_def mutex_excl_def g)
  moreover have "place_ok (recursive s) (depth s t) (Asleep Timedlock)"
    using place_of [OF assms(1), of t] assms(3) by simp
  then have "mutex_places ?s"
    using assms(1,2) by (auto simp: mutex_inv_def mutex_places_def g u)
  moreover have "mutex_owner ?s = mutex_owner s"
    by (simp only: mutex_owner_def g q)
  moreover have "mutex_queue ?s"
    using assms(1) unfolding mutex_inv_def mutex_queue_def g q by auto
  ultimately show ?thesis
    using assms(1) by (simp add: mutex_inv_def)
qed

interpretation mutex: kept mutex_start mutex_trans mutex_inv
proof
  show "mutex_inv s" if "mutex_start s" for s
    using that by (simp add: mutex_start_def mutex_inv_def mutex_excl_def mutex_places_def mutex_owner_def mutex_queue_def
        holders_def mutex_held_def)
  show "mutex_inv s'" if "mutex_inv s" "mutex_trans s s'" for s s'
    using that(2)
  proof cases
    case (run t)
    then show ?thesis
      using excl_run [OF that(1)] places_run [OF that(1)] owner_run [OF that(1)] queue_run [OF that(1)]
      by (simp add: mutex_inv_def)
  next
    case (call_lock t c)
    then show ?thesis
      by (simp add: inv_call [OF that(1)])
  next
    case (call_unlock t)
    then show ?thesis
      using inv_call [OF that(1) call_unlock(2), of U_Enter] by fastforce
  next
    case (timeout t)
    then show ?thesis
      by (simp add: inv_timeout [OF that(1)])
  qed
qed

section \<open>Executions\<close>

fun mutex_exec :: "nat list \<Rightarrow> mutex_sys \<Rightarrow> mutex_sys option" where
  "mutex_exec [] s = Some s"
| "mutex_exec (t # ts) s = (case mutex_run t s of None \<Rightarrow> None | Some s1 \<Rightarrow> mutex_exec ts s1)"

lemma mutex_exec_append: "mutex_exec (xs @ ys) s = (case mutex_exec xs s of None \<Rightarrow> None | Some s1 \<Rightarrow> mutex_exec ys s1)"
  by (induction xs arbitrary: s) (auto split: option.splits)

lemma In_pos: "mutex_inv s \<Longrightarrow> mpc s t \<noteq> Out \<Longrightarrow> 0 < t"
  by (cases "t = 0") (auto simp: mutex_inv_def mutex_places_def)

text \<open>The holder releases, step by step.\<close>

lemma release_exec:
  assumes "mutex_inv s" and "mpc s h = In" and "depth s h = 1" and "mq s = w # ws" and "lock (mtx s) = 2"
  obtains n s1 where "mutex_exec (replicate n h) (goto h U_Enter s) = Some s1" "mpc s1 h = Out" "lock (mtx s1) = 0"
    "mq s1 = ws" "mpc s1 w = after_sleep (mpc s w)"
proof -
  have h: "0 < h" "w \<noteq> h"
    using In_pos [OF assms(1)] sleeper_of [OF assms(1), of w] assms(2,4) by auto
  have oc: "owner (mtx s) = int h" "mcount (mtx s) = 1"
    using owner_of [OF assms(1) h(1)] count_of [OF assms(1), of h] assms(2,3) by simp_all
  let ?s = "s\<lparr>mtx := mtx s\<lparr>owner := 0, mcount := 0, lock := 0\<rparr>, mq := ws,
    mpc := (mpc s)(w := after_sleep (mpc s w), h := Out), mres := (mres s)(h := 0), depth := (depth s)(h := 0)\<rparr>"
  have e: "mutex_exec (replicate (if recursive s then 7 else 6) h) (goto h U_Enter s) = Some ?s"
    using h oc assms(3-5) by (simp add: numeral_eq_Suc mutex_run_def mutex_step_defs mutex_wake_def)
  show ?thesis
    by (rule that [OF e]) (use h in simp_all)
qed

section \<open>A run\<close>

text \<open>Thread 1 locks a normal mutex, then thread 2 tries to and falls asleep.\<close>

definition mutex0 :: mutex_sys where
  "mutex0 = \<lparr>mtx = \<lparr>lock = 0, mtype = PTHREAD_MUTEX_NORMAL, owner = 0, mcount = 0\<rparr>, mq = [], mpc = (\<lambda>_. Out), depth = (\<lambda>_. 0),
     mres = (\<lambda>_. 0)\<rparr>"

definition locked1 :: mutex_sys where
  "locked1 = the (mutex_exec [1, 1, 1, 1] (goto 1 (Enter Lock) mutex0))"

definition waiting2 :: mutex_sys where
  "waiting2 = the (mutex_exec [2, 2, 2, 2] (goto 2 (Enter Lock) locked1))"

lemma reach_exec:
  "reach mutex_start mutex_trans s \<Longrightarrow> \<forall>t \<in> set ts. 0 < t \<Longrightarrow> mutex_exec ts s = Some s' \<Longrightarrow> reach mutex_start mutex_trans s'"
proof (induction ts arbitrary: s)
  case (Cons t ts)
  obtain s1 where r: "mutex_run t s = Some s1" "mutex_exec ts s1 = Some s'"
    using Cons.prems(3) by (auto split: option.splits)
  then have "reach mutex_start mutex_trans s1"
    using Cons.prems(2) by (intro reach.step [OF Cons.prems(1)] mutex_trans.run [of t]) simp_all
  then show ?case
    using Cons.IH Cons.prems(2) r(2) by simp
qed simp

lemmas mutex_eval = mutex_run_def mutex_step_defs PTHREAD_MUTEX_NORMAL_def PTHREAD_MUTEX_RECURSIVE_def

lemma locked1_state: "mutex_exec [1, 1, 1, 1] (goto 1 (Enter Lock) mutex0) = Some locked1"
    "mtx locked1 = \<lparr>lock = 1, mtype = 0, owner = 1, mcount = 1\<rparr>" "mq locked1 = []" "mpc locked1 = (\<lambda>_. Out)(1 := In)"
    "depth locked1 = (\<lambda>_. 0)(1 := 1)"
  by (simp_all add: locked1_def mutex0_def mutex_eval)

lemma waiting2_state: "mutex_exec [2, 2, 2, 2] (goto 2 (Enter Lock) locked1) = Some waiting2"
    "mtx waiting2 = \<lparr>lock = 2, mtype = 0, owner = 1, mcount = 1\<rparr>" "mq waiting2 = [2]"
    "mpc waiting2 = (\<lambda>_. Out)(1 := In, 2 := Asleep Lock)" "depth waiting2 = (\<lambda>_. 0)(1 := 1)"
  by (simp_all add: waiting2_def locked1_state(2-5) mutex_eval fun_upd_twist)

lemma reach_locked1: "reach mutex_start mutex_trans locked1"
proof -
  have "reach mutex_start mutex_trans mutex0"
    by (rule reach.start) (simp add: mutex_start_def mutex0_def)
  then have "reach mutex_start mutex_trans (goto 1 (Enter Lock) mutex0)"
    by (rule reach.step) (rule mutex_trans.call_lock, simp_all add: mutex0_def)
  then show ?thesis
    by (rule reach_exec [OF _ _ locked1_state(1)]) simp
qed

lemma reach_waiting2: "reach mutex_start mutex_trans waiting2"
proof -
  have "reach mutex_start mutex_trans (goto 2 (Enter Lock) locked1)"
    using reach_locked1 by (rule reach.step) (rule mutex_trans.call_lock, simp_all add: locked1_state)
  then show ?thesis
    by (rule reach_exec [OF _ _ waiting2_state(1)]) simp
qed

section \<open>Exclusion and progress\<close>

text \<open>
  C5: At most one thread is past a successful lock and before the release, in every interleaving of
  lock, trylock, timedlock and unlock calls of any number of threads on any kind of mutex. The owner
  field and the recursion count describe that thread.
\<close>

theorem mutex_exclusion:
  assumes "reach mutex_start mutex_trans s" and "mpc s t = In"
  shows "lock (mtx s) \<noteq> 0 \<and> owner (mtx s) = int t \<and> 0 < depth s t \<and> mcount (mtx s) = int (depth s t) \<and>
    (\<forall>u. mutex_held s u \<longrightarrow> u = t)"
proof -
  have i: "mutex_inv s"
    by (rule mutex.always [OF assms(1)])
  have d: "0 < depth s t"
    using place_of [OF i, of t] assms(2) by simp
  then have "mutex_held s t"
    by (simp add: mutex_held_def)
  then show ?thesis
    using held_lock [OF i] owner_of [OF i In_pos [OF i]] count_of [OF i, of t] assms(2) d by (auto simp: holders_def)
qed

theorem mutex_exclusion_witness: "owner (mtx waiting2) = 1 \<and> mcount (mtx waiting2) = 1 \<and> mutex_held waiting2 2 = False"
  using mutex_exclusion [OF reach_waiting2, of 1] by (auto simp: waiting2_state)

text \<open>
  C9: No wake-up of a mutex is lost. When threads sleep on the mutex and no thread is on its way
  through the library, the word says so and some thread has the mutex. When that thread unlocks it,
  the thread that slept longest wakes up and can take the mutex.
\<close>

theorem mutex_no_lost_wakeup:
  assumes "reach mutex_start mutex_trans s" and "mq s = w # ws" and "\<And>u. mpc s u = Out \<or> mpc s u = In \<or> asleep (mpc s u)"
  shows "lock (mtx s) = 2 \<and> (\<exists>h. holders s = {h} \<and> 0 < depth s h \<and>
    (mpc s h = In \<and> depth s h = 1 \<longrightarrow>
      (\<exists>n s1. mutex_exec (replicate n h @ [w, w, w]) (goto h U_Enter s) = Some s1 \<and>
         mpc s1 h = Out \<and> mpc s1 w = In \<and> mq s1 = ws)))"
proof -
  have i: "mutex_inv s"
    by (rule mutex.always [OF assms(1)])
  have "\<not> rescuer (mpc s u)" for u
    using assms(3) [of u] by (auto elim: asleepE)
  then have l: "lock (mtx s) = 2"
    using i assms(2) by (auto simp: mutex_inv_def mutex_queue_def)
  then obtain h where h: "holders s = {h}"
    using i by (auto simp: mutex_inv_def mutex_excl_def)
  then have "mutex_held s h"
    by (auto simp: holders_def)
  then have d: "0 < depth s h"
    using assms(3) [of h] by (auto simp: mutex_held_def)
  obtain c where w: "mpc s w = Asleep c"
    using sleeper_of [OF i, of w] assms(2) by (auto elim: asleepE)
  have "\<exists>n s1. mutex_exec (replicate n h @ [w, w, w]) (goto h U_Enter s) = Some s1 \<and>
      mpc s1 h = Out \<and> mpc s1 w = In \<and> mq s1 = ws" if a: "mpc s h = In" "depth s h = 1"
  proof -
    obtain n s1 where r: "mutex_exec (replicate n h) (goto h U_Enter s) = Some s1" "mpc s1 h = Out" "lock (mtx s1) = 0"
        "mq s1 = ws" "mpc s1 w = after_sleep (mpc s w)"
      using release_exec [OF i a assms(2) l] by blast
    let ?s = "s1\<lparr>mtx := mtx s1\<lparr>lock := 2, owner := int w, mcount := 1\<rparr>, mpc := (mpc s1)(w := In), mres := (mres s1)(w := 0),
      depth := (depth s1)(w := 1)\<rparr>"
    have "w \<noteq> h"
      using w a by auto
    moreover have "mutex_exec (replicate n h @ [w, w, w]) (goto h U_Enter s) = Some ?s"
      using r w by (simp add: mutex_exec_append mutex_run_def mutex_step_defs)
    ultimately show ?thesis
      using r(2,4) by (intro exI [of _ n] exI [of _ ?s]) simp
  qed
  then show ?thesis
    using l h d by blast
qed

theorem mutex_no_lost_wakeup_witness:
  "\<exists>n s1. mutex_exec (replicate n 1 @ [2, 2, 2]) (goto 1 U_Enter waiting2) = Some s1 \<and> mpc s1 2 = In"
proof -
  have "mpc waiting2 u = Out \<or> mpc waiting2 u = In \<or> asleep (mpc waiting2 u)" for u
    by (simp add: waiting2_state)
  then obtain h where h: "holders waiting2 = {h}" "mpc waiting2 h = In \<and> depth waiting2 h = 1 \<longrightarrow>
      (\<exists>n s1. mutex_exec (replicate n h @ [2, 2, 2]) (goto h U_Enter waiting2) = Some s1 \<and>
         mpc s1 h = Out \<and> mpc s1 2 = In \<and> mq s1 = [])"
    using mutex_no_lost_wakeup [OF reach_waiting2 waiting2_state(3)] by blast
  have "1 \<in> holders waiting2"
    by (simp add: holders_def mutex_held_def waiting2_state)
  then have "h = 1"
    using h(1) by simp
  then show ?thesis
    using h(2) by (auto simp: waiting2_state)
qed

end
