(* ===== verification/Sem.thy ===== *)
theory Sem
  imports Mutex
begin

text \<open>
  The semaphores of \<^verbatim>\<open>libc/src/pthread/sem.c\<close>. As for the mutexes, a system has one semaphore, the
  threads that sleep on its value, and for every thread its place in the code. The value is a 32-bit
  \<open>int\<close>, whose addition wraps around; there are fewer than \<open>2 ^ 31\<close> threads to count as waiters. The
  number of posts and of successful waits so far is recorded but not read.
\<close>

definition s32 :: "int \<Rightarrow> int" where
  "s32 x = (x + 2 ^ 31) mod 2 ^ 32 - 2 ^ 31"

lemma s32_id: "- (2 ^ 31) \<le> x \<Longrightarrow> x < 2 ^ 31 \<Longrightarrow> s32 x = x"
  by (simp add: s32_def)

record sem_t =
  sem_val :: int
  sem_waiters :: int

definition sem_init :: "sem_t option \<Rightarrow> nat \<Rightarrow> int \<times> sem_t option" where
  "sem_init sem value = (case sem of None \<Rightarrow> (EINVAL, None)
     | Some m \<Rightarrow> (0, Some (m\<lparr>sem_val := s32 (int value), sem_waiters := 0\<rparr>)))"

definition sem_destroy :: "sem_t option \<Rightarrow> int" where
  "sem_destroy sem = (case sem of None \<Rightarrow> EINVAL | Some m \<Rightarrow> if sem_waiters m > 0 then EBUSY else 0)"

definition sem_getvalue :: "sem_t option \<Rightarrow> int option \<Rightarrow> int \<times> int option" where
  "sem_getvalue sem sval = (case (sem, sval) of (Some m, Some _) \<Rightarrow> (0, Some (sem_val m)) | _ \<Rightarrow> (EINVAL, sval))"

section \<open>Waiting and posting\<close>

datatype sem_call = Sem_Wait | Sem_Trywait | Sem_Timedwait

datatype sem_pc =
    S_Out
  | W_Read sem_call | W_Cas sem_call int | W_Inc sem_call | W_Fwait sem_call | W_Asleep sem_call | W_Dec sem_call | W_Expired
  | P_Add | P_Check | P_Wake

record sem_sys =
  sem :: sem_t
  sq :: "nat list"
  spc :: "nat \<Rightarrow> sem_pc"
  sres :: "nat \<Rightarrow> int"
  posted :: nat
  taken :: nat

definition upd_sem :: "(sem_t \<Rightarrow> sem_t) \<Rightarrow> sem_sys \<Rightarrow> sem_sys" where
  "upd_sem f s = s\<lparr>sem := f (sem s)\<rparr>"

definition sgoto :: "nat \<Rightarrow> sem_pc \<Rightarrow> sem_sys \<Rightarrow> sem_sys" where
  "sgoto t p s = s\<lparr>spc := (spc s)(t := p)\<rparr>"

definition sret :: "nat \<Rightarrow> int \<Rightarrow> sem_sys \<Rightarrow> sem_sys" where
  "sret t r s = s\<lparr>spc := (spc s)(t := S_Out), sres := (sres s)(t := r)\<rparr>"

fun sem_after_sleep :: "sem_pc \<Rightarrow> sem_pc" where
  "sem_after_sleep (W_Asleep c) = W_Dec c"
| "sem_after_sleep p = p"

definition sem_wake :: "sem_sys \<Rightarrow> sem_sys" where
  "sem_wake s = (case sq s of [] \<Rightarrow> s | u # us \<Rightarrow> sgoto u (sem_after_sleep (spc s u)) (s\<lparr>sq := us\<rparr>))"

text \<open>\<open>sem_wait\<close>, \<open>sem_trywait\<close> and \<open>sem_timedwait\<close>.\<close>

fun sem_wait_step :: "nat \<Rightarrow> sem_pc \<Rightarrow> sem_sys \<Rightarrow> sem_sys option" where
  "sem_wait_step t (W_Read c) s =
     (let val = sem_val (sem s)
      in Some (if val > 0 then sgoto t (W_Cas c val) s else if c = Sem_Trywait then sret t EAGAIN s else sgoto t (W_Inc c) s))"
| "sem_wait_step t (W_Cas c val) s =
     Some (if sem_val (sem s) = val then (sret t 0 (upd_sem (\<lambda>m. m\<lparr>sem_val := val - 1\<rparr>) s))\<lparr>taken := taken s + 1\<rparr>
           else sgoto t (W_Read c) s)"
| "sem_wait_step t (W_Inc c) s = Some (sgoto t (W_Fwait c) (upd_sem (\<lambda>m. m\<lparr>sem_waiters := sem_waiters m + 1\<rparr>) s))"
| "sem_wait_step t (W_Fwait c) s =
     Some (if sem_val (sem s) = 0 then sgoto t (W_Asleep c) (s\<lparr>sq := sq s @ [t]\<rparr>) else sgoto t (W_Dec c) s)"
| "sem_wait_step t (W_Dec c) s = Some (sgoto t (W_Read c) (upd_sem (\<lambda>m. m\<lparr>sem_waiters := sem_waiters m - 1\<rparr>) s))"
| "sem_wait_step t W_Expired s = Some (sret t ETIMEDOUT (upd_sem (\<lambda>m. m\<lparr>sem_waiters := sem_waiters m - 1\<rparr>) s))"
| "sem_wait_step t _ s = None"

fun sem_post_step :: "nat \<Rightarrow> sem_pc \<Rightarrow> sem_sys \<Rightarrow> sem_sys option" where
  "sem_post_step t P_Add s =
     Some ((sgoto t P_Check (upd_sem (\<lambda>m. m\<lparr>sem_val := s32 (sem_val m + 1)\<rparr>) s))\<lparr>posted := posted s + 1\<rparr>)"
| "sem_post_step t P_Check s = Some (if sem_waiters (sem s) > 0 then sgoto t P_Wake s else sret t 0 s)"
| "sem_post_step t P_Wake s = Some (sret t 0 (sem_wake s))"
| "sem_post_step t _ s = None"

definition sem_run :: "nat \<Rightarrow> sem_sys \<Rightarrow> sem_sys option" where
  "sem_run t s = (case sem_wait_step t (spc s t) s of None \<Rightarrow> sem_post_step t (spc s t) s | r \<Rightarrow> r)"

inductive sem_trans :: "sem_sys \<Rightarrow> sem_sys \<Rightarrow> bool" where
  run: "sem_run t s = Some s' \<Longrightarrow> sem_trans s s'"
| call_wait: "spc s t = S_Out \<Longrightarrow> sem_trans s (sgoto t (W_Read c) s)"
| call_post: "spc s t = S_Out \<Longrightarrow> sem_trans s (sgoto t P_Add s)"
| timeout: "spc s t = W_Asleep Sem_Timedwait \<Longrightarrow> sem_trans s (sgoto t W_Expired (s\<lparr>sq := remove1 t (sq s)\<rparr>))"

definition sem_start :: "nat \<Rightarrow> sem_sys \<Rightarrow> bool" where
  "sem_start n s \<longleftrightarrow> sem_init (Some (sem s)) n = (0, Some (sem s)) \<and> sq s = [] \<and> spc s = (\<lambda>_. S_Out) \<and> posted s = 0 \<and> taken s = 0"

section \<open>The invariant\<close>

fun sem_sleeps :: "sem_pc \<Rightarrow> bool" where
  "sem_sleeps (W_Asleep c) \<longleftrightarrow> True"
| "sem_sleeps _ \<longleftrightarrow> False"

text \<open>The threads that \<open>waiters\<close> counts, and those that are bound to look at the value or to wake a sleeper.\<close>

fun sem_waiting :: "sem_pc \<Rightarrow> bool" where
  "sem_waiting (W_Fwait c) \<longleftrightarrow> True"
| "sem_waiting (W_Asleep c) \<longleftrightarrow> True"
| "sem_waiting (W_Dec c) \<longleftrightarrow> True"
| "sem_waiting W_Expired \<longleftrightarrow> True"
| "sem_waiting _ \<longleftrightarrow> False"

fun sem_active :: "sem_pc \<Rightarrow> bool" where
  "sem_active (W_Read c) \<longleftrightarrow> True"
| "sem_active (W_Cas c v) \<longleftrightarrow> True"
| "sem_active (W_Dec c) \<longleftrightarrow> True"
| "sem_active P_Check \<longleftrightarrow> True"
| "sem_active P_Wake \<longleftrightarrow> True"
| "sem_active _ \<longleftrightarrow> False"

definition sem_value :: "nat \<Rightarrow> sem_sys \<Rightarrow> bool" where
  "sem_value n s \<longleftrightarrow> 0 \<le> sem_val (sem s) \<and> sem_val (sem s) + int (taken s) = int n + int (posted s) \<and>
     (\<forall>t c v. spc s t = W_Cas c v \<longrightarrow> 0 < v)"

definition sem_counts :: "sem_sys \<Rightarrow> bool" where
  "sem_counts s \<longleftrightarrow> few (spc s) sem_waiting \<and> few (spc s) sem_active \<and> sem_waiters (sem s) = int (threads_at (spc s) sem_waiting)"

definition sem_queue :: "sem_sys \<Rightarrow> bool" where
  "sem_queue s \<longleftrightarrow> distinct (sq s) \<and> (\<forall>t. t \<in> set (sq s) \<longleftrightarrow> sem_sleeps (spc s t)) \<and>
     (sq s \<noteq> [] \<longrightarrow> sem_val (sem s) \<le> int (threads_at (spc s) sem_active))"

definition sem_inv :: "nat \<Rightarrow> sem_sys \<Rightarrow> bool" where
  "sem_inv n s \<longleftrightarrow> sem_value n s \<and> sem_counts s \<and> sem_queue s"

lemmas sem_step_defs = sgoto_def sret_def upd_sem_def

lemma sem_run_cases [consumes 1, case_names read_pos read_try read_zero cas cas_again inc fwait fwait_again dec expired add check
    check_none wake]:
  assumes "sem_run t s = Some s'"
  obtains c where "spc s t = W_Read c" "0 < sem_val (sem s)" "s' = sgoto t (W_Cas c (sem_val (sem s))) s"
  | c where "spc s t = W_Read c" "sem_val (sem s) \<le> 0" "s' = sret t EAGAIN s"
  | c where "spc s t = W_Read c" "sem_val (sem s) \<le> 0" "s' = sgoto t (W_Inc c) s"
  | c where "spc s t = W_Cas c (sem_val (sem s))"
      "s' = (sret t 0 (upd_sem (\<lambda>m. m\<lparr>sem_val := sem_val (sem s) - 1\<rparr>) s))\<lparr>taken := taken s + 1\<rparr>"
  | c v where "spc s t = W_Cas c v" "v \<noteq> sem_val (sem s)" "s' = sgoto t (W_Read c) s"
  | c where "spc s t = W_Inc c" "s' = sgoto t (W_Fwait c) (upd_sem (\<lambda>m. m\<lparr>sem_waiters := sem_waiters m + 1\<rparr>) s)"
  | c where "spc s t = W_Fwait c" "sem_val (sem s) = 0" "s' = sgoto t (W_Asleep c) (s\<lparr>sq := sq s @ [t]\<rparr>)"
  | c where "spc s t = W_Fwait c" "sem_val (sem s) \<noteq> 0" "s' = sgoto t (W_Dec c) s"
  | c where "spc s t = W_Dec c" "s' = sgoto t (W_Read c) (upd_sem (\<lambda>m. m\<lparr>sem_waiters := sem_waiters m - 1\<rparr>) s)"
  | "spc s t = W_Expired" "s' = sret t ETIMEDOUT (upd_sem (\<lambda>m. m\<lparr>sem_waiters := sem_waiters m - 1\<rparr>) s)"
  | "spc s t = P_Add" "s' = (sgoto t P_Check (upd_sem (\<lambda>m. m\<lparr>sem_val := s32 (sem_val m + 1)\<rparr>) s))\<lparr>posted := posted s + 1\<rparr>"
  | "spc s t = P_Check" "0 < sem_waiters (sem s)" "s' = sgoto t P_Wake s"
  | "spc s t = P_Check" "sem_waiters (sem s) \<le> 0" "s' = sret t 0 s"
  | "spc s t = P_Wake" "s' = sret t 0 (sem_wake s)"
proof (cases "spc s t")
  case (W_Read c)
  then show ?thesis
    using assms that(1-3) by (auto simp: sem_run_def Let_def split: if_splits)
next
  case (W_Cas c v)
  then show ?thesis
    using assms that(4,5) by (auto simp: sem_run_def split: if_splits)
next
  case (W_Inc c)
  then show ?thesis
    using assms that(6) by (simp add: sem_run_def)
next
  case (W_Fwait c)
  then show ?thesis
    using assms that(7,8) by (auto simp: sem_run_def split: if_splits)
next
  case (W_Dec c)
  then show ?thesis
    using assms that(9) by (simp add: sem_run_def)
next
  case W_Expired
  then show ?thesis
    using assms that(10) by (simp add: sem_run_def)
next
  case P_Add
  then show ?thesis
    using assms that(11) by (simp add: sem_run_def)
next
  case P_Check
  then show ?thesis
    using assms that(12,13) by (auto simp: sem_run_def split: if_splits)
next
  case P_Wake
  then show ?thesis
    using assms that(14) by (simp add: sem_run_def)
qed (use assms in \<open>simp_all add: sem_run_def\<close>)

lemma sem_wake_simps [simp]:
  "sem (sem_wake s) = sem s" "sq (sem_wake s) = tl (sq s)" "posted (sem_wake s) = posted s" "taken (sem_wake s) = taken s"
  by (simp_all add: sem_wake_def sgoto_def split: list.split)

lemma sem_wake_pc: "spc (sem_wake s) = (case sq s of [] \<Rightarrow> spc s | u # us \<Rightarrow> (spc s)(u := sem_after_sleep (spc s u)))"
  by (simp add: sem_wake_def sgoto_def split: list.split)

lemma sem_sleepsE: "sem_sleeps p \<Longrightarrow> (\<And>c. p = W_Asleep c \<Longrightarrow> P) \<Longrightarrow> P"
  by (cases p) auto

lemma sem_value_run:
  assumes "sem_value n s" and "sem_run t s = Some s'" and "n + posted s' < 2 ^ 31"
  shows "sem_value n s'"
proof -
  have a: "0 \<le> sem_val (sem s)" "sem_val (sem s) + int (taken s) = int n + int (posted s)"
    and v: "\<forall>t c v. spc s t = W_Cas c v \<longrightarrow> 0 < v"
    using assms(1) by (simp_all add: sem_value_def)
  from assms(2) show ?thesis
  proof (cases rule: sem_run_cases)
    case (cas c)
    then have "0 < sem_val (sem s)"
      using v by blast
    then show ?thesis
      using cas a v by (simp add: sem_value_def sem_step_defs)
  next
    case add
    then have "s32 (sem_val (sem s) + 1) = sem_val (sem s) + 1"
      using a assms(3) by (intro s32_id) (simp_all add: sem_step_defs)
    then show ?thesis
      using add a v by (simp add: sem_value_def sem_step_defs)
  next
    case wake
    then show ?thesis
    proof (cases "sq s")
      case (Cons x xs)
      have "0 < v" if "sem_after_sleep (spc s x) = W_Cas c v" for c v
        using that v by (cases "spc s x") auto
      then show ?thesis
        using wake a v Cons by (auto simp: sem_value_def sem_step_defs sem_wake_pc)
    qed (simp add: a v sem_value_def sem_step_defs sem_wake_pc)
  qed (use a v in \<open>auto simp: sem_value_def sem_step_defs\<close>)
qed

lemma sem_wake_counts:
  assumes "few (spc s) Q" and "\<And>c. Q (W_Asleep c) = Q (W_Dec c)" and "\<And>t. t \<in> set (sq s) \<longleftrightarrow> sem_sleeps (spc s t)"
  shows "few (spc (sem_wake s)) Q" "int (threads_at (spc (sem_wake s)) Q) = int (threads_at (spc s) Q)"
proof -
  have "Q (sem_after_sleep p) = Q p" for p
    using assms(2) by (cases p) simp_all
  then have "int (threads_at ((spc s)(x := sem_after_sleep (spc s x))) Q) = int (threads_at (spc s) Q)" for x
    using int_threads_at_upd [OF assms(1), of x "sem_after_sleep (spc s x)"] by simp
  then show "few (spc (sem_wake s)) Q" "int (threads_at (spc (sem_wake s)) Q) = int (threads_at (spc s) Q)"
    using assms(1) by (simp_all add: sem_wake_pc split: list.split)
qed

lemma sem_counts_run:
  assumes "sem_inv n s" and "sem_run t s = Some s'"
  shows "sem_counts s'"
proof -
  have f: "few (spc s) sem_waiting" "few (spc s) sem_active" and w: "sem_waiters (sem s) = int (threads_at (spc s) sem_waiting)"
    and q: "\<And>t. t \<in> set (sq s) \<longleftrightarrow> sem_sleeps (spc s t)"
    using assms(1) by (auto simp: sem_inv_def sem_counts_def sem_queue_def)
  from assms(2) show ?thesis
  proof (cases rule: sem_run_cases)
    case wake
    have fa: "few (spc (sem_wake s)) sem_active"
      using f(2) by (simp add: sem_wake_pc split: list.split)
    have "spc (sem_wake s) t = P_Wake"
      using wake q [of t] by (auto simp: sem_wake_pc split: list.split)
    then show ?thesis
      using wake sem_wake_counts [of s sem_waiting] f w q fa by (simp add: sem_counts_def sem_step_defs int_threads_at_upd)
  qed (use f w in \<open>simp_all add: sem_counts_def sem_step_defs int_threads_at_upd\<close>)
qed

lemma sem_queue_wake:
  assumes "sem_inv n s" and "spc s t = P_Wake"
  shows "sem_queue (sret t 0 (sem_wake s))"
proof -
  have f: "few (spc s) sem_active" and d: "distinct (sq s)" and q: "\<And>u. u \<in> set (sq s) \<longleftrightarrow> sem_sleeps (spc s u)"
    and v: "sq s \<noteq> [] \<longrightarrow> sem_val (sem s) \<le> int (threads_at (spc s) sem_active)"
    using assms(1) by (auto simp: sem_inv_def sem_counts_def sem_queue_def)
  show ?thesis
  proof (cases "sq s")
    case Nil
    then show ?thesis
      using q assms(2) by (auto simp: sem_queue_def sret_def sem_wake_pc)
  next
    case (Cons x xs)
    then obtain c where x: "spc s x = W_Asleep c" "x \<noteq> t" "x \<notin> set xs" "t \<notin> set xs"
      using q [of x] q [of t] d assms(2) by (auto elim: sem_sleepsE)
    have "int (threads_at ((spc s)(x := W_Dec c, t := S_Out)) sem_active) = int (threads_at (spc s) sem_active)"
      using f x assms(2) by (simp add: int_threads_at_upd)
    moreover have "u \<in> set xs \<longleftrightarrow> sem_sleeps (((spc s)(x := W_Dec c, t := S_Out)) u)" for u
      using q [of u] Cons x by auto
    ultimately show ?thesis
      using Cons x d v by (simp add: sem_queue_def sret_def sem_wake_pc)
  qed
qed

lemma sem_queue_run:
  assumes "sem_inv n s" and "sem_run t s = Some s'" and "n + posted s' < 2 ^ 31"
  shows "sem_queue s'"
proof -
  have f: "few (spc s) sem_active" "few (spc s) sem_waiting" and d: "distinct (sq s)"
    and q: "\<And>u. u \<in> set (sq s) \<longleftrightarrow> sem_sleeps (spc s u)"
    and v: "sq s \<noteq> [] \<longrightarrow> sem_val (sem s) \<le> int (threads_at (spc s) sem_active)"
    and a: "0 \<le> sem_val (sem s)" "sem_val (sem s) + int (taken s) = int n + int (posted s)"
    and w: "sem_waiters (sem s) = int (threads_at (spc s) sem_waiting)"
    using assms(1) by (auto simp: sem_inv_def sem_counts_def sem_queue_def sem_value_def)
  have nq: "t \<notin> set (sq s)" if "\<not> sem_sleeps (spc s t)"
    using q that by simp
  have pos: "sem_active (spc s t) \<longrightarrow> 0 < threads_at (spc s) sem_active"
    using threads_at_pos [OF f(1)] by blast
  from assms(2) show ?thesis
  proof (cases rule: sem_run_cases)
    case wake
    then show ?thesis
      using sem_queue_wake [OF assms(1)] by simp
  next
    case add
    then have "s32 (sem_val (sem s) + 1) = sem_val (sem s) + 1"
      using a assms(3) by (intro s32_id) (simp_all add: sem_step_defs)
    then show ?thesis
      using add d q v f nq by (auto simp: sem_queue_def sem_step_defs int_threads_at_upd)
  next
    case check_none
    then have "threads_at (spc s) sem_waiting = 0"
      using w by simp
    then have "\<not> sem_sleeps (spc s u)" for u
      using threads_at_0 [OF f(2)] by (cases "spc s u") (auto, metis sem_waiting.simps(2))
    then have "sq s = []"
      using q by (metis list.set_sel(1))
    then show ?thesis
      using check_none q by (auto simp: sem_queue_def sem_step_defs)
  qed (use d q v f a nq pos in \<open>auto simp: sem_queue_def sem_step_defs int_threads_at_upd\<close>)
qed

text \<open>Posting never undoes a post, so a bound on the posts holds all along a run.\<close>

lemma posted_mono: "sem_trans s s' \<Longrightarrow> posted s \<le> posted s'"
  by (erule sem_trans.cases) (auto simp: sem_step_defs elim: sem_run_cases)

lemma sem_inv_move:
  assumes "sem_inv n s" and "\<not> sem_active (spc s t)" and "\<not> sem_sleeps p" and "sem_waiting p = sem_waiting (spc s t)"
    and "\<And>c v. p \<noteq> W_Cas c v"
  shows "sem_inv n (sgoto t p (s\<lparr>sq := remove1 t (sq s)\<rparr>))"
proof -
  have f: "few (spc s) sem_active" "few (spc s) sem_waiting" and d: "distinct (sq s)"
    and q: "\<And>u. u \<in> set (sq s) \<longleftrightarrow> sem_sleeps (spc s u)"
    using assms(1) by (auto simp: sem_inv_def sem_counts_def sem_queue_def)
  have "threads_at ((spc s)(t := p)) sem_waiting = threads_at (spc s) sem_waiting"
    "threads_at (spc s) sem_active \<le> threads_at ((spc s)(t := p)) sem_active"
    using int_threads_at_upd [OF f(2), of t p] int_threads_at_upd [OF f(1), of t p] assms(2,4) by (simp_all split: if_splits)
  then show ?thesis
    using assms(1,3,5) d q by (auto simp: sem_inv_def sem_value_def sem_counts_def sem_queue_def sgoto_def)
qed

interpretation semaphore: kept "sem_start n" sem_trans "\<lambda>s. n + posted s < 2 ^ 31 \<longrightarrow> sem_inv n s" for n
proof
  show "n + posted s < 2 ^ 31 \<longrightarrow> sem_inv n s" if "sem_start n s" for s
  proof
    assume "n + posted s < 2 ^ 31"
    then have "s32 (int n) = int n"
      by (intro s32_id) simp_all
    moreover have e: "(sem s)\<lparr>sem_val := s32 (int n), sem_waiters := 0\<rparr> = sem s"
      using that by (simp add: sem_start_def sem_init_def)
    have "sem_val (sem s) = s32 (int n)" "sem_waiters (sem s) = 0"
      using arg_cong [OF e, of sem_val] arg_cong [OF e, of sem_waiters] by simp_all
    ultimately show "sem_inv n s"
      using that by (simp add: sem_start_def sem_inv_def sem_value_def sem_counts_def sem_queue_def few_def threads_at_def)
  qed
  show "n + posted s' < 2 ^ 31 \<longrightarrow> sem_inv n s'" if "n + posted s < 2 ^ 31 \<longrightarrow> sem_inv n s" "sem_trans s s'" for s s'
  proof
    assume b: "n + posted s' < 2 ^ 31"
    then have i: "sem_inv n s"
      using that(1) posted_mono [OF that(2)] by simp
    then have r: "remove1 t (sq s) = sq s" if "spc s t = S_Out" for t
      using that by (intro remove1_idem) (auto simp: sem_inv_def sem_queue_def)
    from that(2) show "sem_inv n s'"
    proof cases
      case (run t)
      then show ?thesis
        using sem_value_run [OF _ run b] sem_counts_run [OF i run] sem_queue_run [OF i run b] i by (simp add: sem_inv_def)
    next
      case (call_wait t c)
      then show ?thesis
        using sem_inv_move [OF i, of t "W_Read c"] r by simp
    next
      case (call_post t)
      then show ?thesis
        using sem_inv_move [OF i, of t P_Add] r by simp
    next
      case (timeout t)
      then show ?thesis
        using sem_inv_move [OF i, of t W_Expired] by simp
    qed
  qed
qed

section \<open>What the semaphore promises\<close>

text \<open>A semaphore of value 0 on which thread 1 waits.\<close>

definition sem0 :: sem_sys where
  "sem0 = \<lparr>sem = \<lparr>sem_val = 0, sem_waiters = 0\<rparr>, sq = [], spc = (\<lambda>_. S_Out), sres = (\<lambda>_. 0), posted = 0, taken = 0\<rparr>"

fun sem_exec :: "nat list \<Rightarrow> sem_sys \<Rightarrow> sem_sys option" where
  "sem_exec [] s = Some s"
| "sem_exec (t # ts) s = (case sem_run t s of None \<Rightarrow> None | Some s1 \<Rightarrow> sem_exec ts s1)"

lemma sem_reach_exec:
  "reach (sem_start n) sem_trans s \<Longrightarrow> sem_exec ts s = Some s' \<Longrightarrow> reach (sem_start n) sem_trans s'"
proof (induction ts arbitrary: s)
  case (Cons t ts)
  obtain s1 where r: "sem_run t s = Some s1" "sem_exec ts s1 = Some s'"
    using Cons.prems(2) by (auto split: option.splits)
  then show ?case
    by (intro Cons.IH [OF reach.step [OF Cons.prems(1) sem_trans.run [of t]]])
qed simp

definition sem_waiting1 :: sem_sys where
  "sem_waiting1 = the (sem_exec [1, 1, 1] (sgoto 1 (W_Read Sem_Wait) sem0))"

lemma sem_waiting1_state:
  "sem_exec [1, 1, 1] (sgoto 1 (W_Read Sem_Wait) sem0) = Some sem_waiting1" "sem sem_waiting1 = \<lparr>sem_val = 0, sem_waiters = 1\<rparr>"
  "sq sem_waiting1 = [1]" "spc sem_waiting1 = (\<lambda>_. S_Out)(1 := W_Asleep Sem_Wait)" "posted sem_waiting1 = 0" "taken sem_waiting1 = 0"
  by (simp_all add: sem_waiting1_def sem0_def sem_run_def sem_step_defs Let_def)

lemma reach_sem_waiting1: "reach (sem_start 0) sem_trans sem_waiting1"
proof -
  have "reach (sem_start 0) sem_trans sem0"
    by (rule reach.start) (simp add: sem_start_def sem0_def sem_init_def s32_def)
  then have "reach (sem_start 0) sem_trans (sgoto 1 (W_Read Sem_Wait) sem0)"
    by (rule reach.step) (rule sem_trans.call_wait, simp add: sem0_def)
  then show ?thesis
    by (rule sem_reach_exec [OF _ sem_waiting1_state(1)])
qed

text \<open>
  C22: The value of a semaphore is its initial value plus the posts minus the successful waits, and
  never negative, so no more waits succeed than the initial value and the posts allow; as long as
  the initial value and the number of posts fit into an \<open>int\<close>.
\<close>

theorem sem_conservation:
  assumes "reach (sem_start n) sem_trans s" and "n + posted s < 2 ^ 31"
  shows "sem_val (sem s) = int n + int (posted s) - int (taken s) \<and> taken s \<le> n + posted s"
proof -
  have "sem_value n s"
    using semaphore.always [OF assms(1)] assms(2) by (simp add: sem_inv_def)
  then show ?thesis
    by (simp add: sem_value_def)
qed

theorem sem_conservation_witness: "sem_val (sem sem_waiting1) = 0 \<and> taken sem_waiting1 \<le> 0"
  using sem_conservation [OF reach_sem_waiting1] by (simp add: sem_waiting1_state(5,6))

text \<open>
  C12: No post is lost. When no thread is on its way through the library, a thread sleeps on the
  semaphore only if its value is zero, the waiter count is the number of sleepers, and a post lets
  the thread that slept longest take the semaphore.
\<close>

theorem sem_no_lost_wakeup:
  assumes "reach (sem_start n) sem_trans s" and "n + posted s < 2 ^ 31 - 1" and "\<And>u. spc s u = S_Out \<or> sem_sleeps (spc s u)"
    and "sq s = w # ws" and "spc s t = S_Out"
  shows "sem_val (sem s) = 0 \<and> sem_waiters (sem s) = int (length (sq s)) \<and>
    (\<exists>s1. sem_exec [t, t, t, w, w, w] (sgoto t P_Add s) = Some s1 \<and> spc s1 w = S_Out \<and> sres s1 w = 0 \<and> sq s1 = ws \<and>
       taken s1 = taken s + 1)"
proof -
  have i: "sem_inv n s"
    using semaphore.always [OF assms(1)] assms(2) by simp
  have "\<not> sem_active (spc s u)" for u
    using assms(3) [of u] by (auto elim: sem_sleepsE)
  then have "threads_at (spc s) sem_active = 0"
    by (simp add: threads_at_def)
  then have v: "sem_val (sem s) = 0"
    using i assms(4) by (simp add: sem_inv_def sem_value_def sem_queue_def)
  have q: "\<And>u. u \<in> set (sq s) \<longleftrightarrow> sem_sleeps (spc s u)" and d: "distinct (sq s)"
    using i by (simp_all add: sem_inv_def sem_queue_def)
  have "sem_waiting (spc s u) = sem_sleeps (spc s u)" for u
    using assms(3) [of u] by (auto elim: sem_sleepsE)
  moreover have "{u. sem_sleeps (spc s u)} = set (sq s)"
    using q by auto
  ultimately have "threads_at (spc s) sem_waiting = card (set (sq s))"
    by (simp add: threads_at_def)
  then have n: "sem_waiters (sem s) = int (length (sq s))"
    using i d by (simp add: sem_inv_def sem_counts_def distinct_card)
  have t: "w \<noteq> t"
    using q [of t] assms(4,5) by auto
  obtain c where w: "spc s w = W_Asleep c"
    using q [of w] assms(4) by (cases "spc s w") auto
  let ?s = "s\<lparr>sem := \<lparr>sem_val = 0, sem_waiters = int (length ws)\<rparr>, sq := ws, spc := (spc s)(t := S_Out, w := S_Out),
    sres := (sres s)(t := 0, w := 0), posted := posted s + 1, taken := taken s + 1\<rparr>"
  have "s32 (0 + 1) = 1" "s32 1 = 1"
    by (simp_all add: s32_def)
  then have "sem_exec [t, t, t, w, w, w] (sgoto t P_Add s) = Some ?s"
    using v n w t assms(4,5) by (simp add: sem_run_def sem_step_defs Let_def sem_wake_def fun_upd_twist)
  then show ?thesis
    using v n by auto
qed

theorem sem_no_lost_wakeup_witness:
  "\<exists>s1. sem_exec [2, 2, 2, 1, 1, 1] (sgoto 2 P_Add sem_waiting1) = Some s1 \<and> spc s1 1 = S_Out \<and> taken s1 = 1"
proof -
  have "spc sem_waiting1 u = S_Out \<or> sem_sleeps (spc sem_waiting1 u)" for u
    by (simp add: sem_waiting1_state)
  moreover have "spc sem_waiting1 2 = S_Out" "0 + posted sem_waiting1 < 2 ^ 31 - 1"
    by (simp_all add: sem_waiting1_state)
  ultimately show ?thesis
    using sem_no_lost_wakeup [OF reach_sem_waiting1, of 1 "[]" 2] by (auto simp: sem_waiting1_state(3,6))
qed

end
