(* ===== verification/Rwlock.thy ===== *)
theory Rwlock
  imports Mutex
begin

text \<open>
  The read-write locks of \<^verbatim>\<open>libc/src/pthread/mutex.c\<close>: one lock with its three futex words and the
  threads that sleep on each. A thread takes the lock once and then releases it. The role in
  \<open>Un_Enter\<close> records how the caller has the lock; no step reads it.
\<close>

record pthread_rwlock_t =
  rw_lock :: int
  writers :: int
  readers :: int
  writer_tid :: int

definition pthread_rwlock_init :: "pthread_rwlock_t option \<Rightarrow> int \<times> pthread_rwlock_t option" where
  "pthread_rwlock_init rwlock = (case rwlock of None \<Rightarrow> (EINVAL, None)
     | Some l \<Rightarrow> (0, Some (l\<lparr>rw_lock := 0, writers := 0, readers := 0, writer_tid := 0\<rparr>)))"

definition pthread_rwlock_destroy :: "pthread_rwlock_t option \<Rightarrow> int" where
  "pthread_rwlock_destroy rwlock = (case rwlock of None \<Rightarrow> EINVAL | Some l \<Rightarrow> if readers l > 0 \<or> writers l > 0 then EBUSY else 0)"

definition pthread_rwlockattr_init :: "int option \<Rightarrow> int \<times> int option" where
  "pthread_rwlockattr_init pshared = (case pshared of None \<Rightarrow> (EINVAL, None) | Some _ \<Rightarrow> (0, Some PTHREAD_PROCESS_PRIVATE))"

section \<open>The operations\<close>

datatype rw_role = Reader | Writer

datatype rw_pc =
    No_Lock | Has_Lock rw_role
  | Rd_Check | Rd_Load | Rd_Fwait int | Rd_Asleep | Rd_Add | Rd_Recheck | Rd_Sub
  | Tr_Check | Tr_Add | Tr_Recheck | Tr_Sub
  | Wr_Xchg | Wr_Fwait | Wr_Asleep | Wr_Tid | Wr_Readers | Wr_Load | Wr_Fwait_Readers int | Wr_Asleep_Readers
  | Tw_Cas | Tw_Readers | Tw_Tid | Tw_Clear
  | Un_Enter rw_role | Un_Tid | Un_Writers | Un_Wake_Writers | Un_Wake_Lock
  | Un_Readers | Un_Sub | Un_Wake_Readers | Un_Wake_Writers2

record rw_sys =
  rw :: pthread_rwlock_t
  lq :: "nat list"
  wq :: "nat list"
  rq :: "nat list"
  rpc :: "nat \<Rightarrow> rw_pc"
  rres :: "nat \<Rightarrow> int"

definition upd_rw :: "(pthread_rwlock_t \<Rightarrow> pthread_rwlock_t) \<Rightarrow> rw_sys \<Rightarrow> rw_sys" where
  "upd_rw f s = s\<lparr>rw := f (rw s)\<rparr>"

definition rgoto :: "nat \<Rightarrow> rw_pc \<Rightarrow> rw_sys \<Rightarrow> rw_sys" where
  "rgoto t p s = s\<lparr>rpc := (rpc s)(t := p)\<rparr>"

definition rret :: "nat \<Rightarrow> rw_pc \<Rightarrow> int \<Rightarrow> rw_sys \<Rightarrow> rw_sys" where
  "rret t p r s = s\<lparr>rpc := (rpc s)(t := p), rres := (rres s)(t := r)\<rparr>"

text \<open>Threads taken off a queue go on after their \<open>futex_wait\<close>.\<close>

fun rw_after_sleep :: "rw_pc \<Rightarrow> rw_pc" where
  "rw_after_sleep Rd_Asleep = Rd_Check"
| "rw_after_sleep Wr_Asleep = Wr_Xchg"
| "rw_after_sleep Wr_Asleep_Readers = Wr_Readers"
| "rw_after_sleep p = p"

definition awaken :: "nat list \<Rightarrow> rw_sys \<Rightarrow> rw_sys" where
  "awaken us s = s\<lparr>rpc := (\<lambda>u. if u \<in> set us then rw_after_sleep (rpc s u) else rpc s u)\<rparr>"

definition wake_lock :: "nat \<Rightarrow> rw_sys \<Rightarrow> rw_sys" where
  "wake_lock n s = (awaken (take n (lq s)) s)\<lparr>lq := drop n (lq s)\<rparr>"

definition wake_writers :: "nat \<Rightarrow> rw_sys \<Rightarrow> rw_sys" where
  "wake_writers n s = (awaken (take n (wq s)) s)\<lparr>wq := drop n (wq s)\<rparr>"

definition wake_readers :: "nat \<Rightarrow> rw_sys \<Rightarrow> rw_sys" where
  "wake_readers n s = (awaken (take n (rq s)) s)\<lparr>rq := drop n (rq s)\<rparr>"

text \<open>\<open>pthread_rwlock_rdlock\<close> and \<open>pthread_rwlock_tryrdlock\<close>.\<close>

fun rdlock_step :: "nat \<Rightarrow> rw_pc \<Rightarrow> rw_sys \<Rightarrow> rw_sys option" where
  "rdlock_step t Rd_Check s = Some (rgoto t (if writers (rw s) > 0 then Rd_Load else Rd_Add) s)"
| "rdlock_step t Rd_Load s = Some (rgoto t (Rd_Fwait (rw_lock (rw s))) s)"
| "rdlock_step t (Rd_Fwait v) s =
     Some (if rw_lock (rw s) = v then rgoto t Rd_Asleep (s\<lparr>lq := lq s @ [t]\<rparr>) else rgoto t Rd_Check s)"
| "rdlock_step t Rd_Add s = Some (rgoto t Rd_Recheck (upd_rw (\<lambda>l. l\<lparr>readers := readers l + 1\<rparr>) s))"
| "rdlock_step t Rd_Recheck s = Some (if writers (rw s) = 0 then rret t (Has_Lock Reader) 0 s else rgoto t Rd_Sub s)"
| "rdlock_step t Rd_Sub s = Some (rgoto t Rd_Check (upd_rw (\<lambda>l. l\<lparr>readers := readers l - 1\<rparr>) s))"
| "rdlock_step t Tr_Check s = Some (if writers (rw s) > 0 then rret t No_Lock EBUSY s else rgoto t Tr_Add s)"
| "rdlock_step t Tr_Add s = Some (rgoto t Tr_Recheck (upd_rw (\<lambda>l. l\<lparr>readers := readers l + 1\<rparr>) s))"
| "rdlock_step t Tr_Recheck s = Some (if writers (rw s) > 0 then rgoto t Tr_Sub s else rret t (Has_Lock Reader) 0 s)"
| "rdlock_step t Tr_Sub s = Some (rret t No_Lock EBUSY (upd_rw (\<lambda>l. l\<lparr>readers := readers l - 1\<rparr>) s))"
| "rdlock_step t _ s = None"

text \<open>\<open>pthread_rwlock_wrlock\<close> and \<open>pthread_rwlock_trywrlock\<close>.\<close>

fun wrlock_step :: "nat \<Rightarrow> rw_pc \<Rightarrow> rw_sys \<Rightarrow> rw_sys option" where
  "wrlock_step t Wr_Xchg s =
     Some (rgoto t (if writers (rw s) \<noteq> 0 then Wr_Fwait else Wr_Tid) (upd_rw (\<lambda>l. l\<lparr>writers := 1\<rparr>) s))"
| "wrlock_step t Wr_Fwait s =
     Some (if writers (rw s) = 1 then rgoto t Wr_Asleep (s\<lparr>wq := wq s @ [t]\<rparr>) else rgoto t Wr_Xchg s)"
| "wrlock_step t Wr_Tid s = Some (rgoto t Wr_Readers (upd_rw (\<lambda>l. l\<lparr>writer_tid := int t\<rparr>) s))"
| "wrlock_step t Wr_Readers s = Some (if readers (rw s) > 0 then rgoto t Wr_Load s else rret t (Has_Lock Writer) 0 s)"
| "wrlock_step t Wr_Load s = Some (rgoto t (Wr_Fwait_Readers (readers (rw s))) s)"
| "wrlock_step t (Wr_Fwait_Readers v) s =
     Some (if readers (rw s) = v then rgoto t Wr_Asleep_Readers (s\<lparr>rq := rq s @ [t]\<rparr>) else rgoto t Wr_Readers s)"
| "wrlock_step t Tw_Cas s =
     Some (if writers (rw s) = 0 then rgoto t Tw_Readers (upd_rw (\<lambda>l. l\<lparr>writers := 1\<rparr>) s) else rret t No_Lock EBUSY s)"
| "wrlock_step t Tw_Readers s = Some (rgoto t (if readers (rw s) = 0 then Tw_Tid else Tw_Clear) s)"
| "wrlock_step t Tw_Tid s = Some (rret t (Has_Lock Writer) 0 (upd_rw (\<lambda>l. l\<lparr>writer_tid := int t\<rparr>) s))"
| "wrlock_step t Tw_Clear s = Some (rret t No_Lock EBUSY (upd_rw (\<lambda>l. l\<lparr>writers := 0\<rparr>) s))"
| "wrlock_step t _ s = None"

fun rw_unlock_step :: "nat \<Rightarrow> rw_pc \<Rightarrow> rw_sys \<Rightarrow> rw_sys option" where
  "rw_unlock_step t (Un_Enter r) s = Some (rgoto t (if writer_tid (rw s) = int t then Un_Tid else Un_Readers) s)"
| "rw_unlock_step t Un_Tid s = Some (rgoto t Un_Writers (upd_rw (\<lambda>l. l\<lparr>writer_tid := 0\<rparr>) s))"
| "rw_unlock_step t Un_Writers s = Some (rgoto t Un_Wake_Writers (upd_rw (\<lambda>l. l\<lparr>writers := 0\<rparr>) s))"
| "rw_unlock_step t Un_Wake_Writers s = Some (rgoto t Un_Wake_Lock (wake_writers 1 s))"
| "rw_unlock_step t Un_Wake_Lock s = Some (rret t No_Lock 0 (wake_lock 64 s))"
| "rw_unlock_step t Un_Readers s = Some (if readers (rw s) > 0 then rgoto t Un_Sub s else rret t No_Lock 0 s)"
| "rw_unlock_step t Un_Sub s =
     (let s1 = upd_rw (\<lambda>l. l\<lparr>readers := readers l - 1\<rparr>) s
      in Some (if readers (rw s1) = 0 then rgoto t Un_Wake_Readers s1 else rret t No_Lock 0 s1))"
| "rw_unlock_step t Un_Wake_Readers s = Some (rgoto t Un_Wake_Writers2 (wake_readers 1 s))"
| "rw_unlock_step t Un_Wake_Writers2 s = Some (rret t No_Lock 0 (wake_writers 1 s))"
| "rw_unlock_step t _ s = None"

definition rw_run :: "nat \<Rightarrow> rw_sys \<Rightarrow> rw_sys option" where
  "rw_run t s = (case rdlock_step t (rpc s t) s of
       None \<Rightarrow> (case wrlock_step t (rpc s t) s of None \<Rightarrow> rw_unlock_step t (rpc s t) s | r \<Rightarrow> r)
     | r \<Rightarrow> r)"

inductive rw_trans :: "rw_sys \<Rightarrow> rw_sys \<Rightarrow> bool" where
  run: "0 < t \<Longrightarrow> rw_run t s = Some s' \<Longrightarrow> rw_trans s s'"
| call_lock: "0 < t \<Longrightarrow> rpc s t = No_Lock \<Longrightarrow> p \<in> {Rd_Check, Tr_Check, Wr_Xchg, Tw_Cas} \<Longrightarrow> rw_trans s (rgoto t p s)"
| call_unlock: "0 < t \<Longrightarrow> rpc s t = Has_Lock r \<Longrightarrow> rw_trans s (rgoto t (Un_Enter r) s)"

definition rw_start :: "rw_sys \<Rightarrow> bool" where
  "rw_start s \<longleftrightarrow> pthread_rwlock_init (Some (rw s)) = (0, Some (rw s)) \<and> lq s = [] \<and> wq s = [] \<and> rq s = [] \<and> rpc s = (\<lambda>_. No_Lock)"

section \<open>The invariant\<close>

text \<open>The threads that \<open>readers\<close> counts; those among them that have the lock.\<close>

fun counted :: "rw_pc \<Rightarrow> bool" where
  "counted Rd_Recheck \<longleftrightarrow> True"
| "counted Rd_Sub \<longleftrightarrow> True"
| "counted Tr_Recheck \<longleftrightarrow> True"
| "counted Tr_Sub \<longleftrightarrow> True"
| "counted (Has_Lock Reader) \<longleftrightarrow> True"
| "counted (Un_Enter Reader) \<longleftrightarrow> True"
| "counted Un_Readers \<longleftrightarrow> True"
| "counted Un_Sub \<longleftrightarrow> True"
| "counted _ \<longleftrightarrow> False"

fun reading :: "rw_pc \<Rightarrow> bool" where
  "reading (Has_Lock Reader) \<longleftrightarrow> True"
| "reading (Un_Enter Reader) \<longleftrightarrow> True"
| "reading Un_Readers \<longleftrightarrow> True"
| "reading Un_Sub \<longleftrightarrow> True"
| "reading _ \<longleftrightarrow> False"

text \<open>The threads that \<open>writers\<close> stands for, those that \<open>writer_tid\<close> names, those that have the lock.\<close>

fun claims :: "rw_pc \<Rightarrow> bool" where
  "claims Wr_Tid \<longleftrightarrow> True"
| "claims Wr_Readers \<longleftrightarrow> True"
| "claims Wr_Load \<longleftrightarrow> True"
| "claims (Wr_Fwait_Readers v) \<longleftrightarrow> True"
| "claims Wr_Asleep_Readers \<longleftrightarrow> True"
| "claims Tw_Readers \<longleftrightarrow> True"
| "claims Tw_Tid \<longleftrightarrow> True"
| "claims Tw_Clear \<longleftrightarrow> True"
| "claims (Has_Lock Writer) \<longleftrightarrow> True"
| "claims (Un_Enter Writer) \<longleftrightarrow> True"
| "claims Un_Tid \<longleftrightarrow> True"
| "claims Un_Writers \<longleftrightarrow> True"
| "claims _ \<longleftrightarrow> False"

fun named :: "rw_pc \<Rightarrow> bool" where
  "named Wr_Readers \<longleftrightarrow> True"
| "named Wr_Load \<longleftrightarrow> True"
| "named (Wr_Fwait_Readers v) \<longleftrightarrow> True"
| "named Wr_Asleep_Readers \<longleftrightarrow> True"
| "named (Has_Lock Writer) \<longleftrightarrow> True"
| "named (Un_Enter Writer) \<longleftrightarrow> True"
| "named Un_Tid \<longleftrightarrow> True"
| "named _ \<longleftrightarrow> False"

fun writing :: "rw_pc \<Rightarrow> bool" where
  "writing Tw_Tid \<longleftrightarrow> True"
| "writing (Has_Lock Writer) \<longleftrightarrow> True"
| "writing (Un_Enter Writer) \<longleftrightarrow> True"
| "writing Un_Tid \<longleftrightarrow> True"
| "writing Un_Writers \<longleftrightarrow> True"
| "writing _ \<longleftrightarrow> False"

definition rw_counts :: "rw_sys \<Rightarrow> bool" where
  "rw_counts s \<longleftrightarrow> few (rpc s) counted \<and> readers (rw s) = int (threads_at (rpc s) counted)"

definition claimers :: "rw_sys \<Rightarrow> nat set" where
  "claimers s = {t. claims (rpc s t)}"

definition rw_claimed :: "rw_sys \<Rightarrow> bool" where
  "rw_claimed s \<longleftrightarrow> (if writers (rw s) = 0 then claimers s = {} else writers (rw s) = 1 \<and> (\<exists>w. claimers s = {w}))"

definition rw_named :: "rw_sys \<Rightarrow> bool" where
  "rw_named s \<longleftrightarrow> rpc s 0 = No_Lock \<and> (\<forall>t. 0 < t \<longrightarrow> (writer_tid (rw s) = int t \<longleftrightarrow> named (rpc s t)))"

definition rw_apart :: "rw_sys \<Rightarrow> bool" where
  "rw_apart s \<longleftrightarrow> (\<forall>t u. writing (rpc s t) \<longrightarrow> \<not> reading (rpc s u))"

definition rw_inv :: "rw_sys \<Rightarrow> bool" where
  "rw_inv s \<longleftrightarrow> rw_counts s \<and> rw_claimed s \<and> rw_named s \<and> rw_apart s"

lemmas rw_step_defs = upd_rw_def rgoto_def rret_def wake_lock_def wake_writers_def wake_readers_def

lemma after_sleep_class [simp]:
  "counted (rw_after_sleep p) = counted p" "reading (rw_after_sleep p) = reading p" "claims (rw_after_sleep p) = claims p"
  "named (rw_after_sleep p) = named p" "writing (rw_after_sleep p) = writing p" "rw_after_sleep p = No_Lock \<longleftrightarrow> p = No_Lock"
  by (cases p rule: rw_after_sleep.cases; simp)+

lemma awaken_fields [simp]:
  "rw (awaken us s) = rw s" "lq (awaken us s) = lq s" "wq (awaken us s) = wq s" "rq (awaken us s) = rq s" "rres (awaken us s) = rres s"
  by (simp_all add: awaken_def)

lemma awaken_pc: "rpc (awaken us s) u = (if u \<in> set us then rw_after_sleep (rpc s u) else rpc s u)"
  by (simp add: awaken_def)

lemma awaken_class [simp]:
  "counted (rpc (awaken us s) u) = counted (rpc s u)" "reading (rpc (awaken us s) u) = reading (rpc s u)"
  "claims (rpc (awaken us s) u) = claims (rpc s u)" "named (rpc (awaken us s) u) = named (rpc s u)"
  "writing (rpc (awaken us s) u) = writing (rpc s u)" "rpc (awaken us s) u = No_Lock \<longleftrightarrow> rpc s u = No_Lock"
  by (simp_all add: awaken_pc)

lemma awaken_threads_at [simp]:
  "few (rpc (awaken us s)) counted = few (rpc s) counted" "threads_at (rpc (awaken us s)) counted = threads_at (rpc s) counted"
  by (simp_all add: few_def threads_at_def)

lemma claim_of:
  assumes "rw_inv s" and "claims (rpc s t)"
  shows "writers (rw s) = 1 \<and> claimers s = {t}"
proof -
  have "t \<in> claimers s"
    using assms(2) by (simp add: claimers_def)
  then show ?thesis
    using assms(1) by (auto simp: rw_inv_def rw_claimed_def split: if_splits)
qed

lemma role_of: "rw_inv s \<Longrightarrow> 0 < t \<Longrightarrow> rpc s t = Un_Enter r \<Longrightarrow> writer_tid (rw s) = int t \<longleftrightarrow> r = Writer"
  by (cases r) (simp_all add: rw_inv_def rw_named_def)

lemma counts_rw:
  assumes "rw_inv s" and "0 < t" and "rw_run t s = Some s'"
  shows "rw_counts s'"
proof -
  have f: "few (rpc s) counted" "readers (rw s) = int (threads_at (rpc s) counted)"
    using assms(1) by (simp_all add: rw_inv_def rw_counts_def)
  have "counted (rpc s t) \<longrightarrow> 0 < readers (rw s)"
    using threads_at_pos [OF f(1)] f(2) by simp
  moreover have "writer_tid (rw s) = int t \<longleftrightarrow> r = Writer" if "rpc s t = Un_Enter r" for r
    by (rule role_of [OF assms(1,2) that])
  ultimately show ?thesis
    unfolding rw_counts_def using assms(3) f
    by (cases "rpc s t" rule: counted.cases) (auto simp: rw_run_def rw_step_defs int_threads_at_upd Let_def)
qed

lemma class_imps: "named p \<Longrightarrow> claims p" "writing p \<Longrightarrow> claims p" "reading p \<Longrightarrow> counted p" "reading p \<Longrightarrow> \<not> writing p"
  by (cases p rule: claims.cases; simp)+

text \<open>A step changes the class of no other thread.\<close>

lemma others_pc:
  assumes "rw_run t s = Some s'" and "u \<noteq> t"
  shows "rpc s' u = rpc s u \<or> rpc s' u = rw_after_sleep (rpc s u)"
proof -
  have e [simp]: "rpc (rgoto t p x) u = rpc x u" "rpc (rret t p r x) u = rpc x u" "rpc (upd_rw f x) u = rpc x u" for p r x f
    using assms(2) by (simp_all add: rgoto_def rret_def upd_rw_def)
  have w: "rpc (wake_lock n s) u = rpc s u \<or> rpc (wake_lock n s) u = rw_after_sleep (rpc s u)"
    "rpc (wake_writers n s) u = rpc s u \<or> rpc (wake_writers n s) u = rw_after_sleep (rpc s u)"
    "rpc (wake_readers n s) u = rpc s u \<or> rpc (wake_readers n s) u = rw_after_sleep (rpc s u)" for n
    by (simp_all add: wake_lock_def wake_writers_def wake_readers_def awaken_pc)
  have "s' = the (rw_run t s)" "rw_run t s \<noteq> None"
    using assms(1) by simp_all
  then show ?thesis
    by (cases "rpc s t") (simp_all add: rw_run_def Let_def w)
qed

lemma others_rw:
  assumes "rw_run t s = Some s'" and "u \<noteq> t"
  shows "claims (rpc s' u) = claims (rpc s u)" "named (rpc s' u) = named (rpc s u)" "writing (rpc s' u) = writing (rpc s u)"
    "reading (rpc s' u) = reading (rpc s u)" "rpc s' u = No_Lock \<longleftrightarrow> rpc s u = No_Lock"
  using others_pc [OF assms] after_sleep_class [of "rpc s u"] by metis+

lemma claim_run:
  assumes "rw_inv s" and "0 < t" and "rw_run t s = Some s'"
  shows "claims (rpc s' t) = claims (rpc s t) \<and> writers (rw s') = writers (rw s) \<or>
    writers (rw s) = 0 \<and> writers (rw s') = 1 \<and> claims (rpc s' t) \<or>
    claims (rpc s t) \<and> writers (rw s') = 0 \<and> \<not> claims (rpc s' t)"
proof -
  have w: "writers (rw s) \<noteq> 0 \<longrightarrow> writers (rw s) = 1"
    using assms(1) by (auto simp: rw_inv_def rw_claimed_def split: if_splits)
  have "writer_tid (rw s) = int t \<longleftrightarrow> r = Writer" if "rpc s t = Un_Enter r" for r
    by (rule role_of [OF assms(1,2) that])
  moreover have "s' = the (rw_run t s)" "rw_run t s \<noteq> None"
    using assms(3) by simp_all
  ultimately show ?thesis
    using w by (cases "rpc s t" rule: claims.cases) (simp_all add: rw_run_def rw_step_defs Let_def)
qed

lemma claimed_rw:
  assumes "rw_inv s" and "0 < t" and "rw_run t s = Some s'"
  shows "rw_claimed s'"
proof -
  have f: "writers (rw s) = 0 \<longrightarrow> claimers s = {}" and n: "writers (rw s) \<noteq> 0 \<longrightarrow> writers (rw s) = 1 \<and> (\<exists>h. claimers s = {h})"
    using assms(1) by (simp_all add: rw_inv_def rw_claimed_def split: if_splits)
  have h: "claimers s' = (if claims (rpc s' t) then insert t (claimers s) else claimers s - {t})"
    using others_rw(1) [OF assms(3)] unfolding claimers_def by (rule_tac set_eqI, rename_tac u, case_tac "u = t") simp_all
  have k: "claims (rpc s t) \<longrightarrow> writers (rw s) = 1 \<and> claimers s = {t}" "\<not> claims (rpc s t) \<longrightarrow> t \<notin> claimers s"
    using claim_of [OF assms(1)] by (blast, simp add: claimers_def)
  show ?thesis
    unfolding rw_claimed_def h using claim_run [OF assms] f n k
    by (cases "claims (rpc s t)"; cases "claims (rpc s' t)"; cases "writers (rw s) = 0") auto
qed

lemma named_run:
  assumes "rw_inv s" and "0 < t" and "rw_run t s = Some s'"
  shows "named (rpc s' t) = named (rpc s t) \<and> writer_tid (rw s') = writer_tid (rw s) \<or>
    writer_tid (rw s') = int t \<and> named (rpc s' t) \<and> claims (rpc s t) \<or>
    named (rpc s t) \<and> writer_tid (rw s') = 0 \<and> \<not> named (rpc s' t)"
proof -
  have "writer_tid (rw s) = int t \<longleftrightarrow> r = Writer" if "rpc s t = Un_Enter r" for r
    by (rule role_of [OF assms(1,2) that])
  moreover have "s' = the (rw_run t s)" "rw_run t s \<noteq> None"
    using assms(3) by simp_all
  ultimately show ?thesis
    by (cases "rpc s t" rule: claims.cases) (simp_all add: rw_run_def rw_step_defs Let_def)
qed

lemma named_rw:
  assumes "rw_inv s" and "0 < t" and "rw_run t s = Some s'"
  shows "rw_named s'"
proof -
  have z: "rpc s' 0 = No_Lock"
    using others_rw(5) [OF assms(3), of 0] assms(1,2) by (simp add: rw_inv_def rw_named_def)
  have n: "writer_tid (rw s) = int u \<longleftrightarrow> named (rpc s u)" if "0 < u" for u
    using assms(1) that by (simp add: rw_inv_def rw_named_def)
  have e: "u = t" if "named (rpc s u)" "claims (rpc s t)" for u
    using claim_of [OF assms(1), of u] claim_of [OF assms(1), of t] that class_imps(1) by auto
  have "writer_tid (rw s') = int u \<longleftrightarrow> named (rpc s' u)" if "0 < u" for u
  proof (cases "u = t")
    case True
    then show ?thesis
      using named_run [OF assms] n [OF assms(2)] that by auto
  next
    case False
    then show ?thesis
      using named_run [OF assms] n [OF that] e [of u] others_rw(2) [OF assms(3) False] that n [OF assms(2)] class_imps(1) by auto
  qed
  then show ?thesis
    using z by (simp add: rw_named_def)
qed

lemma apart_run:
  assumes "rw_inv s" and "0 < t" and "rw_run t s = Some s'"
  shows "(writing (rpc s' t) \<longrightarrow> writing (rpc s t) \<or> readers (rw s) \<le> 0) \<and>
    (reading (rpc s' t) \<longrightarrow> reading (rpc s t) \<or> writers (rw s) \<le> 0)"
proof -
  have "writer_tid (rw s) = int t \<longleftrightarrow> r = Writer" if "rpc s t = Un_Enter r" for r
    by (rule role_of [OF assms(1,2) that])
  moreover have "s' = the (rw_run t s)" "rw_run t s \<noteq> None"
    using assms(3) by simp_all
  ultimately show ?thesis
    by (cases "rpc s t" rule: claims.cases) (simp_all add: rw_run_def rw_step_defs Let_def)
qed

lemma apart_rw:
  assumes "rw_inv s" and "0 < t" and "rw_run t s = Some s'"
  shows "rw_apart s'"
proof -
  have a: "\<not> reading (rpc s u)" if "writing (rpc s v)" for u v
    using assms(1) that by (auto simp: rw_inv_def rw_apart_def)
  have r: "\<not> reading (rpc s u)" if "readers (rw s) \<le> 0" for u
    using assms(1) that threads_at_0 [of "rpc s" counted] class_imps(3) by (auto simp: rw_inv_def rw_counts_def)
  have w: "\<not> writing (rpc s u)" if "writers (rw s) \<le> 0" for u
    using claim_of [OF assms(1), of u] that class_imps(2) [of "rpc s u"] by auto
  have n: "writing (rpc s' t) \<Longrightarrow> writing (rpc s t) \<or> readers (rw s) \<le> 0"
    "reading (rpc s' t) \<Longrightarrow> reading (rpc s t) \<or> writers (rw s) \<le> 0"
    using apart_run [OF assms] by simp_all
  have "\<not> reading (rpc s' u)" if v: "writing (rpc s' v)" for u v
  proof
    assume u: "reading (rpc s' u)"
    consider "u = v" | "u = t" "v \<noteq> t" | "u \<noteq> t" "v = t" | "u \<noteq> t" "v \<noteq> t"
      by blast
    then show False
    proof cases
      case 1
      then show False
        using class_imps(4) [OF u] v by simp
    next
      case 2
      then have "writing (rpc s v)"
        using v others_rw(3) [OF assms(3)] by simp
      then show False
        using n(2) a w u 2(1) by blast
    next
      case 3
      then have "reading (rpc s u)"
        using u others_rw(4) [OF assms(3)] by simp
      then show False
        using n(1) a r v 3(2) by blast
    next
      case 4
      then show False
        using a [of v u] u v others_rw(3,4) [OF assms(3)] by simp
    qed
  qed
  then show ?thesis
    by (simp add: rw_apart_def)
qed

lemma rw_inv_call:
  assumes "rw_inv s" and "0 < t" and "rpc s t = No_Lock \<and> p \<in> {Rd_Check, Tr_Check, Wr_Xchg, Tw_Cas} \<or> rpc s t = Has_Lock r \<and> p = Un_Enter r"
  shows "rw_inv (rgoto t p s)"
proof -
  have g: "rw (rgoto t p s) = rw s" and u: "rpc (rgoto t p s) u = (if u = t then p else rpc s u)" for u
    by (simp_all add: rgoto_def)
  have c: "counted p = counted (rpc s t)" "claims p = claims (rpc s t)" "named p = named (rpc s t)"
    "writing p = writing (rpc s t)" "reading p = reading (rpc s t)"
    using assms(3) by (cases r; auto)+
  then have q: "counted (rpc (rgoto t p s) u) = counted (rpc s u)" "claims (rpc (rgoto t p s) u) = claims (rpc s u)"
    "named (rpc (rgoto t p s) u) = named (rpc s u)" "writing (rpc (rgoto t p s) u) = writing (rpc s u)"
    "reading (rpc (rgoto t p s) u) = reading (rpc s u)" for u
    by (simp_all add: u)
  have "rw_counts (rgoto t p s) = rw_counts s" "rw_claimed (rgoto t p s) = rw_claimed s" "rw_apart (rgoto t p s) = rw_apart s"
    by (simp_all only: rw_counts_def rw_claimed_def rw_apart_def claimers_def few_def threads_at_def g q)
  moreover have "rw_named (rgoto t p s) = rw_named s"
    unfolding rw_named_def g q using assms(2) by (simp add: u)
  ultimately show ?thesis
    using assms(1) by (simp add: rw_inv_def)
qed

interpretation rwlock: kept rw_start rw_trans rw_inv
proof
  show "rw_inv s" if "rw_start s" for s
  proof -
    have e: "(rw s)\<lparr>rw_lock := 0, writers := 0, readers := 0, writer_tid := 0\<rparr> = rw s" and p: "rpc s = (\<lambda>_. No_Lock)"
      using that by (simp_all add: rw_start_def pthread_rwlock_init_def)
    have "writers (rw s) = 0" "readers (rw s) = 0" "writer_tid (rw s) = 0"
      using arg_cong [OF e, of writers] arg_cong [OF e, of readers] arg_cong [OF e, of writer_tid] by simp_all
    then show ?thesis
      using p by (simp add: rw_inv_def rw_counts_def rw_claimed_def rw_named_def rw_apart_def claimers_def few_def threads_at_def)
  qed
  show "rw_inv s'" if "rw_inv s" "rw_trans s s'" for s s'
    using that(2)
  proof cases
    case (run t)
    then show ?thesis
      using counts_rw [OF that(1)] claimed_rw [OF that(1)] named_rw [OF that(1)] apart_rw [OF that(1)] by (simp add: rw_inv_def)
  next
    case (call_lock t p)
    then show ?thesis
      using rw_inv_call [OF that(1) call_lock(2)] by blast
  next
    case (call_unlock t r)
    then show ?thesis
      using rw_inv_call [OF that(1) call_unlock(2)] by blast
  qed
qed

section \<open>A run\<close>

fun rw_exec :: "nat list \<Rightarrow> rw_sys \<Rightarrow> rw_sys option" where
  "rw_exec [] s = Some s"
| "rw_exec (t # ts) s = (case rw_run t s of None \<Rightarrow> None | Some s1 \<Rightarrow> rw_exec ts s1)"

lemma rw_reach_exec:
  "reach rw_start rw_trans s \<Longrightarrow> \<forall>t \<in> set ts. 0 < t \<Longrightarrow> rw_exec ts s = Some s' \<Longrightarrow> reach rw_start rw_trans s'"
proof (induction ts arbitrary: s)
  case (Cons t ts)
  obtain s1 where r: "rw_run t s = Some s1" "rw_exec ts s1 = Some s'"
    using Cons.prems(3) by (auto split: option.splits)
  then have "reach rw_start rw_trans s1"
    using Cons.prems(2) by (intro reach.step [OF Cons.prems(1)] rw_trans.run [of t]) simp_all
  then show ?case
    using Cons.IH Cons.prems(2) r(2) by simp
qed simp

text \<open>
  Thread 1 takes the lock for writing. Thread 2 wants to read and sees the writer. Then either 1
  unlocks before 2 sleeps, or 2 sleeps first.
\<close>

definition rw0 :: rw_sys where
  "rw0 = \<lparr>rw = \<lparr>rw_lock = 0, writers = 0, readers = 0, writer_tid = 0\<rparr>, lq = [], wq = [], rq = [], rpc = (\<lambda>_. No_Lock), rres = (\<lambda>_. 0)\<rparr>"

definition rw_writer :: rw_sys where
  "rw_writer = the (rw_exec [1, 1, 1] (rgoto 1 Wr_Xchg rw0))"

definition rw_seen :: rw_sys where
  "rw_seen = the (rw_exec [2] (rgoto 2 Rd_Check rw_writer))"

definition rw_stuck :: rw_sys where
  "rw_stuck = the (rw_exec [1, 1, 1, 1, 1, 2, 2] (rgoto 1 (Un_Enter Writer) rw_seen))"

lemma rw_writer_state: "rw_exec [1, 1, 1] (rgoto 1 Wr_Xchg rw0) = Some rw_writer"
    "rw rw_writer = \<lparr>rw_lock = 0, writers = 1, readers = 0, writer_tid = 1\<rparr>" "lq rw_writer = []" "wq rw_writer = []" "rq rw_writer = []"
    "rpc rw_writer = (\<lambda>_. No_Lock)(1 := Has_Lock Writer)"
  by (simp_all add: rw_writer_def rw0_def rw_run_def rw_step_defs)

lemma rw_seen_state: "rw_exec [2] (rgoto 2 Rd_Check rw_writer) = Some rw_seen"
    "rw rw_seen = \<lparr>rw_lock = 0, writers = 1, readers = 0, writer_tid = 1\<rparr>" "lq rw_seen = []" "wq rw_seen = []" "rq rw_seen = []"
    "rpc rw_seen = (\<lambda>_. No_Lock)(1 := Has_Lock Writer, 2 := Rd_Load)"
  by (simp_all add: rw_seen_def rw_writer_state(2-6) rw_run_def rw_step_defs)

lemma rw_stuck_state: "rw_exec [1, 1, 1, 1, 1, 2, 2] (rgoto 1 (Un_Enter Writer) rw_seen) = Some rw_stuck"
    "rw rw_stuck = \<lparr>rw_lock = 0, writers = 0, readers = 0, writer_tid = 0\<rparr>" "lq rw_stuck = [2]" "wq rw_stuck = []" "rq rw_stuck = []"
    "rpc rw_stuck = (\<lambda>_. No_Lock)(2 := Rd_Asleep)"
  by (simp_all add: rw_stuck_def rw_seen_state(2-6) rw_run_def rw_step_defs awaken_def fun_upd_twist, simp add: fun_eq_iff)

lemma reach_rw_seen: "reach rw_start rw_trans rw_seen"
proof -
  have "reach rw_start rw_trans rw0"
    by (rule reach.start) (simp add: rw_start_def rw0_def pthread_rwlock_init_def)
  then have "reach rw_start rw_trans (rgoto 1 Wr_Xchg rw0)"
    by (rule reach.step) (rule rw_trans.call_lock, simp_all add: rw0_def)
  then have "reach rw_start rw_trans rw_writer"
    by (rule rw_reach_exec [OF _ _ rw_writer_state(1)]) simp
  then have "reach rw_start rw_trans (rgoto 2 Rd_Check rw_writer)"
    by (rule reach.step) (rule rw_trans.call_lock, simp_all add: rw_writer_state)
  then show ?thesis
    by (rule rw_reach_exec [OF _ _ rw_seen_state(1)]) simp
qed

section \<open>What the lock promises\<close>

text \<open>
  C13: While a thread has a read-write lock for writing, no other thread has it for reading or for
  writing, in every interleaving of lock, trylock and unlock calls; the reader count is the number
  of threads that have announced themselves as readers.
\<close>

theorem rwlock_exclusion:
  assumes "reach rw_start rw_trans s" and "rpc s w = Has_Lock Writer"
  shows "(\<forall>u. rpc s u \<noteq> Has_Lock Reader) \<and> (\<forall>u. rpc s u = Has_Lock Writer \<longrightarrow> u = w) \<and> writer_tid (rw s) = int w \<and>
    readers (rw s) = int (threads_at (rpc s) counted)"
proof -
  have i: "rw_inv s"
    by (rule rwlock.always [OF assms(1)])
  have "0 < w"
    using i assms(2) by (cases "w = 0") (simp_all add: rw_inv_def rw_named_def)
  then have "writer_tid (rw s) = int w"
    using i assms(2) by (simp add: rw_inv_def rw_named_def)
  moreover have "rpc s u \<noteq> Has_Lock Reader" for u
  proof
    assume "rpc s u = Has_Lock Reader"
    then have "reading (rpc s u)" "writing (rpc s w)"
      using assms(2) by simp_all
    then show False
      using i unfolding rw_inv_def rw_apart_def by blast
  qed
  moreover have "u = w" if "rpc s u = Has_Lock Writer" for u
    using claim_of [OF i, of u] claim_of [OF i, of w] that assms(2) by simp
  ultimately show ?thesis
    using i by (simp add: rw_inv_def rw_counts_def)
qed

theorem rwlock_exclusion_witness: "rpc rw_seen 2 \<noteq> Has_Lock Reader \<and> writer_tid (rw rw_seen) = 1"
  using rwlock_exclusion [OF reach_rw_seen, of 1] by (simp add: rw_seen_state)

text \<open>
  C23: A reader can sleep for ever on a free lock. Waiting readers sleep on a word that no operation
  ever changes, so the kernel's comparison does not notice an unlock between the test of \<open>writers\<close>
  and the sleep.
\<close>

theorem rwlock_lost_wakeup:
  "\<exists>s. reach rw_start rw_trans s \<and> writers (rw s) = 0 \<and> readers (rw s) = 0 \<and> lq s = [2] \<and> rpc s 2 = Rd_Asleep \<and>
     rw_run 2 s = None \<and> {t. rpc s t \<noteq> No_Lock} = {2}"
proof -
  have "reach rw_start rw_trans (rgoto 1 (Un_Enter Writer) rw_seen)"
    using reach_rw_seen by (rule reach.step) (rule rw_trans.call_unlock, simp_all add: rw_seen_state)
  then have "reach rw_start rw_trans rw_stuck"
    by (rule rw_reach_exec [OF _ _ rw_stuck_state(1)]) simp
  then show ?thesis
    by (intro exI [of _ rw_stuck]) (auto simp: rw_stuck_state rw_run_def)
qed

end
